(* ===== verification/Barracuda_Prelude.thy ===== *)
theory Barracuda_Prelude
  imports Main "HOL-Library.Word" "HOL-Library.Monad_Syntax"
begin

unbundle bit_operations_syntax

text \<open>
  The vocabulary shared by every component: machine words, the byte view of a 64-bit word
  (the machine is little-endian, as x86 is), splicing bytes into a buffer, and the option
  monad in which \<^term>\<open>None\<close> stands for undefined behaviour of the C program (an access
  outside an object, a dangling or null pointer, signed overflow). Ordinary error returns
  of the code are values, never \<^term>\<open>None\<close>.

  \<^item> \<open>byte_of w k\<close> is byte \<open>k\<close> of a word in memory order; \<open>bytes_of_word\<close> and
    \<open>word_of_bytes\<close> are the store and the load representation.
  \<^item> \<open>overwrite xs d ys\<close> overwrites a buffer from offset \<open>d\<close> on.
  \<^item> \<open>c_int\<close> is the range check of a C \<open>int\<close> result, \<open>size_to_int\<close> the conversion from \<open>size_t\<close>.
  \<^item> \<open>outcome\<close> is the result of a step that may block or fault.
\<close>

section \<open>Machine types\<close>

type_synonym u8 = "8 word"
type_synonym u16 = "16 word"
type_synonym u32 = "32 word"
type_synonym u64 = "64 word"

named_theorems lane_simps \<open>byte lanes of 64-bit words\<close>
named_theorems mem_simps \<open>evaluation of memory accesses\<close>

definition byte_of :: "u64 \<Rightarrow> nat \<Rightarrow> u8" where
  "byte_of w k = ucast (drop_bit (8 * k) w)"

definition bytes_of_word :: "u64 \<Rightarrow> u8 list" where
  "bytes_of_word w = map (byte_of w) [0..<8]"

definition word_of_bytes :: "u8 list \<Rightarrow> u64" where
  "word_of_bytes bs = foldr (\<lambda>b acc. push_bit 8 acc OR ucast b) bs 0"

definition overwrite :: "'a list \<Rightarrow> nat \<Rightarrow> 'a list \<Rightarrow> 'a list" where
  "overwrite xs d ys = take d xs @ ys @ drop (d + length ys) xs"

text \<open>The result of \<open>int\<close> arithmetic: signed overflow is undefined.\<close>

definition c_int :: "int \<Rightarrow> int option" where
  "c_int x = (if - (2 ^ 31) \<le> x \<and> x < 2 ^ 31 then Some x else None)"

text \<open>\<open>size_t\<close> arithmetic wraps at 64 bits; assigning to an \<open>int\<close> keeps the low 32 bits.\<close>

definition size_to_int :: "u64 \<Rightarrow> int" where
  "size_to_int w = sint (ucast w :: u32)"

text \<open>The exit codes of the C library.\<close>

definition EXIT_SUCCESS :: int where
  "EXIT_SUCCESS = 0"

definition EXIT_FAILURE :: int where
  "EXIT_FAILURE = 1"

text \<open>The outcome of one step of code that may block: it goes on, waits, or runs into undefined
  behaviour.\<close>

datatype 'a outcome = Go 'a | Block | Fault

fun is_go :: "'a outcome \<Rightarrow> bool" where
  "is_go (Go x) = True"
| "is_go _ = False"

fun go_or :: "'a \<Rightarrow> 'a outcome \<Rightarrow> 'a" where
  "go_or y (Go x) = x"
| "go_or y _ = y"

text \<open>Sequencing of outcomes, and undefined behaviour as a fault.\<close>

fun obind :: "'a outcome \<Rightarrow> ('a \<Rightarrow> 'b outcome) \<Rightarrow> 'b outcome" where
  "obind (Go x) f = f x"
| "obind Block f = Block"
| "obind Fault f = Fault"

fun or_fault :: "'a option \<Rightarrow> 'a outcome" where
  "or_fault (Some x) = Go x"
| "or_fault None = Fault"

section \<open>Byte lanes\<close>

lemma bit_byte_of: "bit (byte_of w k) n \<longleftrightarrow> n < 8 \<and> bit w (8 * k + n)"
  by (auto simp: byte_of_def bit_simps)

lemma u8_eqI: "(\<And>n. n < 8 \<Longrightarrow> bit a n = bit b n) \<Longrightarrow> a = (b :: u8)"
  by (rule bit_word_eqI) simp

lemma u64_lane_eqI:
  assumes "\<And>k. k < 8 \<Longrightarrow> byte_of a k = byte_of b k"
  shows "a = b"
proof (rule bit_word_eqI)
  fix n assume "n < LENGTH(64)"
  then have "n div 8 < 8" by simp
  then have "bit (byte_of a (n div 8)) (n mod 8) = bit (byte_of b (n div 8)) (n mod 8)"
    by (simp add: assms)
  then show "bit a n = bit b n" by (simp add: bit_byte_of)
qed

lemma byte_of_xor [lane_simps]: "byte_of (a XOR b) k = byte_of a k XOR byte_of b k"
  by (rule bit_word_eqI) (auto simp: bit_byte_of bit_simps)

lemma byte_of_and [lane_simps]: "byte_of (a AND b) k = byte_of a k AND byte_of b k"
  by (rule bit_word_eqI) (auto simp: bit_byte_of bit_simps)

lemma byte_of_0 [simp, lane_simps]: "byte_of 0 k = 0"
  by (simp add: byte_of_def)

lemma bit_word_of_bytes:
  "bit (word_of_bytes bs) n \<longleftrightarrow> n < 64 \<and> n < 8 * length bs \<and> bit (bs ! (n div 8)) (n mod 8)"
proof (induction bs arbitrary: n)
  case Nil
  then show ?case by (simp add: word_of_bytes_def)
next
  case (Cons b bs)
  have "bit (word_of_bytes (b # bs)) n \<longleftrightarrow>
      n < 64 \<and> (8 \<le> n \<and> bit (word_of_bytes bs) (n - 8) \<or> n < 8 \<and> bit b n)"
    by (auto simp: word_of_bytes_def bit_simps dest: bit_imp_le_length)
  then show ?case
    by (cases "n < 8") (auto simp: Cons.IH nth_Cons' le_div_geq le_mod_geq)
qed

lemma byte_of_word_of_bytes [lane_simps]:
  "k < 8 \<Longrightarrow> k < length bs \<Longrightarrow> byte_of (word_of_bytes bs) k = bs ! k"
  by (rule u8_eqI) (auto simp: bit_byte_of bit_word_of_bytes)

lemma length_bytes_of_word [simp]: "length (bytes_of_word w) = 8"
  by (simp add: bytes_of_word_def)

lemma nth_bytes_of_word [lane_simps]: "k < 8 \<Longrightarrow> bytes_of_word w ! k = byte_of w k"
  by (simp add: bytes_of_word_def)

text \<open>Storing a word and loading it again is the identity, and so is the converse.\<close>

lemma word_of_bytes_of_word [simp]: "word_of_bytes (bytes_of_word w) = w"
  by (rule u64_lane_eqI) (simp add: lane_simps)

lemma bytes_of_word_of_bytes:
  "length bs = 8 \<Longrightarrow> bytes_of_word (word_of_bytes bs) = bs"
  by (rule nth_equalityI) (simp_all add: lane_simps)

section \<open>Overwriting part of a buffer\<close>

lemma length_overwrite [simp]: "d + length ys \<le> length xs \<Longrightarrow> length (overwrite xs d ys) = length xs"
  by (simp add: overwrite_def)

lemma nth_overwrite:
  assumes "d + length ys \<le> length xs" "i < length xs"
  shows "overwrite xs d ys ! i = (if d \<le> i \<and> i < d + length ys then ys ! (i - d) else xs ! i)"
  using assms by (auto simp: overwrite_def nth_append min_def)

lemma take_drop_overwrite:
  "d + length ys \<le> length xs \<Longrightarrow> take (length ys) (drop d (overwrite xs d ys)) = ys"
  by (simp add: overwrite_def)

section \<open>C integers\<close>

lemma c_int_Some [simp]: "- (2 ^ 31) \<le> x \<Longrightarrow> x < 2 ^ 31 \<Longrightarrow> c_int x = Some x"
  by (simp add: c_int_def)

lemma c_int_SomeD: "c_int x = Some y \<Longrightarrow> y = x \<and> - (2 ^ 31) \<le> x \<and> x < 2 ^ 31"
  by (simp add: c_int_def split: if_splits)

lemma size_to_int_of_nat: "x < 2 ^ 31 \<Longrightarrow> size_to_int (of_nat x) = int x"
  by (simp add: size_to_int_def unsigned_of_nat signed_of_nat signed_take_bit_int_eq_self
      take_bit_nat_eq_self)

lemma is_go_go_or: "is_go r \<Longrightarrow> r = Go (go_or y r)"
  by (cases r) simp_all

section \<open>Invariants of transition systems\<close>

text \<open>A predicate that every step keeps holds along every run; if every step also does some of a
  finite amount of work, runs are bounded.\<close>

locale invariant_system =
  fixes step :: "'s \<Rightarrow> 's \<Rightarrow> bool" and inv :: "'s \<Rightarrow> bool"
  assumes inv_step: "inv s \<Longrightarrow> step s t \<Longrightarrow> inv t"
begin

lemma inv_steps: "step\<^sup>*\<^sup>* s t \<Longrightarrow> inv s \<Longrightarrow> inv t"
  by (induction rule: rtranclp_induct) (auto intro: inv_step)

end

locale bounded_system = invariant_system +
  fixes work :: "'s \<Rightarrow> nat"
  assumes work_step: "inv s \<Longrightarrow> step s t \<Longrightarrow> work t < work s"
begin

lemma run_length: "(step ^^ k) s t \<Longrightarrow> inv s \<Longrightarrow> inv t \<and> work t + k \<le> work s"
proof (induction k arbitrary: t)
  case (Suc k)
  then obtain u where "(step ^^ k) s u" "step u t" by auto
  then show ?case using Suc.IH [of u] Suc.prems(2) inv_step [of u t] work_step [of u t] by fastforce
qed simp

end

text \<open>If moreover only final states are stuck, every state reaches one, and no run ends anywhere else.\<close>

locale live_system = bounded_system +
  fixes final :: "'s \<Rightarrow> bool"
  assumes progress: "inv s \<Longrightarrow> \<not> final s \<Longrightarrow> \<exists>t. step s t"
begin

lemma ends: "inv s \<Longrightarrow> \<exists>t. step\<^sup>*\<^sup>* s t \<and> final t"
proof (induction "work s" arbitrary: s rule: less_induct)
  case less
  show ?case
  proof (cases "final s")
    case False
    then obtain t where t: "step s t" using progress [OF less.prems] by blast
    then obtain u where "step\<^sup>*\<^sup>* t u" "final u"
      using less.hyps [OF work_step [OF less.prems t] inv_step [OF less.prems t]] by blast
    then show ?thesis using t by (blast intro: converse_rtranclp_into_rtranclp)
  qed blast
qed

lemma stuck_final: "step\<^sup>*\<^sup>* s t \<Longrightarrow> inv s \<Longrightarrow> \<nexists>u. step t u \<Longrightarrow> final t"
  using inv_steps progress by blast

end

end
