(* ===== verification/GF256.thy ===== *)
theory GF256
  imports Barracuda_Prelude
begin

unbundle bit_operations_syntax

text \<open>
  The mathematics the encoders are measured against: the field with 256 elements, bytes with
  exclusive or as addition and reduction by \<open>x^8 + x^4 + x^3 + x^2 + 1\<close> (0x11d, octal 0435,
  the polynomial of the code). \<open>gf_double\<close> is multiplication by the generator \<open>x\<close>,
  \<open>gf_mul\<close> the product of two bytes.

  The lemmas show that doubling is linear and injective, that its 255 powers of one are all
  the nonzero bytes (so a discrete logarithm exists), and that a power of the generator
  other than the identity fixes no nonzero byte, which is what double erasure correction
  rests on.
\<close>

definition gf_double :: "u8 \<Rightarrow> u8" where
  "gf_double b = push_bit 1 b XOR (if bit b 7 then 0x1d else 0)"

definition gf_mul :: "u8 \<Rightarrow> u8 \<Rightarrow> u8" where
  "gf_mul a b = foldr (\<lambda>i acc. (if bit b i then (gf_double ^^ i) a else 0) XOR acc) [0..<8] 0"

fun gf_powers :: "nat \<Rightarrow> u8 \<Rightarrow> u8 list" where
  "gf_powers 0 b = []"
| "gf_powers (Suc n) b = b # gf_powers n (gf_double b)"

abbreviation gf_exp :: "nat \<Rightarrow> u8" where
  "gf_exp i \<equiv> (gf_double ^^ i) 1"

fun xor_list :: "u8 list \<Rightarrow> u8" where
  "xor_list [] = 0"
| "xor_list (b # bs) = b XOR xor_list bs"

section \<open>Doubling is linear and injective\<close>

lemma bit_gf_double:
  "bit (gf_double b) n \<longleftrightarrow> n < 8 \<and> ((0 < n \<and> bit b (n - 1)) \<noteq> (bit b 7 \<and> n \<in> {0, 2, 3, 4}))"
proof (cases "n < 8")
  case True
  then have "n \<in> {0, 1, 2, 3, 4, 5, 6, 7}" by auto
  then show ?thesis
    unfolding gf_double_def bit_xor_iff bit_push_bit_iff by (auto simp: bit_simps)
next
  case False
  then show ?thesis by (auto dest: bit_imp_le_length)
qed

lemma gf_double_xor: "gf_double (a XOR b) = gf_double a XOR gf_double b"
  by (rule bit_word_eqI) (auto simp: bit_gf_double bit_simps)

lemma gf_double_0 [simp]: "gf_double 0 = 0"
  by (simp add: gf_double_def)

lemma gf_double_eq_0 [simp]: "gf_double b = 0 \<longleftrightarrow> b = 0"
proof
  assume "gf_double b = 0"
  then have nb: "\<not> bit (gf_double b) n" for n by simp
  have "\<not> bit b 7" using nb [of 0] by (auto simp: bit_gf_double)
  moreover have "\<not> bit b n" if "n < 7" for n
    using nb [of "Suc n"] that \<open>\<not> bit b 7\<close> by (auto simp: bit_gf_double)
  ultimately have "\<not> bit b n" if "n < 8" for n
    using that by (cases "n = 7") auto
  then show "b = 0" by (intro u8_eqI) simp
qed simp

lemma xor_eq_0_iff: "a XOR b = 0 \<longleftrightarrow> a = (b :: u8)"
  by (metis bit.xor_cancel_right xor.assoc xor.left_neutral xor_self_eq)

lemma gf_double_inject [simp]: "gf_double a = gf_double b \<longleftrightarrow> a = b"
  by (metis gf_double_eq_0 gf_double_xor xor_eq_0_iff)

lemma gf_double_pow_xor:
  "(gf_double ^^ n) (a XOR b) = (gf_double ^^ n) a XOR (gf_double ^^ n) b"
  by (induction n) (simp_all add: gf_double_xor)

lemma gf_double_pow_0 [simp]: "(gf_double ^^ n) 0 = 0"
  by (induction n) simp_all

lemma gf_double_pow_inject [simp]: "(gf_double ^^ n) a = (gf_double ^^ n) b \<longleftrightarrow> a = b"
  by (induction n) simp_all

section \<open>The powers of the generator\<close>

lemma gf_powers_map: "gf_powers n b = map (\<lambda>i. (gf_double ^^ i) b) [0..<n]"
proof (induction n arbitrary: b)
  case (Suc n)
  have "[0..<Suc n] = 0 # map Suc [0..<n]" by (metis map_Suc_upt upt_conv_Cons zero_less_Suc)
  then show ?case by (simp add: Suc funpow_swap1)
qed simp

lemma gf_powers_table:
  "map unat (gf_powers 255 1) =
    [1, 2, 4, 8, 16, 32, 64, 128, 29, 58, 116, 232, 205, 135, 19, 38, 76, 152, 45, 90,
     180, 117, 234, 201, 143, 3, 6, 12, 24, 48, 96, 192, 157, 39, 78, 156, 37, 74, 148,
     53, 106, 212, 181, 119, 238, 193, 159, 35, 70, 140, 5, 10, 20, 40, 80, 160, 93,
     186, 105, 210, 185, 111, 222, 161, 95, 190, 97, 194, 153, 47, 94, 188, 101, 202,
     137, 15, 30, 60, 120, 240, 253, 231, 211, 187, 107, 214, 177, 127, 254, 225, 223,
     163, 91, 182, 113, 226, 217, 175, 67, 134, 17, 34, 68, 136, 13, 26, 52, 104, 208,
     189, 103, 206, 129, 31, 62, 124, 248, 237, 199, 147, 59, 118, 236, 197, 151, 51,
     102, 204, 133, 23, 46, 92, 184, 109, 218, 169, 79, 158, 33, 66, 132, 21, 42, 84,
     168, 77, 154, 41, 82, 164, 85, 170, 73, 146, 57, 114, 228, 213, 183, 115, 230, 209,
     191, 99, 198, 145, 63, 126, 252, 229, 215, 179, 123, 246, 241, 255, 227, 219, 171,
     75, 150, 49, 98, 196, 149, 55, 110, 220, 165, 87, 174, 65, 130, 25, 50, 100, 200,
     141, 7, 14, 28, 56, 112, 224, 221, 167, 83, 166, 81, 162, 89, 178, 121, 242, 249,
     239, 195, 155, 43, 86, 172, 69, 138, 9, 18, 36, 72, 144, 61, 122, 244, 245, 247,
     243, 251, 235, 203, 139, 11, 22, 44, 88, 176, 125, 250, 233, 207, 131, 27, 54,
     108, 216, 173, 71, 142]"
  by code_simp

lemma distinct_gf_powers: "distinct (gf_powers 255 1)"
proof -
  have "distinct (map unat (gf_powers 255 1))" unfolding gf_powers_table by simp
  then show ?thesis by (simp add: distinct_map)
qed

lemma gf_exp_inj: "i < 255 \<Longrightarrow> j < 255 \<Longrightarrow> gf_exp i = gf_exp j \<longleftrightarrow> i = j"
  using distinct_gf_powers by (auto simp: gf_powers_map distinct_map inj_on_def)

lemma gf_exp_nonzero [simp]: "gf_exp i \<noteq> 0"
  by (induction i) simp_all

lemma gf_exp_255: "gf_exp 255 = 1"
proof -
  have "unat (gf_exp 254) = map unat (gf_powers 255 1) ! 254" by (simp add: gf_powers_map)
  also have "\<dots> = 142" unfolding gf_powers_table by simp
  finally have "unat (gf_exp 254) = unat (142 :: u8)" by simp
  then have "gf_exp 254 = 142" by (simp only: unsigned_word_eqI)
  then have "gf_double (gf_exp 254) = 1" by (simp add: gf_double_def)
  then have "gf_exp (Suc 254) = 1" by (simp only: funpow.simps o_apply)
  moreover have "Suc 254 = 255" by simp
  ultimately show ?thesis by (simp only:)
qed

lemma gf_exp_mod: "gf_exp n = gf_exp (n mod 255)"
proof (induction n rule: less_induct)
  case (less n)
  show ?case
  proof (cases "n < 255")
    case False
    then have "gf_exp n = gf_exp (n - 255 + 255)" by simp
    also have "\<dots> = (gf_double ^^ (n - 255)) (gf_exp 255)" by (simp only: funpow_add o_apply)
    also have "\<dots> = gf_exp (n - 255)" by (simp only: gf_exp_255)
    also have "\<dots> = gf_exp ((n - 255) mod 255)" using False by (intro less.IH) simp
    also have "(n - 255) mod 255 = n mod 255" using False by (simp add: le_mod_geq)
    finally show ?thesis .
  qed simp
qed

lemma gf_nonzero_exp:
  assumes "b \<noteq> 0" shows "\<exists>i < 255. b = gf_exp i"
proof -
  let ?P = "set (gf_powers 255 1)"
  have "card ?P = 255" using distinct_card [OF distinct_gf_powers] by (simp add: gf_powers_map)
  moreover have "?P \<subseteq> UNIV - {0}" by (auto simp: gf_powers_map)
  moreover have "card (UNIV - {0 :: u8}) = 255" by (simp add: card_Diff_singleton card_word)
  ultimately have "?P = UNIV - {0}" by (metis card_subset_eq finite)
  then have "b \<in> ?P" using assms by simp
  then show ?thesis by (auto simp: gf_powers_map)
qed

text \<open>No proper power of the generator fixes a nonzero byte.\<close>

lemma gf_double_pow_fixpoint:
  assumes "(gf_double ^^ k) e = e" "0 < k" "k < 255"
  shows "e = 0"
proof (rule ccontr)
  assume "e \<noteq> 0"
  then obtain i where i: "i < 255" "e = gf_exp i" using gf_nonzero_exp by blast
  have "gf_exp (k + i) = gf_exp i"
    using assms(1) unfolding i(2) by (simp only: funpow_add o_apply)
  then have "gf_exp ((k + i) mod 255) = gf_exp i"
    by (simp only: gf_exp_mod [symmetric])
  then have "(k + i) mod 255 = i" using i(1) by (simp add: gf_exp_inj)
  moreover have "(k + i) mod 255 = (if k + i < 255 then k + i else k + i - 255)"
    using i(1) assms(3) by (simp add: mod_if)
  ultimately show False using assms(2,3) by (simp split: if_splits)
qed

section \<open>The product\<close>

lemma gf_mul_unfold:
  "gf_mul a b = (if bit b 0 then a else 0) XOR (if bit b 1 then (gf_double ^^ 1) a else 0)
     XOR (if bit b 2 then (gf_double ^^ 2) a else 0) XOR (if bit b 3 then (gf_double ^^ 3) a else 0)
     XOR (if bit b 4 then (gf_double ^^ 4) a else 0) XOR (if bit b 5 then (gf_double ^^ 5) a else 0)
     XOR (if bit b 6 then (gf_double ^^ 6) a else 0) XOR (if bit b 7 then (gf_double ^^ 7) a else 0)"
proof -
  have "[0..<8] = [0, 1, 2, 3, 4, 5, 6, 7::nat]" by code_simp
  then show ?thesis by (simp add: gf_mul_def xor.assoc)
qed

lemma gf_mul_0_left [simp]: "gf_mul 0 b = 0"
  by (simp add: gf_mul_unfold)

lemma gf_mul_0_right [simp]: "gf_mul a 0 = 0"
  by (simp add: gf_mul_unfold)

lemma gf_mul_1_right [simp]: "gf_mul a 1 = a"
  by (simp add: gf_mul_unfold bit_1_iff)

lemma gf_mul_xor_left: "gf_mul (a XOR b) c = gf_mul a c XOR gf_mul b c"
  by (simp add: gf_mul_unfold gf_double_pow_xor gf_double_xor ac_simps)

text \<open>The reduction step: eight doublings are the sum of the lower terms of the polynomial.\<close>

lemma gf_double_pow_8:
  "(gf_double ^^ 8) a = a XOR (gf_double ^^ 2) a XOR (gf_double ^^ 3) a XOR (gf_double ^^ 4) a"
proof (cases "a = 0")
  case False
  then obtain i where a: "a = gf_exp i" using gf_nonzero_exp by blast
  have swap: "(gf_double ^^ n) a = (gf_double ^^ i) (gf_exp n)" for n
    unfolding a by (metis add.commute funpow_add o_apply)
  have one: "gf_exp 8 = 1 XOR gf_exp 2 XOR gf_exp 3 XOR gf_exp 4"
    by code_simp
  show ?thesis unfolding swap one gf_double_pow_xor by (simp add: a)
qed simp

lemma gf_mul_double_right: "gf_mul a (gf_double b) = gf_double (gf_mul a b)"
proof -
  have db: "bit (gf_double b) 0 = bit b 7" "bit (gf_double b) 1 = bit b 0"
    "bit (gf_double b) 2 = (bit b 1 \<noteq> bit b 7)" "bit (gf_double b) 3 = (bit b 2 \<noteq> bit b 7)"
    "bit (gf_double b) 4 = (bit b 3 \<noteq> bit b 7)" "bit (gf_double b) 5 = bit b 4"
    "bit (gf_double b) 6 = bit b 5" "bit (gf_double b) 7 = bit b 6"
    by (simp_all add: bit_gf_double)
  have step: "gf_double ((gf_double ^^ n) a) = (gf_double ^^ (Suc n)) a" for n by simp
  have push: "gf_double (if c then x else 0) = (if c then gf_double x else 0)" for c x by simp
  have eight: "(gf_double ^^ Suc 7) a =
      a XOR (gf_double ^^ 2) a XOR (gf_double ^^ 3) a XOR (gf_double ^^ 4) a"
    using gf_double_pow_8 [of a] by (simp only: Suc_numeral semiring_norm)
  have sum: "Suc 1 = 2" "Suc 2 = 3" "Suc 3 = 4" "Suc 4 = 5" "Suc 5 = 6" "Suc 6 = 7" by simp_all
  have low: "gf_double a = (gf_double ^^ 1) a" by simp
  show ?thesis
    unfolding gf_mul_unfold gf_double_xor push db step eight sum low
    by (cases "bit b 7"; cases "bit b 1"; cases "bit b 2"; cases "bit b 3")
      (simp_all add: ac_simps del: funpow.simps)
qed

lemma gf_mul_exp_right: "gf_mul a (gf_exp j) = (gf_double ^^ j) a"
  by (induction j) (simp_all add: gf_mul_double_right)

lemma gf_mul_exp: "gf_mul (gf_exp i) (gf_exp j) = gf_exp (i + j)"
  by (metis add.commute funpow_add gf_mul_exp_right o_apply)

lemma gf_mul_commute: "gf_mul a b = gf_mul b a"
  by (cases "a = 0"; cases "b = 0")
    (auto dest!: gf_nonzero_exp simp: gf_mul_exp add.commute)

lemma gf_mul_assoc: "gf_mul (gf_mul a b) c = gf_mul a (gf_mul b c)"
  by (cases "a = 0"; cases "b = 0"; cases "c = 0")
    (auto dest!: gf_nonzero_exp simp: gf_mul_exp add.assoc)

lemma gf_mul_eq_0 [simp]: "gf_mul a b = 0 \<longleftrightarrow> a = 0 \<or> b = 0"
  by (cases "a = 0"; cases "b = 0") (auto dest!: gf_nonzero_exp simp: gf_mul_exp)

end
