(* ===== verification/C_Memory.thy ===== *)
theory C_Memory
  imports Barracuda_Prelude
begin

unbundle bit_operations_syntax

text \<open>
  The memory the encoders work on. An object is a byte buffer or an array of pointers; a
  pointer is the number of an object, 0 is the null pointer. Every access checks that the
  object is live, of the right kind and long enough, and is \<^term>\<open>None\<close> otherwise. Stores
  never change the length or the kind of an object.

  The \<open>stripe\<close> predicate is the caller's side of the \<open>gen_syndrome\<close> interface: a pointer
  array with \<open>disks\<close> distinct buffers of at least the given length.
\<close>

type_synonym ptr = nat

datatype obj = Bytes "u8 list" | Ptrs "ptr list"

type_synonym mem = "ptr \<rightharpoonup> obj"

abbreviation (input) null :: ptr where
  "null \<equiv> 0"

definition obj_at :: "mem \<Rightarrow> ptr \<Rightarrow> obj option" where
  "obj_at m p = (if p = null then None else m p)"

definition bytes_at :: "mem \<Rightarrow> ptr \<Rightarrow> u8 list option" where
  "bytes_at m p = (case obj_at m p of Some (Bytes bs) \<Rightarrow> Some bs | _ \<Rightarrow> None)"

definition ptrs_at :: "mem \<Rightarrow> ptr \<Rightarrow> ptr list option" where
  "ptrs_at m p = (case obj_at m p of Some (Ptrs ps) \<Rightarrow> Some ps | _ \<Rightarrow> None)"

text \<open>\<open>ptrs[i]\<close> for an \<open>int\<close> index.\<close>

definition ptr_index :: "mem \<Rightarrow> ptr \<Rightarrow> int \<Rightarrow> ptr option" where
  "ptr_index m a i = do {
     ps \<leftarrow> ptrs_at m a;
     if 0 \<le> i \<and> nat i < length ps then Some (ps ! nat i) else None }"

definition ptr_assign :: "mem \<Rightarrow> ptr \<Rightarrow> int \<Rightarrow> ptr \<Rightarrow> mem option" where
  "ptr_assign m a i v = do {
     ps \<leftarrow> ptrs_at m a;
     if 0 \<le> i \<and> nat i < length ps then Some (m(a \<mapsto> Ptrs (ps[nat i := v]))) else None }"

definition load8 :: "mem \<Rightarrow> ptr \<Rightarrow> nat \<Rightarrow> u8 option" where
  "load8 m p d = do {
     bs \<leftarrow> bytes_at m p;
     if d < length bs then Some (bs ! d) else None }"

definition store8 :: "mem \<Rightarrow> ptr \<Rightarrow> nat \<Rightarrow> u8 \<Rightarrow> mem option" where
  "store8 m p d v = do {
     bs \<leftarrow> bytes_at m p;
     if d < length bs then Some (m(p \<mapsto> Bytes (bs[d := v]))) else None }"

text \<open>Reading and writing a range of bytes; \<open>memcpy\<close>, \<open>memset\<close> and the 64-bit accesses
  \<open>*(unative_t *)&p[d]\<close> are built on them. \<open>memcpy\<close> of overlapping ranges is undefined.\<close>

definition read_bytes :: "mem \<Rightarrow> ptr \<Rightarrow> nat \<Rightarrow> nat \<Rightarrow> u8 list option" where
  "read_bytes m p d n = do {
     bs \<leftarrow> bytes_at m p;
     if d + n \<le> length bs then Some (take n (drop d bs)) else None }"

definition write_bytes :: "mem \<Rightarrow> ptr \<Rightarrow> nat \<Rightarrow> u8 list \<Rightarrow> mem option" where
  "write_bytes m p d ys = do {
     bs \<leftarrow> bytes_at m p;
     if d + length ys \<le> length bs then Some (m(p \<mapsto> Bytes (overwrite bs d ys))) else None }"

definition load64 :: "mem \<Rightarrow> ptr \<Rightarrow> nat \<Rightarrow> u64 option" where
  "load64 m p d = map_option word_of_bytes (read_bytes m p d 8)"

definition store64 :: "mem \<Rightarrow> ptr \<Rightarrow> nat \<Rightarrow> u64 \<Rightarrow> mem option" where
  "store64 m p d w = write_bytes m p d (bytes_of_word w)"

definition c_memcpy :: "mem \<Rightarrow> ptr \<Rightarrow> nat \<Rightarrow> ptr \<Rightarrow> nat \<Rightarrow> nat \<Rightarrow> mem option" where
  "c_memcpy m dst d src s n =
     (if dst = src \<and> d < s + n \<and> s < d + n then None else do {
        ys \<leftarrow> read_bytes m src s n;
        write_bytes m dst d ys })"

definition c_memset :: "mem \<Rightarrow> ptr \<Rightarrow> u8 \<Rightarrow> nat \<Rightarrow> mem option" where
  "c_memset m p v n = write_bytes m p 0 (replicate n v)"

text \<open>An \<open>int\<close> loop counter with a value that is not negative, incremented by \<open>k\<close>.\<close>

definition c_incr :: "nat \<Rightarrow> nat \<Rightarrow> nat option" where
  "c_incr d k = (if int d + int k < 2 ^ 31 then Some (d + k) else None)"

text \<open>\<open>free\<close> of a live object; \<open>free(NULL)\<close> does nothing.\<close>

definition c_free :: "mem \<Rightarrow> ptr \<Rightarrow> mem option" where
  "c_free m p = (if p = null then Some m
     else case m p of None \<Rightarrow> None | Some _ \<Rightarrow> Some (m(p := None)))"

section \<open>The abstract view\<close>

definition buf :: "mem \<Rightarrow> ptr \<Rightarrow> u8 list" where
  "buf m p = (case bytes_at m p of Some bs \<Rightarrow> bs | None \<Rightarrow> [])"

text \<open>The bytes at index \<open>i\<close> of the first \<open>k\<close> disks.\<close>

definition column :: "mem \<Rightarrow> ptr list \<Rightarrow> nat \<Rightarrow> nat \<Rightarrow> u8 list" where
  "column m ps k i = map (\<lambda>z. buf m (ps ! z) ! i) [0..<k]"

text \<open>The array at \<open>a\<close> starts with the pointers \<open>ps\<close> of distinct buffers of at least \<open>n\<close>
  bytes; it may have further entries.\<close>

definition stripe :: "mem \<Rightarrow> ptr \<Rightarrow> ptr list \<Rightarrow> nat \<Rightarrow> bool" where
  "stripe m a ps n \<longleftrightarrow> (\<exists>rest. ptrs_at m a = Some (ps @ rest)) \<and> distinct ps \<and>
     (\<forall>p \<in> set ps. case bytes_at m p of Some bs \<Rightarrow> n \<le> length bs | None \<Rightarrow> False)"

section \<open>Lemmas\<close>

lemma bytes_at_upd [simp]:
  "bytes_at (m(p \<mapsto> Bytes bs)) q = (if q = p \<and> p \<noteq> null then Some bs else bytes_at m q)"
  by (auto simp: bytes_at_def obj_at_def)

lemma bytes_at_upd_Ptrs [simp]:
  "bytes_at (m(p \<mapsto> Ptrs ps)) q = (if q = p then None else bytes_at m q)"
  by (auto simp: bytes_at_def obj_at_def)

lemma ptrs_at_upd [simp]:
  "ptrs_at (m(p \<mapsto> Bytes bs)) q = (if q = p then None else ptrs_at m q)"
  by (auto simp: ptrs_at_def obj_at_def)

lemma ptrs_at_upd_Ptrs [simp]:
  "ptrs_at (m(p \<mapsto> Ptrs ps)) q = (if q = p \<and> p \<noteq> null then Some ps else ptrs_at m q)"
  by (auto simp: ptrs_at_def obj_at_def)

lemma ptrs_at_not_bytes: "ptrs_at m a = Some ps \<Longrightarrow> bytes_at m a = None"
  by (auto simp: ptrs_at_def bytes_at_def split: option.splits obj.splits)

lemma bytes_at_not_ptrs: "bytes_at m p = Some bs \<Longrightarrow> ptrs_at m p = None"
  by (auto simp: ptrs_at_def bytes_at_def split: option.splits obj.splits)

lemma bytes_at_SomeD: "bytes_at m p = Some bs \<Longrightarrow> m p = Some (Bytes bs) \<and> p \<noteq> null"
  by (auto simp: bytes_at_def obj_at_def split: option.splits obj.splits if_splits)

lemma buf_upd [simp]:
  "p \<noteq> null \<Longrightarrow> buf (m(p \<mapsto> Bytes bs)) q = (if q = p then bs else buf m q)"
  by (simp add: buf_def)

lemma buf_bytes_at: "bytes_at m p = Some bs \<Longrightarrow> buf m p = bs"
  by (simp add: buf_def)

lemma read_bytes_Some [mem_simps]:
  "bytes_at m p = Some bs \<Longrightarrow> d + n \<le> length bs \<Longrightarrow> read_bytes m p d n = Some (take n (drop d bs))"
  by (simp add: read_bytes_def)

lemma write_bytes_Some [mem_simps]:
  "bytes_at m p = Some bs \<Longrightarrow> d + length ys \<le> length bs \<Longrightarrow>
     write_bytes m p d ys = Some (m(p \<mapsto> Bytes (overwrite bs d ys)))"
  by (simp add: write_bytes_def)

lemma store64_Some [mem_simps]:
  "bytes_at m p = Some bs \<Longrightarrow> d + 8 \<le> length bs \<Longrightarrow>
     store64 m p d w = Some (m(p \<mapsto> Bytes (overwrite bs d (bytes_of_word w))))"
  by (simp add: store64_def mem_simps)

lemma store64_None: "bytes_at m p = Some bs \<Longrightarrow> length bs < d + 8 \<Longrightarrow> store64 m p d w = None"
  by (simp add: store64_def write_bytes_def)

lemma load64_None: "bytes_at m p = Some bs \<Longrightarrow> length bs < d + 8 \<Longrightarrow> load64 m p d = None"
  by (simp add: load64_def read_bytes_def)

lemma load64_lane:
  assumes "bytes_at m p = Some bs" "d + 8 \<le> length bs"
  shows "\<exists>w. load64 m p d = Some w \<and> (\<forall>k < 8. byte_of w k = bs ! (d + k))"
  using assms by (simp add: load64_def mem_simps lane_simps)

text \<open>Loading back a stored word.\<close>

lemma load64_store64:
  assumes "store64 m p d w = Some m'"
  shows "load64 m' p d = Some w"
proof -
  obtain bs where bs: "bytes_at m p = Some bs" "d + 8 \<le> length bs"
    and m': "m' = m(p \<mapsto> Bytes (overwrite bs d (bytes_of_word w)))"
    using assms by (auto simp: store64_def write_bytes_def bind_eq_Some_conv split: if_splits)
  have "bytes_at m' p = Some (overwrite bs d (bytes_of_word w))"
    using bytes_at_SomeD [OF bs(1)] by (simp add: m')
  then show ?thesis
    using bs(2) take_drop_overwrite [of d "bytes_of_word w" bs] by (simp add: load64_def mem_simps)
qed

lemma c_incr_Some [mem_simps]: "d + k < 2 ^ 31 \<Longrightarrow> c_incr d k = Some (d + k)"
  by (simp add: c_incr_def)

lemma length_column [simp]: "length (column m ps k i) = k"
  by (simp add: column_def)

lemma column_Suc: "column m ps (Suc k) i = column m ps k i @ [buf m (ps ! k) ! i]"
  by (simp add: column_def)

lemma column_cong:
  "(\<And>z. z < k \<Longrightarrow> buf m (ps ! z) = buf m' (ps ! z)) \<Longrightarrow> column m ps k i = column m' ps k i"
  by (simp add: column_def)

lemma stripe_ptr_index:
  "stripe m a ps n \<Longrightarrow> 0 \<le> i \<Longrightarrow> nat i < length ps \<Longrightarrow> ptr_index m a i = Some (ps ! nat i)"
  by (auto simp: stripe_def ptr_index_def nth_append)

lemma stripe_bytes_at:
  assumes "stripe m a ps n" "i < length ps"
  shows "bytes_at m (ps ! i) = Some (buf m (ps ! i))" "n \<le> length (buf m (ps ! i))"
    "ps ! i \<noteq> null" "ps ! i \<noteq> a"
  using assms by (auto simp: stripe_def buf_def all_set_conv_all_nth ptrs_at_not_bytes
      dest!: spec [of _ i] dest: bytes_at_SomeD split: option.splits)

lemma stripe_distinct:
  "stripe m a ps n \<Longrightarrow> i < length ps \<Longrightarrow> j < length ps \<Longrightarrow> ps ! i = ps ! j \<longleftrightarrow> i = j"
  by (simp add: stripe_def nth_eq_iff_index_eq)

lemma stripe_upd:
  assumes "stripe m a ps n" "i < length ps" "n \<le> length bs"
  shows "stripe (m(ps ! i \<mapsto> Bytes bs)) a ps n"
  using assms stripe_bytes_at [OF assms(1,2)] by (auto simp: stripe_def)

lemma stripe_mono: "stripe m a ps n \<Longrightarrow> n' \<le> n \<Longrightarrow> stripe m a ps n'"
  by (fastforce simp: stripe_def split: option.splits)

end
