(* ===== verification/Raid6_Spec.thy ===== *)
theory Raid6_Spec
  imports GF256 C_Memory
begin

unbundle bit_operations_syntax

text \<open>
  The contract of a RAID-6 \<open>gen_syndrome\<close> function (type \<open>syndrome_func\<close> of
  \<open>definitions.h\<close>): the last disk but one receives the exclusive or of the data disks, the
  last disk their value as a polynomial at the generator, and nothing else changes. The
  locale \<open>raid6_generator\<close> is the interface the daemon, the validator and the benchmark
  call through their function pointer; its lemma says that any implementation of the
  contract makes the stripe tolerate the loss of any two disks.
\<close>

definition q_byte :: "u8 list \<Rightarrow> u8" where
  "q_byte ds = foldr (\<lambda>d acc. gf_double acc XOR d) ds 0"

definition codeword :: "u8 list \<Rightarrow> u8 list" where
  "codeword ds = ds @ [xor_list ds, q_byte ds]"

text \<open>The columns of the stripe, spread over the memory before and after the call.\<close>

definition raid6_encodes :: "ptr list \<Rightarrow> nat \<Rightarrow> mem \<Rightarrow> mem \<Rightarrow> bool" where
  "raid6_encodes ps n m m' \<longleftrightarrow>
     (let k = length ps - 2; p = ps ! k; q = ps ! (k + 1) in
      \<exists>pb qb. m' = m(p \<mapsto> Bytes pb, q \<mapsto> Bytes qb) \<and>
        length pb = length (buf m p) \<and> length qb = length (buf m q) \<and>
        (\<forall>i < n. pb ! i = xor_list (column m ps k i) \<and> qb ! i = q_byte (column m ps k i)))"

text \<open>A run in progress, or stopped: the bytes of \<open>P\<close> in \<open>S\<close> and of \<open>Q\<close> in \<open>T\<close> have been
  computed, the others are as they were, and nothing else has changed.\<close>

definition encodes_on :: "ptr list \<Rightarrow> nat set \<Rightarrow> nat set \<Rightarrow> mem \<Rightarrow> mem \<Rightarrow> bool" where
  "encodes_on ps S T m m' \<longleftrightarrow>
     (let k = length ps - 2; p = ps ! k; q = ps ! (k + 1) in
      \<exists>pb qb. m' = m(p \<mapsto> Bytes pb, q \<mapsto> Bytes qb) \<and>
        length pb = length (buf m p) \<and> length qb = length (buf m q) \<and>
        (\<forall>i < length pb. pb ! i = (if i \<in> S then xor_list (column m ps k i) else buf m p ! i)) \<and>
        (\<forall>i < length qb. qb ! i = (if i \<in> T then q_byte (column m ps k i) else buf m q ! i)))"

text \<open>The eight bytes of \<open>P\<close> and \<open>Q\<close> at offset \<open>d\<close>, as words.\<close>

definition words_ok :: "mem \<Rightarrow> ptr list \<Rightarrow> nat \<Rightarrow> u64 \<Rightarrow> u64 \<Rightarrow> bool" where
  "words_ok m ps d wp wq \<longleftrightarrow> (\<forall>i < 8.
     byte_of wp i = xor_list (column m ps (length ps - 2) (d + i)) \<and>
     byte_of wq i = q_byte (column m ps (length ps - 2) (d + i)))"

text \<open>Horner's rule with a starting value, as the loops of the code run it.\<close>

definition q_from :: "u8 list \<Rightarrow> u8 \<Rightarrow> u8" where
  "q_from ds b = foldr (\<lambda>d acc. gf_double acc XOR d) ds b"

text \<open>A small stripe for concrete evaluations: two data disks of 16 bytes, \<open>P\<close> and \<open>Q\<close>.\<close>

definition sample_mem :: mem where
  "sample_mem = [1 \<mapsto> Ptrs [2, 3, 4, 5],
     2 \<mapsto> Bytes [1, 2, 3, 4, 5, 6, 7, 8, 9, 10, 11, 12, 13, 14, 15, 16],
     3 \<mapsto> Bytes [0x80, 0xff, 0, 0, 1, 2, 4, 8, 16, 32, 64, 128, 3, 3, 3, 3],
     4 \<mapsto> Bytes (replicate 16 0), 5 \<mapsto> Bytes (replicate 16 0)]"

lemma sample_stripe: "n \<le> 16 \<Longrightarrow> stripe sample_mem 1 [2, 3, 4, 5] n"
  by (simp add: stripe_def sample_mem_def ptrs_at_def bytes_at_def obj_at_def)

definition sample_mem2 :: mem where
  "sample_mem2 = sample_mem(2 \<mapsto> Bytes (1 # replicate 15 77))"

lemma sample_stripe2: "n \<le> 16 \<Longrightarrow> stripe sample_mem2 1 [2, 3, 4, 5] n"
  by (simp add: stripe_def sample_mem2_def sample_mem_def ptrs_at_def bytes_at_def obj_at_def)

section \<open>The code\<close>

lemma xor_list_append [simp]: "xor_list (xs @ ys) = xor_list xs XOR xor_list ys"
  by (induction xs) (simp_all add: xor.assoc)

lemma xor_list_map_xor:
  "xor_list (map (\<lambda>i. f i XOR g i) xs) = xor_list (map f xs) XOR xor_list (map g xs)"
  by (induction xs) (simp_all add: ac_simps)

lemma xor_list_zero: "(\<And>x. x \<in> set xs \<Longrightarrow> x = 0) \<Longrightarrow> xor_list xs = 0"
  by (induction xs) simp_all

lemma gf_double_xor_list: "gf_double (xor_list xs) = xor_list (map gf_double xs)"
  by (induction xs) (simp_all add: gf_double_xor)

text \<open>The Horner scheme of the code is the weighted sum of the data bytes.\<close>

lemma q_byte_sum: "q_byte ds = xor_list (map (\<lambda>z. (gf_double ^^ z) (ds ! z)) [0..<length ds])"
proof (induction ds)
  case Nil
  then show ?case by (simp add: q_byte_def)
next
  case (Cons d ds)
  have upt: "[0..<length (d # ds)] = 0 # map Suc [0..<length ds]"
    by (metis length_Cons map_Suc_upt upt_conv_Cons zero_less_Suc)
  have "q_byte (d # ds) = gf_double (q_byte ds) XOR d" by (simp add: q_byte_def)
  then show ?case
    unfolding upt Cons by (simp add: gf_double_xor_list o_def xor.commute)
qed

lemma xor_list_one:
  assumes "x < n" "\<And>i. i < n \<Longrightarrow> i \<noteq> x \<Longrightarrow> f i = 0"
  shows "xor_list (map f [0..<n]) = f x"
proof -
  have "[0..<n] = [0..<x] @ x # [Suc x..<n]"
    using assms(1) by (metis less_imp_add_positive upt_add_eq_append upt_conv_Cons zero_le)
  moreover have "xor_list (map f [0..<x]) = 0" "xor_list (map f [Suc x..<n]) = 0"
    using assms by (auto intro!: xor_list_zero)
  ultimately show ?thesis by simp
qed

lemma xor_list_two:
  assumes "x < y" "y < n" "\<And>i. i < n \<Longrightarrow> i \<noteq> x \<Longrightarrow> i \<noteq> y \<Longrightarrow> f i = 0"
  shows "xor_list (map f [0..<n]) = f x XOR f y"
proof -
  have "[0..<n] = [0..<y] @ y # [Suc y..<n]"
    using assms(2) by (metis less_imp_add_positive upt_add_eq_append upt_conv_Cons zero_le)
  moreover have "xor_list (map f [0..<y]) = f x" using assms by (intro xor_list_one) auto
  moreover have "xor_list (map f [Suc y..<n]) = 0" using assms by (auto intro!: xor_list_zero)
  ultimately show ?thesis by simp
qed

text \<open>The difference of two columns, and what equal parities say about it.\<close>

lemma parity_diff:
  assumes "length ds = length es" "xor_list ds = xor_list es"
  shows "xor_list (map (\<lambda>z. ds ! z XOR es ! z) [0..<length ds]) = 0"
proof -
  have "xor_list (map (\<lambda>z. ds ! z XOR es ! z) [0..<length ds]) = xor_list ds XOR xor_list es"
    unfolding xor_list_map_xor using assms(1) map_nth [of ds] map_nth [of es] by simp
  then show ?thesis using assms(2) by simp
qed

lemma syndrome_diff:
  assumes "length ds = length es" "q_byte ds = q_byte es"
  shows "xor_list (map (\<lambda>z. (gf_double ^^ z) (ds ! z XOR es ! z)) [0..<length ds]) = 0"
  using assms by (simp add: gf_double_pow_xor xor_list_map_xor q_byte_sum)

text \<open>Two data columns that differ in at most two places, with equal parities, are equal.\<close>

lemma two_erasures:
  assumes len: "length ds = length es" "length ds \<le> 255"
    and pq: "xor_list ds = xor_list es" "q_byte ds = q_byte es"
    and xy: "x < y" "y < length ds" "\<And>i. i < length ds \<Longrightarrow> i \<noteq> x \<Longrightarrow> i \<noteq> y \<Longrightarrow> ds ! i = es ! i"
  shows "ds = es"
proof -
  define e where "e i = ds ! i XOR es ! i" for i
  have out: "e i = 0" if "i < length ds" "i \<noteq> x" "i \<noteq> y" for i
    using xy(3) [OF that] by (simp add: e_def)
  have "xor_list (map e [0..<length ds]) = 0"
    using parity_diff [OF len(1) pq(1)] by (simp add: e_def [abs_def])
  then have "e x XOR e y = 0" using xor_list_two [OF xy(1,2), of e] out by simp
  then have exy: "e x = e y" by (simp add: xor_eq_0_iff)
  have "xor_list (map (\<lambda>z. (gf_double ^^ z) (e z)) [0..<length ds]) = 0"
    using syndrome_diff [OF len(1) pq(2)] by (simp add: e_def)
  then have "(gf_double ^^ x) (e x) XOR (gf_double ^^ y) (e y) = 0"
    using xor_list_two [OF xy(1,2), of "\<lambda>z. (gf_double ^^ z) (e z)"] out by simp
  then have "(gf_double ^^ x) (e x) = (gf_double ^^ (x + (y - x))) (e x)"
    using exy xy(1) by (simp add: xor_eq_0_iff)
  then have "(gf_double ^^ (y - x)) (e x) = e x" unfolding funpow_add o_apply by simp
  then have "e x = 0" using xy(1,2) len(2) by (intro gf_double_pow_fixpoint [of "y - x"]) auto
  then have "e i = 0" if "i < length ds" for i
    using out [OF that] exy by (cases "i = x \<or> i = y") auto
  then show ?thesis using len(1) by (intro nth_equalityI) (simp_all add: e_def xor_eq_0_iff)
qed

lemma one_erasure_q:
  assumes len: "length ds = length es" and q: "q_byte ds = q_byte es"
    and x: "x < length ds" "\<And>i. i < length ds \<Longrightarrow> i \<noteq> x \<Longrightarrow> ds ! i = es ! i"
  shows "ds = es"
proof -
  have "(gf_double ^^ x) (ds ! x XOR es ! x) = 0"
    using syndrome_diff [OF len q] xor_list_one [OF x(1), of "\<lambda>z. (gf_double ^^ z) (ds ! z XOR es ! z)"]
      x(2) by simp
  then have "ds ! x XOR es ! x = 0"
    using gf_double_pow_inject [of x _ 0] by simp
  then show ?thesis using len x(2) by (intro nth_equalityI) (auto simp: xor_eq_0_iff)
qed

lemma one_erasure_p:
  assumes len: "length ds = length es" and p: "xor_list ds = xor_list es"
    and x: "x < length ds" "\<And>i. i < length ds \<Longrightarrow> i \<noteq> x \<Longrightarrow> ds ! i = es ! i"
  shows "ds = es"
proof -
  have "ds ! x XOR es ! x = 0"
    using parity_diff [OF len p] xor_list_one [OF x(1), of "\<lambda>z. ds ! z XOR es ! z"] x(2) by simp
  then show ?thesis using len x(2) by (intro nth_equalityI) (auto simp: xor_eq_0_iff)
qed

text \<open>The code has distance three: two codewords that agree outside two positions, be they
  data or parity, are equal.\<close>

lemma codeword_nth:
  "i < length ds \<Longrightarrow> codeword ds ! i = ds ! i"
  "codeword ds ! length ds = xor_list ds" "codeword ds ! Suc (length ds) = q_byte ds"
  by (simp_all add: codeword_def nth_append)

lemma codeword_distance:
  assumes len: "length ds = length es" "length ds \<le> 255"
    and xy: "x < y" "y < length ds + 2"
    and eq: "\<And>i. i < length ds + 2 \<Longrightarrow> i \<noteq> x \<Longrightarrow> i \<noteq> y \<Longrightarrow> codeword ds ! i = codeword es ! i"
  shows "ds = es"
proof -
  have data: "ds ! i = es ! i" if "i < length ds" "i \<noteq> x" "i \<noteq> y" for i
    using eq [of i] that len(1) by (simp add: codeword_nth)
  have p: "xor_list ds = xor_list es" if "x \<noteq> length ds" "y \<noteq> length ds"
    using eq [of "length ds"] that codeword_nth(2) [of ds] codeword_nth(2) [of es] len(1) by simp
  have q: "q_byte ds = q_byte es" if "y \<noteq> Suc (length ds)"
    using eq [of "Suc (length ds)"] that xy codeword_nth(3) [of ds] codeword_nth(3) [of es] len(1)
    by simp
  consider "y < length ds" | "y = length ds" | "y = Suc (length ds)" "x < length ds"
    | "y = Suc (length ds)" "x = length ds"
    using xy by linarith
  then show ?thesis
  proof cases
    case 1
    then show ?thesis using two_erasures [OF len _ _ xy(1)] p q data xy by simp
  next
    case 2
    then show ?thesis using one_erasure_q [OF len(1) _ _ data] q xy by simp
  next
    case 3
    then show ?thesis using one_erasure_p [OF len(1) _ _ data] p by simp
  next
    case 4
    then show ?thesis using data len(1) by (intro nth_equalityI) simp_all
  qed
qed

section \<open>The contract on a stripe in memory\<close>

lemma raid6_encodes_buf:
  assumes st: "stripe m a ps n" and enc: "raid6_encodes ps n m m'" and z: "z < length ps - 2"
  shows "buf m' (ps ! z) = buf m (ps ! z)"
proof -
  have ne: "ps ! z \<noteq> ps ! (length ps - 2)" "ps ! z \<noteq> ps ! (length ps - 2 + 1)"
    using stripe_distinct [OF st] z by simp_all
  have "ps ! (length ps - 2) \<noteq> null" "ps ! (length ps - 2 + 1) \<noteq> null"
    using stripe_bytes_at(3) [OF st] z by simp_all
  then show ?thesis using enc ne by (auto simp: raid6_encodes_def Let_def)
qed

lemma raid6_encodes_column:
  assumes st: "stripe m a ps n" and enc: "raid6_encodes ps n m m'"
    and len: "3 \<le> length ps" and i: "i < n"
  shows "column m' ps (length ps) i = codeword (column m ps (length ps - 2) i)"
proof -
  let ?k = "length ps - 2"
  have k: "length ps = Suc (Suc ?k)" using len by simp
  have nn: "ps ! ?k \<noteq> null" "ps ! (?k + 1) \<noteq> null" "ps ! ?k \<noteq> ps ! (?k + 1)"
    using stripe_bytes_at(3) [OF st] stripe_distinct [OF st, of ?k "?k + 1"] len by simp_all
  have pq: "buf m' (ps ! ?k) ! i = xor_list (column m ps ?k i)"
    "buf m' (ps ! (?k + 1)) ! i = q_byte (column m ps ?k i)"
    using enc nn i by (auto simp: raid6_encodes_def Let_def)
  have "column m' ps ?k i = column m ps ?k i"
    using raid6_encodes_buf [OF st enc] by (intro column_cong) simp
  moreover have "column m' ps (Suc (Suc ?k)) i =
      column m' ps ?k i @ [buf m' (ps ! ?k) ! i, buf m' (ps ! (?k + 1)) ! i]"
    by (simp add: column_def)
  ultimately show ?thesis unfolding k [symmetric] codeword_def using pq by simp
qed

lemma raid6_encodes_stripe:
  assumes st: "stripe m a ps n'" and enc: "raid6_encodes ps n m m'" and len: "3 \<le> length ps"
  shows "stripe m' a ps n'"
proof -
  let ?k = "length ps - 2"
  obtain pb qb where m': "m' = m(ps ! ?k \<mapsto> Bytes pb, ps ! (?k + 1) \<mapsto> Bytes qb)"
    and l: "length pb = length (buf m (ps ! ?k))" "length qb = length (buf m (ps ! (?k + 1)))"
    using enc by (auto simp: raid6_encodes_def Let_def)
  show ?thesis
    unfolding m' using st len l stripe_bytes_at(2) [OF st] by (intro stripe_upd) simp_all
qed

text \<open>The syndrome as a sum of products in the field.\<close>

lemma q_byte_products: "q_byte (map f [0..<k]) = xor_list (map (\<lambda>z. gf_mul (gf_exp z) (f z)) [0..<k])"
proof -
  have "(gf_double ^^ z) (f z) = gf_mul (gf_exp z) (f z)" for z
    by (metis gf_mul_commute gf_mul_exp_right)
  then show ?thesis unfolding q_byte_sum by (auto intro!: arg_cong [where f = xor_list])
qed

lemma raid6_encodes_q:
  assumes st: "stripe m a ps n" and enc: "raid6_encodes ps b m m'" and len: "3 \<le> length ps"
    and i: "i < b"
  shows "buf m' (ps ! (length ps - 1)) ! i =
    xor_list (map (\<lambda>z. gf_mul (gf_exp z) (buf m (ps ! z) ! i)) [0..<length ps - 2])"
proof -
  have q: "length ps - 1 = length ps - 2 + 1" using len by simp
  have "ps ! (length ps - 2 + 1) \<noteq> null" using stripe_bytes_at(3) [OF st] len by simp
  then have "buf m' (ps ! (length ps - 2 + 1)) ! i = q_byte (column m ps (length ps - 2) i)"
    using enc i by (auto simp: raid6_encodes_def Let_def)
  then show ?thesis unfolding q column_def q_byte_products .
qed

subsection \<open>Runs in progress\<close>

lemma q_byte_from: "q_byte (ds @ [d]) = q_from ds d"
  by (simp add: q_byte_def q_from_def)

lemma encodes_on_refl:
  assumes "stripe m a ps n" "3 \<le> length ps"
  shows "encodes_on ps {} {} m m"
proof -
  have p: "m (ps ! i) = Some (Bytes (buf m (ps ! i)))" if "i < length ps" for i
    using bytes_at_SomeD [OF stripe_bytes_at(1) [OF assms(1) that]] by simp
  have "m = m(ps ! (length ps - 2) \<mapsto> Bytes (buf m (ps ! (length ps - 2))),
      ps ! (length ps - 2 + 1) \<mapsto> Bytes (buf m (ps ! (length ps - 2 + 1))))"
    using p [of "length ps - 2"] p [of "length ps - 2 + 1"] assms(2) by (simp add: fun_upd_idem)
  then show ?thesis unfolding encodes_on_def Let_def by auto
qed

lemma encodes_on_raid6:
  assumes st: "stripe m a ps n" and enc: "encodes_on ps S T m m'" and len: "3 \<le> length ps"
    and sub: "{..<b} \<subseteq> S" "{..<b} \<subseteq> T" "b \<le> n"
  shows "raid6_encodes ps b m m'"
proof -
  have "b \<le> length (buf m (ps ! (length ps - 2)))" "b \<le> length (buf m (ps ! (length ps - 2 + 1)))"
    using stripe_bytes_at(2) [OF stripe_mono [OF st sub(3)]] len by simp_all
  moreover have "i \<in> S" "i \<in> T" if "i < b" for i using sub that by auto
  ultimately show ?thesis
    using enc unfolding encodes_on_def raid6_encodes_def Let_def
    by (elim exE conjE) (intro exI conjI, assumption, simp_all)
qed

lemma encodes_on_unique:
  assumes "encodes_on ps S T m m1" "encodes_on ps S T m m2"
  shows "m1 = m2"
proof -
  let ?p = "ps ! (length ps - 2)" and ?q = "ps ! (length ps - 2 + 1)"
  obtain pb qb where 1: "m1 = m(?p \<mapsto> Bytes pb, ?q \<mapsto> Bytes qb)" "length pb = length (buf m ?p)"
    "length qb = length (buf m ?q)"
    "\<forall>i < length pb. pb ! i = (if i \<in> S then xor_list (column m ps (length ps - 2) i) else buf m ?p ! i)"
    "\<forall>i < length qb. qb ! i = (if i \<in> T then q_byte (column m ps (length ps - 2) i) else buf m ?q ! i)"
    using assms(1) unfolding encodes_on_def Let_def by blast
  obtain pb' qb' where 2: "m2 = m(?p \<mapsto> Bytes pb', ?q \<mapsto> Bytes qb')" "length pb' = length (buf m ?p)"
    "length qb' = length (buf m ?q)"
    "\<forall>i < length pb'. pb' ! i = (if i \<in> S then xor_list (column m ps (length ps - 2) i) else buf m ?p ! i)"
    "\<forall>i < length qb'. qb' ! i = (if i \<in> T then q_byte (column m ps (length ps - 2) i) else buf m ?q ! i)"
    using assms(2) unfolding encodes_on_def Let_def by blast
  have "pb = pb'" using 1(2,4) 2(2,4) by (intro nth_equalityI) simp_all
  moreover have "qb = qb'" using 1(3,5) 2(3,5) by (intro nth_equalityI) simp_all
  ultimately show ?thesis using 1(1) 2(1) by simp
qed

lemma encodes_on_0:
  "stripe m a ps n \<Longrightarrow> encodes_on ps S T m m' \<Longrightarrow> 3 \<le> length ps \<Longrightarrow> raid6_encodes ps 0 m m'"
  by (rule encodes_on_raid6) simp_all

lemma encodes_on_stripe:
  assumes "stripe m a ps n" "encodes_on ps S T m m'" "3 \<le> length ps"
  shows "stripe m' a ps n"
  by (rule raid6_encodes_stripe [OF assms(1) encodes_on_0 [OF assms] assms(3)])

lemma encodes_on_column:
  assumes "stripe m a ps n" "encodes_on ps S T m m'" "3 \<le> length ps"
  shows "column m' ps (length ps - 2) i = column m ps (length ps - 2) i"
  using raid6_encodes_buf [OF stripe_mono [OF assms(1)] encodes_on_0 [OF assms]]
  by (intro column_cong) simp

lemma encodes_on_data:
  assumes "stripe m a ps n" "encodes_on ps S T m m'" "3 \<le> length ps" "z < length ps - 2"
  shows "load64 m' (ps ! z) d = load64 m (ps ! z) d"
proof -
  have "buf m' (ps ! z) = buf m (ps ! z)"
    using raid6_encodes_buf [OF stripe_mono [OF assms(1)] encodes_on_0 [OF assms(1-3)] assms(4)] by simp
  moreover have "bytes_at m' (ps ! z) = Some (buf m' (ps ! z))" "bytes_at m (ps ! z) = Some (buf m (ps ! z))"
    using stripe_bytes_at(1) [OF encodes_on_stripe [OF assms(1-3)]] stripe_bytes_at(1) [OF assms(1)]
      assms(4) by simp_all
  ultimately show ?thesis by (simp add: load64_def read_bytes_def)
qed

text \<open>Storing a correct word into \<open>P\<close> or \<open>Q\<close> extends the computed range.\<close>

lemma nth_overwrite_word:
  assumes "d + 8 \<le> length bs" "i < length bs" "\<And>j. j < 8 \<Longrightarrow> byte_of w j = f (d + j)"
  shows "overwrite bs d (bytes_of_word w) ! i = (if i \<in> {d..<d + 8} then f i else bs ! i)"
  using assms by (auto simp: nth_overwrite lane_simps)

lemma encodes_on_store_p:
  assumes st: "stripe m a ps n" and enc: "encodes_on ps S T m m'" and len: "3 \<le> length ps"
    and d: "d + 8 \<le> n"
    and w: "words_ok m ps d w w'"
  shows "\<exists>m''. store64 m' (ps ! (length ps - 2)) d w = Some m'' \<and>
    encodes_on ps (S \<union> {d..<d + 8}) T m m''"
proof -
  let ?k = "length ps - 2" let ?p = "ps ! ?k" and ?q = "ps ! (?k + 1)"
  obtain pb qb where m': "m' = m(?p \<mapsto> Bytes pb, ?q \<mapsto> Bytes qb)"
    and l: "length pb = length (buf m ?p)" "length qb = length (buf m ?q)"
    and pb: "\<And>i. i < length pb \<Longrightarrow> pb ! i = (if i \<in> S then xor_list (column m ps ?k i) else buf m ?p ! i)"
    and qb: "\<And>i. i < length qb \<Longrightarrow> qb ! i = (if i \<in> T then q_byte (column m ps ?k i) else buf m ?q ! i)"
    using enc unfolding encodes_on_def Let_def by blast
  have ne: "?p \<noteq> ?q" "?p \<noteq> null" "?q \<noteq> null"
    using stripe_distinct [OF st, of ?k "?k + 1"] stripe_bytes_at(3) [OF st] len by simp_all
  have dl: "d + 8 \<le> length pb" using stripe_bytes_at(2) [OF st, of ?k] d l(1) len by force
  let ?pb = "overwrite pb d (bytes_of_word w)"
  have "bytes_at m' ?p = Some pb" using ne by (simp add: m')
  then have "store64 m' ?p d w = Some (m(?p \<mapsto> Bytes ?pb, ?q \<mapsto> Bytes qb))"
    using dl ne(1) by (simp add: mem_simps m' fun_upd_twist)
  moreover have "?pb ! i = (if i \<in> S \<union> {d..<d + 8} then xor_list (column m ps ?k i) else buf m ?p ! i)"
    if "i < length pb" for i
    using nth_overwrite_word [where f = "\<lambda>i. xor_list (column m ps ?k i)", OF dl that] w pb [OF that]
    by (auto simp: words_ok_def)
  ultimately show ?thesis
    unfolding encodes_on_def Let_def using l dl qb
    by (intro exI [of _ "m(?p \<mapsto> Bytes ?pb, ?q \<mapsto> Bytes qb)"] conjI exI [of _ ?pb] exI [of _ qb]) simp_all
qed

lemma encodes_on_store_q:
  assumes st: "stripe m a ps n" and enc: "encodes_on ps S T m m'" and len: "3 \<le> length ps"
    and d: "d + 8 \<le> n"
    and w: "words_ok m ps d w' w"
  shows "\<exists>m''. store64 m' (ps ! (length ps - 1)) d w = Some m'' \<and>
    encodes_on ps S (T \<union> {d..<d + 8}) m m''"
proof -
  let ?k = "length ps - 2" let ?p = "ps ! ?k" and ?q = "ps ! (?k + 1)"
  have q: "length ps - 1 = ?k + 1" using len by simp
  obtain pb qb where m': "m' = m(?p \<mapsto> Bytes pb, ?q \<mapsto> Bytes qb)"
    and l: "length pb = length (buf m ?p)" "length qb = length (buf m ?q)"
    and pb: "\<And>i. i < length pb \<Longrightarrow> pb ! i = (if i \<in> S then xor_list (column m ps ?k i) else buf m ?p ! i)"
    and qb: "\<And>i. i < length qb \<Longrightarrow> qb ! i = (if i \<in> T then q_byte (column m ps ?k i) else buf m ?q ! i)"
    using enc unfolding encodes_on_def Let_def by blast
  have ne: "?q \<noteq> null" using stripe_bytes_at(3) [OF st] len by simp
  have dl: "d + 8 \<le> length qb" using stripe_bytes_at(2) [OF st, of "?k + 1"] d l(2) len by force
  let ?qb = "overwrite qb d (bytes_of_word w)"
  have "bytes_at m' ?q = Some qb" using ne by (simp add: m')
  then have "store64 m' ?q d w = Some (m(?p \<mapsto> Bytes pb, ?q \<mapsto> Bytes ?qb))"
    using dl by (simp add: mem_simps m')
  moreover have "?qb ! i = (if i \<in> T \<union> {d..<d + 8} then q_byte (column m ps ?k i) else buf m ?q ! i)"
    if "i < length qb" for i
    using nth_overwrite_word [where f = "\<lambda>i. q_byte (column m ps ?k i)", OF dl that] w qb [OF that]
    by (auto simp: words_ok_def)
  ultimately show ?thesis
    unfolding encodes_on_def Let_def q using l dl pb
    by (intro exI [of _ "m(?p \<mapsto> Bytes pb, ?q \<mapsto> Bytes ?qb)"] conjI exI [of _ pb] exI [of _ ?qb]) simp_all
qed

text \<open>
  The interface. \<open>gen disks bytes ptrs m\<close> is an implementation of \<open>syndrome_func\<close>;
  \<open>need bytes\<close> is the buffer length it may touch when asked for \<open>bytes\<close>, and \<open>ok\<close> the
  byte counts it supports.
\<close>

locale raid6_generator =
  fixes gen :: "int \<Rightarrow> nat \<Rightarrow> ptr \<Rightarrow> mem \<Rightarrow> mem option"
    and need :: "nat \<Rightarrow> nat"
    and ok :: "nat \<Rightarrow> bool"
  assumes need_ge: "bytes \<le> need bytes"
    and gen_encodes: "stripe m a ps (need bytes) \<Longrightarrow> 3 \<le> length ps \<Longrightarrow> length ps < 2 ^ 31 \<Longrightarrow> ok bytes \<Longrightarrow>
      \<exists>m'. gen (int (length ps)) bytes a m = Some m' \<and> raid6_encodes ps bytes m m'"
begin

lemma gen_column:
  assumes "stripe m a ps (need bytes)" "3 \<le> length ps" "length ps < 2 ^ 31" "ok bytes"
    and "gen (int (length ps)) bytes a m = Some m'" "i < bytes"
  shows "column m' ps (length ps) i = codeword (column m ps (length ps - 2) i)"
  using gen_encodes [OF assms(1-4)] assms
    raid6_encodes_column [OF stripe_mono [OF assms(1) need_ge]] by auto

lemma gen_data_unchanged:
  assumes "stripe m a ps (need bytes)" "3 \<le> length ps" "length ps < 2 ^ 31" "ok bytes"
    and "gen (int (length ps)) bytes a m = Some m'" "z < length ps - 2"
  shows "buf m' (ps ! z) = buf m (ps ! z)"
  using gen_encodes [OF assms(1-4)] assms
    raid6_encodes_buf [OF stripe_mono [OF assms(1) need_ge]] by auto

text \<open>Two stripes written by the generator that agree on all disks but two agree on all:
  any two lost disks are determined by the others.\<close>

lemma two_disks_determined:
  assumes s: "stripe m a ps (need bytes)" "gen (int (length ps)) bytes a m = Some m'"
    and t: "stripe n b qs (need bytes)" "gen (int (length ps)) bytes b n = Some n'"
    and len: "length qs = length ps" "3 \<le> length ps" "length ps \<le> 257" "ok bytes" "i < bytes"
    and xy: "x < y" "y < length ps"
    and eq: "\<And>z. z < length ps \<Longrightarrow> z \<noteq> x \<Longrightarrow> z \<noteq> y \<Longrightarrow> buf m' (ps ! z) ! i = buf n' (qs ! z) ! i"
  shows "column m' ps (length ps) i = column n' qs (length ps) i"
proof -
  let ?ds = "column m ps (length ps - 2) i" and ?es = "column n qs (length ps - 2) i"
  have l: "length ps < 2 ^ 31" using len(3) by simp
  have c: "column m' ps (length ps) i = codeword ?ds" "column n' qs (length ps) i = codeword ?es"
    using gen_column [OF s(1) len(2) l len(4) s(2) len(5)]
      gen_column [of n b qs, OF t(1) _ _ len(4) _ len(5)] t(2) l len by simp_all
  have "codeword ?ds ! z = codeword ?es ! z" if "z < length ps" "z \<noteq> x" "z \<noteq> y" for z
    using eq [OF that] c [symmetric] that(1) by (simp add: column_def)
  then have "?ds = ?es" using xy len by (intro codeword_distance [of _ _ x y]) simp_all
  then show ?thesis using c by simp
qed

text \<open>Encoding an encoded stripe again leaves every byte of it as it is.\<close>

lemma gen_again:
  assumes s: "stripe m a ps (need bytes)" "3 \<le> length ps" "length ps < 2 ^ 31" "ok bytes"
    and g: "gen (int (length ps)) bytes a m = Some m'"
  shows "\<exists>m''. gen (int (length ps)) bytes a m' = Some m'' \<and>
    (\<forall>i < bytes. column m'' ps (length ps) i = column m' ps (length ps) i)"
proof -
  have enc: "raid6_encodes ps bytes m m'" using gen_encodes [OF s] g by auto
  have s': "stripe m' a ps (need bytes)" by (rule raid6_encodes_stripe [OF s(1) enc s(2)])
  obtain m'' where m'': "gen (int (length ps)) bytes a m' = Some m''"
    using gen_encodes [OF s' s(2-4)] by auto
  have "column m' ps (length ps - 2) i = column m ps (length ps - 2) i" for i
    using gen_data_unchanged [OF s g] by (intro column_cong) simp
  then show ?thesis
    using gen_column [OF s g] gen_column [OF s' s(2-4) m''] m'' by simp
qed

end

end
