(* ===== verification/Dummy.thy ===== *)
theory Dummy
  imports Raid6_Spec
begin

unbundle bit_operations_syntax

text \<open>
  The dummy encoder of \<open>dummy/raid6dummy.cu\<close>, which measures the driver without a code: it
  copies the first disk over the last two.
\<close>

definition raid6_dummy_gen_syndrome :: "int \<Rightarrow> nat \<Rightarrow> ptr \<Rightarrow> mem \<Rightarrow> mem option" where
  "raid6_dummy_gen_syndrome disks bytes ptrs m = do {
     i \<leftarrow> c_int (disks - 1);
     q \<leftarrow> ptr_index m ptrs i;
     d0 \<leftarrow> ptr_index m ptrs 0;
     m \<leftarrow> c_memcpy m q 0 d0 0 bytes;
     i \<leftarrow> c_int (disks - 2);
     p \<leftarrow> ptr_index m ptrs i;
     d0 \<leftarrow> ptr_index m ptrs 0;
     c_memcpy m p 0 d0 0 bytes }"

lemma memcpy_stripe:
  assumes st: "stripe m a ps n" and ij: "i < length ps" "j < length ps" "i \<noteq> j"
  shows "c_memcpy m (ps ! i) 0 (ps ! j) 0 n =
    Some (m(ps ! i \<mapsto> Bytes (take n (buf m (ps ! j)) @ drop n (buf m (ps ! i)))))"
proof -
  have "ps ! i \<noteq> ps ! j" using stripe_distinct [OF st ij(1,2)] ij(3) by simp
  moreover have "read_bytes m (ps ! j) 0 n = Some (take n (buf m (ps ! j)))"
    using stripe_bytes_at [OF st ij(2)] by (simp add: mem_simps)
  moreover have "length (take n (buf m (ps ! j))) = n" using stripe_bytes_at(2) [OF st ij(2)] by simp
  ultimately show ?thesis
    using stripe_bytes_at [OF st ij(1)] by (simp add: c_memcpy_def mem_simps overwrite_def)
qed

text \<open>The memory after the two copies.\<close>

lemma dummy_memory:
  assumes st: "stripe m a ps bytes" and len: "3 \<le> length ps" "length ps < 2 ^ 31"
  shows "raid6_dummy_gen_syndrome (int (length ps)) bytes a m = Some (m(
    ps ! (length ps - 1) \<mapsto> Bytes (take bytes (buf m (ps ! 0)) @ drop bytes (buf m (ps ! (length ps - 1)))),
    ps ! (length ps - 2) \<mapsto> Bytes (take bytes (buf m (ps ! 0)) @ drop bytes (buf m (ps ! (length ps - 2))))))"
proof -
  let ?q = "length ps - 1" and ?p = "length ps - 2"
  have q: "?q < length ps" "?q \<noteq> 0" and p: "?p < length ps" "?p \<noteq> 0" and z: "0 < length ps" and pq: "?p \<noteq> ?q"
    using len by linarith+
  have i: "int (length ps) - 1 = int ?q" "int (length ps) - 2 = int ?p" using len by linarith+
  have ix: "ptr_index m a (int e) = Some (ps ! e)" if "stripe m a ps bytes" "e < length ps" for m e
    using stripe_ptr_index [OF that(1), of "int e"] that(2) by simp
  let ?m1 = "m(ps ! ?q \<mapsto> Bytes (take bytes (buf m (ps ! 0)) @ drop bytes (buf m (ps ! ?q))))"
  have st1: "stripe ?m1 a ps bytes"
    using stripe_upd [OF st q(1)] stripe_bytes_at(2) [OF st] q(1) z by simp
  have nn: "ps ! ?q \<noteq> null" using stripe_bytes_at(3) [OF st q(1)] .
  have "ps ! 0 \<noteq> ps ! ?q" "ps ! ?p \<noteq> ps ! ?q"
    using stripe_distinct [OF st _ q(1)] q z p pq by auto
  then have b: "buf ?m1 (ps ! 0) = buf m (ps ! 0)" "buf ?m1 (ps ! ?p) = buf m (ps ! ?p)"
    using nn by simp_all
  have c: "c_int (int (length ps) - 1) = Some (int ?q)" "c_int (int (length ps) - 2) = Some (int ?p)"
    unfolding i using len by simp_all
  show ?thesis
    using ix [OF st q(1)] ix [OF st z] ix [OF st1 p(1)] ix [OF st1 z]
      memcpy_stripe [OF st q(1) z q(2)] memcpy_stripe [OF st1 p(1) z p(2)]
    unfolding raid6_dummy_gen_syndrome_def c b by simp
qed

section \<open>Properties\<close>

text \<open>The dummy encoder leaves the first \<open>bytes\<close> bytes of the first disk in the last two disks
  and changes nothing else.\<close>

theorem dummy_copies_first_disk:
  assumes st: "stripe m a ps bytes" and len: "3 \<le> length ps" "length ps < 2 ^ 31"
  shows "raid6_dummy_gen_syndrome (int (length ps)) bytes a m = Some (m(
    ps ! (length ps - 1) \<mapsto> Bytes (take bytes (buf m (ps ! 0)) @ drop bytes (buf m (ps ! (length ps - 1)))),
    ps ! (length ps - 2) \<mapsto> Bytes (take bytes (buf m (ps ! 0)) @ drop bytes (buf m (ps ! (length ps - 2))))))"
  by (rule dummy_memory [OF assms])

theorem dummy_copies_first_disk_witness:
  "\<exists>m'. raid6_dummy_gen_syndrome 4 16 1 sample_mem = Some m' \<and> buf m' 4 = buf sample_mem 2 \<and>
     buf m' 5 = buf sample_mem 2"
proof -
  have "length (buf sample_mem p) = 16" if "p \<in> {2, 4, 5}" for p
    using that by (auto simp: buf_def bytes_at_def obj_at_def sample_mem_def)
  then show ?thesis
    using dummy_copies_first_disk [OF sample_stripe [of 16]] by simp
qed

end
