(* ===== verification/MultRS.thy ===== *)
theory MultRS
  imports Raid6_Spec
begin

unbundle bit_operations_syntax

text \<open>
  The multi-failure encoder of \<open>multrs/raid6multrs.cu\<close> in its CPU version: the logarithm
  tables \<open>gflog\<close> and \<open>gfilog\<close>, the table-driven product \<open>mult_gf\<close> and the three nested loops
  of \<open>multi_rs_soft_gen_syndrome\<close>, which writes four check disks. Reading a table outside its
  bounds is \<^term>\<open>None\<close>.

  The lemmas measure the tables and the product against the field of \<open>GF256\<close>: the tables are
  right where they are defined, the product is the field product exactly when the logarithms
  add up to at most 255 and is short by one doubling otherwise; the loops compute the rows of
  the code with whatever the product is.
\<close>

definition CHECK_SYMBOLS :: nat where
  "CHECK_SYMBOLS = 4"

definition gflog :: "u8 list" where
  "gflog = [
   0, 0, 1, 25, 2, 50, 26, 198, 3, 223, 51, 238, 27, 104, 199, 75, 4, 100, 224, 14, 52, 141,
    239, 129, 28, 193, 105, 248, 200, 8, 76, 113, 5, 138, 101, 47, 225, 36, 15, 33, 53, 147,
    142, 218, 240, 18, 130, 69, 29, 181, 194, 125, 106, 39, 249, 185, 201, 154, 9, 120, 77,
    228, 114, 166, 6, 191, 139, 98, 102, 221, 48, 253, 226, 152, 37, 179, 16, 145, 34, 136, 54,
    208, 148, 206, 143, 150, 219, 189, 241, 210, 19, 92, 131, 56, 70, 64, 30, 66, 182, 163,
    195, 72, 126, 110, 107, 58, 40, 84, 250, 133, 186, 61, 202, 94, 155, 159, 10, 21, 121, 43,
    78, 212, 229, 172, 115, 243, 167, 87, 7, 112, 192, 247, 140, 128, 99, 13, 103, 74, 222,
    237, 49, 197, 254, 24, 227, 165, 153, 119, 38, 184, 180, 124, 17, 68, 146, 217, 35, 32,
    137, 46, 55, 63, 209, 91, 149, 188, 207, 205, 144, 135, 151, 178, 220, 252, 190, 97, 242,
    86, 211, 171, 20, 42, 93, 158, 132, 60, 57, 83, 71, 109, 65, 162, 31, 45, 67, 216, 183,
    123, 164, 118, 196, 23, 73, 236, 127, 12, 111, 246, 108, 161, 59, 82, 41, 157, 85, 170,
    251, 96, 134, 177, 187, 204, 62, 90, 203, 89, 95, 176, 156, 169, 160, 81, 11, 245, 22, 235,
    122, 117, 44, 215, 79, 174, 213, 233, 230, 231, 173, 232, 116, 214, 244, 234, 168, 80, 88]"

definition gfilog :: "u8 list" where
  "gfilog = [
   1, 2, 4, 8, 16, 32, 64, 128, 29, 58, 116, 232, 205, 135, 19, 38, 76, 152, 45, 90, 180, 117,
    234, 201, 143, 3, 6, 12, 24, 48, 96, 192, 157, 39, 78, 156, 37, 74, 148, 53, 106, 212, 181,
    119, 238, 193, 159, 35, 70, 140, 5, 10, 20, 40, 80, 160, 93, 186, 105, 210, 185, 111, 222,
    161, 95, 190, 97, 194, 153, 47, 94, 188, 101, 202, 137, 15, 30, 60, 120, 240, 253, 231,
    211, 187, 107, 214, 177, 127, 254, 225, 223, 163, 91, 182, 113, 226, 217, 175, 67, 134, 17,
    34, 68, 136, 13, 26, 52, 104, 208, 189, 103, 206, 129, 31, 62, 124, 248, 237, 199, 147, 59,
    118, 236, 197, 151, 51, 102, 204, 133, 23, 46, 92, 184, 109, 218, 169, 79, 158, 33, 66,
    132, 21, 42, 84, 168, 77, 154, 41, 82, 164, 85, 170, 73, 146, 57, 114, 228, 213, 183, 115,
    230, 209, 191, 99, 198, 145, 63, 126, 252, 229, 215, 179, 123, 246, 241, 255, 227, 219,
    171, 75, 150, 49, 98, 196, 149, 55, 110, 220, 165, 87, 174, 65, 130, 25, 50, 100, 200, 141,
    7, 14, 28, 56, 112, 224, 221, 167, 83, 166, 81, 162, 89, 178, 121, 242, 249, 239, 195, 155,
    43, 86, 172, 69, 138, 9, 18, 36, 72, 144, 61, 122, 244, 245, 247, 243, 251, 235, 203, 139,
    11, 22, 44, 88, 176, 125, 250, 233, 207, 131, 27, 54, 108, 216, 173, 71, 142]"

definition table_at :: "u8 list \<Rightarrow> nat \<Rightarrow> u8 option" where
  "table_at t i = (if i < length t then Some (t ! i) else None)"

text \<open>\<open>NW - 1\<close> is 255; \<open>sum\<close> is an \<open>unsigned char\<close>, so the addition wraps at 256.\<close>

definition mult_gf :: "u8 \<Rightarrow> u8 \<Rightarrow> u8 option" where
  "mult_gf a b = (if a = 0 \<or> b = 0 then Some 0 else do {
     la \<leftarrow> table_at gflog (unat a);
     lb \<leftarrow> table_at gflog (unat b);
     let sum = la + lb;
     let sum = (if 255 \<le> unat sum then sum - 255 else sum);
     table_at gfilog (unat sum) })"

text \<open>The innermost loop, over the data disks \<open>d\<close>, for byte \<open>i\<close> of check disk \<open>j\<close>.\<close>

fun mrs_data :: "ptr \<Rightarrow> int \<Rightarrow> nat \<Rightarrow> u8 \<Rightarrow> nat list \<Rightarrow> u8 \<Rightarrow> mem \<Rightarrow> mem option" where
  "mrs_data dptrs j i matrix_pos_y [] matrix_pos_x m = Some m"
| "mrs_data dptrs j i matrix_pos_y (d # ds) matrix_pos_x m = do {
     dd \<leftarrow> ptr_index m dptrs (int d);
     v \<leftarrow> load8 m dd i;
     r \<leftarrow> mult_gf matrix_pos_x v;
     dj \<leftarrow> ptr_index m dptrs j;
     old \<leftarrow> load8 m dj i;
     m \<leftarrow> store8 m dj i (old XOR r);
     matrix_pos_x \<leftarrow> mult_gf matrix_pos_x matrix_pos_y;
     mrs_data dptrs j i matrix_pos_y ds matrix_pos_x m }"

text \<open>The loop over the check disks \<open>high_disk, \<dots>, disks - 1\<close>, then the loop over the bytes.\<close>

fun mrs_check :: "ptr \<Rightarrow> int \<Rightarrow> nat \<Rightarrow> int list \<Rightarrow> u8 \<Rightarrow> mem \<Rightarrow> mem option" where
  "mrs_check dptrs high_disk i [] matrix_pos_y m = Some m"
| "mrs_check dptrs high_disk i (j # js) matrix_pos_y m = do {
     let matrix_pos_y = matrix_pos_y + 1;
     let matrix_pos_x = matrix_pos_y;
     dj \<leftarrow> ptr_index m dptrs j;
     m \<leftarrow> store8 m dj i 0;
     m \<leftarrow> mrs_data dptrs j i matrix_pos_y [0..<nat high_disk] matrix_pos_x m;
     mrs_check dptrs high_disk i js matrix_pos_y m }"

function mrs_bytes :: "ptr \<Rightarrow> int \<Rightarrow> int \<Rightarrow> nat \<Rightarrow> nat \<Rightarrow> mem \<Rightarrow> mem option" where
  "mrs_bytes dptrs high_disk disks bytes i m =
     (if i < bytes then do {
        m \<leftarrow> mrs_check dptrs high_disk i [high_disk..disks - 1] 0 m;
        i' \<leftarrow> c_incr i 1;
        mrs_bytes dptrs high_disk disks bytes i' m }
      else Some m)"
  by pat_completeness auto
termination
  by (relation "measure (\<lambda>(dptrs, high_disk, disks, bytes, i, m). bytes - i)")
     (auto simp: c_incr_def split: if_splits)

declare mrs_bytes.simps [simp del]

definition multi_rs_soft_gen_syndrome :: "int \<Rightarrow> nat \<Rightarrow> ptr \<Rightarrow> mem \<Rightarrow> mem option" where
  "multi_rs_soft_gen_syndrome disks bytes ptrs m = do {
     high_disk \<leftarrow> c_int (disks - int CHECK_SYMBOLS);
     mrs_bytes ptrs high_disk disks bytes 0 m }"

text \<open>The entry point, compiled with \<open>NOCUDA\<close>.\<close>

definition multi_rs_gen_syndrome :: "int \<Rightarrow> nat \<Rightarrow> ptr \<Rightarrow> mem \<Rightarrow> mem option" where
  "multi_rs_gen_syndrome disks bytes ptrs m = multi_rs_soft_gen_syndrome disks bytes ptrs m"

section \<open>What the loops compute\<close>

text \<open>One byte of check disk number \<open>y\<close> (from 1): the sum of the data bytes, each times a
  running coefficient that starts at \<open>y\<close> and is multiplied by \<open>y\<close>.\<close>

fun rs_row :: "u8 \<Rightarrow> u8 \<Rightarrow> u8 list \<Rightarrow> u8 \<Rightarrow> u8 option" where
  "rs_row y x [] acc = Some acc"
| "rs_row y x (d # ds) acc = do {
     r \<leftarrow> mult_gf x d;
     x' \<leftarrow> mult_gf x y;
     rs_row y x' ds (acc XOR r) }"

definition rs_check_byte :: "nat \<Rightarrow> u8 list \<Rightarrow> u8 option" where
  "rs_check_byte k ds = rs_row (of_nat (Suc k)) (of_nat (Suc k)) ds 0"

text \<open>The check bytes \<open>(k, i)\<close> in \<open>D\<close> have been computed; nothing else has changed.\<close>

definition rs_progress :: "ptr list \<Rightarrow> nat \<Rightarrow> (nat \<times> nat) set \<Rightarrow> mem \<Rightarrow> mem \<Rightarrow> bool" where
  "rs_progress ps h D m m' \<longleftrightarrow> (\<forall>z. z \<notin> set (drop h ps) \<longrightarrow> m' z = m z) \<and>
     (\<forall>k < length ps - h. \<exists>bs. m' (ps ! (h + k)) = Some (Bytes bs) \<and> length bs = length (buf m (ps ! (h + k))) \<and>
        (\<forall>i < length bs. if (k, i) \<in> D then rs_check_byte k (column m ps h i) = Some (bs ! i)
                         else bs ! i = buf m (ps ! (h + k)) ! i))"

section \<open>The tables\<close>

lemma length_tables [simp]: "length gflog = 255" "length gfilog = 255"
  by (simp_all add: gflog_def gfilog_def)

lemma gfilog_powers: "gfilog = gf_powers 255 1"
proof -
  have "map unat gfilog = map unat (gf_powers 255 1)" unfolding gf_powers_table gfilog_def by simp
  then show ?thesis by (rule map_injective) (auto intro: injI unsigned_word_eqI)
qed

lemma gfilog_exp: "i < 255 \<Longrightarrow> gfilog ! i = gf_exp i"
  by (simp add: gfilog_powers gf_powers_map)

lemma gflog_inverse: "map (\<lambda>l. gfilog ! unat l) (tl gflog) = map of_nat [1..<255]"
  by code_simp

lemma map_eq_upt:
  assumes "map f xs = map g [1..<n]" "k < n - 1"
  shows "f (xs ! k) = g (Suc k)"
proof -
  have len: "length xs = n - 1" using arg_cong [OF assms(1), of length] by simp
  then have "f (xs ! k) = map f xs ! k" using assms(2) by simp
  also have "\<dots> = g (Suc k)" unfolding assms(1) using assms(2) by simp
  finally show ?thesis .
qed

lemma gflog_less: "list_all (\<lambda>l. unat l < 255) gflog"
  by (simp add: gflog_def)

lemma unat_u8_less: "unat (a :: u8) < 256"
  using unsigned_less [of a] by simp

lemma gflog_exp:
  assumes "a \<noteq> 0" "a \<noteq> 255"
  shows "gf_exp (unat (gflog ! unat a)) = a" "unat (gflog ! unat a) < 255"
proof -
  have a: "unat a \<noteq> 0" "unat a \<noteq> 255" "unat a < 256"
    using assms unat_u8_less [of a] by (simp_all add: word_unat_eq_iff)
  then obtain k where k: "unat a = Suc k" "k < 254" by (cases "unat a") auto
  show l: "unat (gflog ! unat a) < 255"
    using gflog_less [unfolded list_all_length, rule_format, of "unat a"] a by simp
  have "gfilog ! unat (tl gflog ! k) = of_nat (Suc k)"
    by (rule map_eq_upt [OF gflog_inverse]) (use k(2) in linarith)
  also have "tl gflog ! k = gflog ! unat a" using k by (simp add: nth_tl)
  also have "of_nat (Suc k) = a" unfolding k(1) [symmetric] by simp
  finally show "gf_exp (unat (gflog ! unat a)) = a" using gfilog_exp [OF l] by simp
qed

text \<open>The discrete logarithm as the table has it.\<close>

definition gf_log :: "u8 \<Rightarrow> nat" where
  "gf_log a = unat (gflog ! unat a)"

lemma gf_log_mul:
  assumes "a \<noteq> 0" "a \<noteq> 255" "b \<noteq> 0" "b \<noteq> 255"
  shows "gf_mul a b = gf_exp (gf_log a + gf_log b)"
  using gf_mul_exp [of "gf_log a" "gf_log b"] gflog_exp assms by (simp add: gf_log_def)

lemma unat_add_u8: "unat (a + b :: u8) = (unat a + unat b) mod 256"
  by (simp add: unat_word_ariths)

lemma mult_gf_table:
  assumes a: "a \<noteq> 0" "a \<noteq> 255" and b: "b \<noteq> 0" "b \<noteq> 255"
  shows "mult_gf a b = Some (gf_exp (if gf_log a + gf_log b < 256 then (gf_log a + gf_log b) mod 255
    else gf_log a + gf_log b - 256))"
proof -
  let ?la = "gflog ! unat a" and ?lb = "gflog ! unat b"
  have ia: "unat a < 255" "unat b < 255"
    using a b unat_u8_less [of a] unat_u8_less [of b] by (auto simp: word_unat_eq_iff)
  have l: "unat ?la < 255" "unat ?lb < 255" using gflog_exp(2) a b by simp_all
  have s: "unat (?la + ?lb) = (if gf_log a + gf_log b < 256 then gf_log a + gf_log b
      else gf_log a + gf_log b - 256)"
    using l by (simp add: unat_add_u8 gf_log_def mod_if)
  have minus: "unat (x - 255) = 0" if "unat x = 255" for x :: u8
  proof -
    have "x = 255" using that by (simp add: word_unat_eq_iff)
    then show ?thesis by simp
  qed
  consider "gf_log a + gf_log b < 255" | "gf_log a + gf_log b = 255" | "256 \<le> gf_log a + gf_log b"
    by linarith
  then show ?thesis
    using a b ia s l minus [of "?la + ?lb"]
    by cases (auto simp: mult_gf_def table_at_def Let_def gfilog_exp gf_log_def)
qed

text \<open>The product is right while the logarithms add up to at most 255.\<close>

lemma mult_gf_right:
  assumes "a \<noteq> 0" "a \<noteq> 255" "b \<noteq> 0" "b \<noteq> 255" "gf_log a + gf_log b < 256"
  shows "mult_gf a b = Some (gf_mul a b)"
  using mult_gf_table [OF assms(1-4)] gf_log_mul [OF assms(1-4)] gf_exp_mod assms(5) by simp

lemma mult_gf_short:
  assumes "a \<noteq> 0" "a \<noteq> 255" "b \<noteq> 0" "b \<noteq> 255" "256 \<le> gf_log a + gf_log b"
  shows "\<exists>r. mult_gf a b = Some r \<and> gf_double r = gf_mul a b \<and> r \<noteq> gf_mul a b"
proof -
  let ?s = "gf_log a + gf_log b" and ?r = "gf_exp (gf_log a + gf_log b - 256)"
  have m: "mult_gf a b = Some ?r" using mult_gf_table [OF assms(1-4)] assms(5) by simp
  have "?s = 255 + Suc (?s - 256)" using assms(5) by simp
  then have "gf_exp ?s = gf_exp (255 + Suc (?s - 256))" by (rule arg_cong)
  also have "\<dots> = gf_exp (Suc (?s - 256))"
    unfolding gf_exp_mod [of "255 + Suc (?s - 256)"] mod_add_self1 gf_exp_mod [symmetric] ..
  finally have d: "gf_double ?r = gf_mul a b" using gf_log_mul [OF assms(1-4)] by simp
  moreover have "?r \<noteq> gf_mul a b"
    using d gf_double_pow_fixpoint [of 1 ?r] gf_exp_nonzero by auto
  ultimately show ?thesis using m by blast
qed

lemma mult_gf_outside: "b \<noteq> 0 \<Longrightarrow> mult_gf 255 b = None" "a \<noteq> 0 \<Longrightarrow> mult_gf a 255 = None"
  by (auto simp: mult_gf_def table_at_def Option.bind_eq_None_conv)

lemma mult_gf_zero [simp]: "mult_gf 0 b = Some 0" "mult_gf a 0 = Some 0"
  by (simp_all add: mult_gf_def)

lemma gf_log_1: "gf_log 1 = 0"
  by (simp add: gf_log_def gflog_def)

section \<open>The loops\<close>

definition set_byte :: "mem \<Rightarrow> ptr \<Rightarrow> nat \<Rightarrow> u8 \<Rightarrow> mem" where
  "set_byte m p i v = m(p \<mapsto> Bytes ((buf m p)[i := v]))"

lemma set_byte_idem: "bytes_at m p = Some bs \<Longrightarrow> set_byte m p i (buf m p ! i) = m"
  by (auto simp: set_byte_def buf_def fun_upd_idem dest: bytes_at_SomeD)

lemma set_byte_twice: "p \<noteq> null \<Longrightarrow> set_byte (set_byte m p i v) p i = set_byte m p i"
  by (rule ext) (simp add: set_byte_def)

lemma stripe_set_byte:
  assumes "stripe m a ps n" "j < length ps"
  shows "stripe (set_byte m (ps ! j) i v) a ps n"
  unfolding set_byte_def using stripe_upd [OF assms] stripe_bytes_at(2) [OF assms] by simp

lemma buf_set_byte:
  "p \<noteq> null \<Longrightarrow> buf (set_byte m p i v) q = (if q = p then (buf m p)[i := v] else buf m q)"
  by (simp add: set_byte_def)

lemma stripe_access:
  assumes "stripe m a ps n" "j < length ps" "i < n"
  shows "ptr_index m a (int j) = Some (ps ! j)" "load8 m (ps ! j) i = Some (buf m (ps ! j) ! i)"
    "store8 m (ps ! j) i v = Some (set_byte m (ps ! j) i v)"
  using stripe_ptr_index [OF assms(1), of "int j"] stripe_bytes_at [OF assms(1,2)] assms(2,3)
  by (simp_all add: load8_def store8_def set_byte_def)

lemma mrs_data_row:
  assumes "stripe m a ps n" "i < n" "h \<le> j" "j < length ps" "set ds \<subseteq> {..<h}"
  shows "mrs_data a (int j) i y ds x m =
    map_option (set_byte m (ps ! j) i) (rs_row y x (map (\<lambda>d. buf m (ps ! d) ! i) ds) (buf m (ps ! j) ! i))"
  using assms
proof (induction ds arbitrary: x m)
  case Nil
  then show ?case using set_byte_idem [OF stripe_bytes_at(1)] by simp
next
  case (Cons d ds)
  have d: "d < length ps" "d \<noteq> j" using Cons.prems by auto
  have j: "ps ! j \<noteq> null" "i < length (buf m (ps ! j))"
    using stripe_bytes_at [OF Cons.prems(1) Cons.prems(4)] Cons.prems(2) by auto
  have ne: "ps ! e \<noteq> ps ! j" if "e < h" for e
    using stripe_distinct [OF Cons.prems(1), of e j] that Cons.prems(3,4) by simp
  have keep: "map (\<lambda>d. buf (set_byte m (ps ! j) i v) (ps ! d) ! i) ds = map (\<lambda>d. buf m (ps ! d) ! i) ds" for v
    using ne Cons.prems(5) j by (auto simp: buf_set_byte)
  note acc = stripe_access [OF Cons.prems(1) d(1) Cons.prems(2)] stripe_access [OF Cons.prems(1,4,2)]
  have IH: "mrs_data a (int j) i y ds x' (set_byte m (ps ! j) i v) =
      map_option (set_byte m (ps ! j) i) (rs_row y x' (map (\<lambda>d. buf m (ps ! d) ! i) ds) v)" for x' v
    using Cons.IH [OF stripe_set_byte [OF Cons.prems(1,4)] Cons.prems(2-4), of x' i v] Cons.prems(5) j
    unfolding keep by (simp add: buf_set_byte set_byte_twice)
  show ?case
    by (auto simp: acc IH option.map_comp split: bind_splits)
qed

lemma mrs_check_Cons:
  assumes st: "stripe m a ps n" and i: "i < n" and j: "h \<le> j" "j < length ps"
  shows "mrs_check a (int h) i (int j # js) y m =
    (case rs_row (y + 1) (y + 1) (column m ps h i) 0 of None \<Rightarrow> None
     | Some v \<Rightarrow> mrs_check a (int h) i js (y + 1) (set_byte m (ps ! j) i v))"
proof -
  have b: "ps ! j \<noteq> null" "i < length (buf m (ps ! j))"
    using stripe_bytes_at [OF st j(2)] i by auto
  have ne: "ps ! e \<noteq> ps ! j" if "e < h" for e
    using stripe_distinct [OF st, of e j] that j by simp
  have col: "map (\<lambda>d. buf (set_byte m (ps ! j) i 0) (ps ! d) ! i) [0..<h] = column m ps h i"
    using ne b by (auto simp: buf_set_byte column_def)
  have "mrs_data a (int j) i (y + 1) [0..<h] (y + 1) (set_byte m (ps ! j) i 0) =
      map_option (set_byte m (ps ! j) i) (rs_row (y + 1) (y + 1) (column m ps h i) 0)"
    using mrs_data_row [OF stripe_set_byte [OF st j(2)] i j, of "[0..<h]" "y + 1" "y + 1" i 0]
    unfolding col by (simp add: buf_set_byte b set_byte_twice atLeast0LessThan option.map_comp o_def)
  then show ?thesis
    using stripe_access [OF st j(2) i] by (auto simp: Let_def split: option.splits)
qed

lemma nth_in_drop: "distinct ps \<Longrightarrow> e < length ps \<Longrightarrow> ps ! e \<in> set (drop h ps) \<longleftrightarrow> h \<le> e"
  by (auto simp: in_set_conv_nth nth_eq_iff_index_eq intro: exI [of _ "e - h"])

lemma rs_progress_same:
  "rs_progress ps h D m m' \<Longrightarrow> z \<notin> set (drop h ps) \<Longrightarrow> m' z = m z"
  by (simp add: rs_progress_def)

lemma rs_progress_check:
  assumes "rs_progress ps h D m m'" "length ps = h + c" "k < c"
  obtains bs where "m' (ps ! (h + k)) = Some (Bytes bs)" "length bs = length (buf m (ps ! (h + k)))"
    "\<forall>i < length bs. if (k, i) \<in> D then rs_check_byte k (column m ps h i) = Some (bs ! i)
       else bs ! i = buf m (ps ! (h + k)) ! i"
proof -
  have "k < length ps - h" using assms(2,3) by simp
  then show thesis using assms(1) that unfolding rs_progress_def by blast
qed

lemma rs_progress_stripe:
  assumes st: "stripe m a ps n" and len: "length ps = h + c" and pr: "rs_progress ps h D m m'"
  shows "stripe m' a ps n" "column m' ps h i = column m ps h i"
proof -
  have dist: "distinct ps" using st by (simp add: stripe_def)
  have "a \<notin> set ps" using stripe_bytes_at(4) [OF st] by (auto simp: in_set_conv_nth)
  then have "m' a = m a" by (intro rs_progress_same [OF pr]) (auto dest: in_set_dropD)
  then have a: "ptrs_at m' a = ptrs_at m a" by (simp add: ptrs_at_def obj_at_def)
  have data: "bytes_at m' (ps ! e) = bytes_at m (ps ! e)" if "e < h" for e
    using rs_progress_same [OF pr, of "ps ! e"] nth_in_drop [OF dist, of e h] that len
    by (simp add: bytes_at_def obj_at_def)
  have check: "\<exists>bs. bytes_at m' (ps ! e) = Some bs \<and> n \<le> length bs" if "h \<le> e" "e < length ps" for e
  proof -
    define k where "k = e - h"
    then have "e = h + k" "k < c" using that len by simp_all
    then obtain bs where "m' (ps ! e) = Some (Bytes bs)" "length bs = length (buf m (ps ! e))"
      using rs_progress_check [OF pr len] by metis
    then show ?thesis
      using stripe_bytes_at(2,3) [OF st that(2)] by (simp add: bytes_at_def obj_at_def)
  qed
  have all: "case bytes_at m' p of Some bs \<Rightarrow> n \<le> length bs | None \<Rightarrow> False" if p: "p \<in> set ps" for p
  proof -
    obtain e where e: "e < length ps" "p = ps ! e" using p by (auto simp: in_set_conv_nth)
    show ?thesis
    proof (cases "h \<le> e")
      case True
      then show ?thesis using check [OF True e(1)] e(2) by auto
    next
      case False
      then show ?thesis using data [of e] stripe_bytes_at(1,2) [OF st e(1)] e(2) by simp
    qed
  qed
  show "stripe m' a ps n" using st all unfolding stripe_def a by blast
  show "column m' ps h i = column m ps h i" using data by (intro column_cong) (simp add: buf_def)
qed

lemma rs_progress_set:
  assumes st: "stripe m a ps n" and len: "length ps = h + c" and pr: "rs_progress ps h D m m'"
    and k: "k < c" and v: "rs_check_byte k (column m ps h i) = Some v"
  shows "rs_progress ps h (insert (k, i) D) m (set_byte m' (ps ! (h + k)) i v)"
proof -
  have ne: "ps ! (h + k') = ps ! (h + k) \<longleftrightarrow> k' = k" if "k' < c" for k'
    using stripe_distinct [OF st, of "h + k'" "h + k"] that k len by simp
  have dist: "distinct ps" using st by (simp add: stripe_def)
  have nn: "ps ! (h + k) \<noteq> null" using stripe_bytes_at(3) [OF st] k len by simp
  have out: "set_byte m' (ps ! (h + k)) i v z = m z" if "z \<notin> set (drop h ps)" for z
    using rs_progress_same [OF pr that] nth_in_drop [OF dist, of "h + k" h] that k len
    by (auto simp: set_byte_def)
  have "\<exists>bs. set_byte m' (ps ! (h + k)) i v (ps ! (h + k')) = Some (Bytes bs) \<and>
      length bs = length (buf m (ps ! (h + k'))) \<and>
      (\<forall>i' < length bs. if (k', i') \<in> insert (k, i) D then rs_check_byte k' (column m ps h i') = Some (bs ! i')
         else bs ! i' = buf m (ps ! (h + k')) ! i')" if k': "k' < c" for k'
  proof -
    obtain bs where bs: "m' (ps ! (h + k')) = Some (Bytes bs)" "length bs = length (buf m (ps ! (h + k')))"
      "\<forall>i < length bs. if (k', i) \<in> D then rs_check_byte k' (column m ps h i) = Some (bs ! i)
         else bs ! i = buf m (ps ! (h + k')) ! i"
      using rs_progress_check [OF pr len k'] by metis
    show ?thesis
    proof (cases "k' = k")
      case True
      have "buf m' (ps ! (h + k)) = bs" using bs(1) True nn by (simp add: buf_def bytes_at_def obj_at_def)
      moreover have "if (k, i') \<in> insert (k, i) D then rs_check_byte k (column m ps h i') = Some (bs[i := v] ! i')
          else bs[i := v] ! i' = buf m (ps ! (h + k)) ! i'" if "i' < length bs" for i'
        using bs(3) v True that by (cases "i' = i") auto
      ultimately show ?thesis
        using bs True by (intro exI [of _ "bs[i := v]"]) (simp add: set_byte_def)
    next
      case False
      then show ?thesis using bs ne [OF k'] by (intro exI [of _ bs]) (simp add: set_byte_def)
    qed
  qed
  moreover have "length ps - h = c" using len by simp
  ultimately show ?thesis unfolding rs_progress_def using out by simp
qed

lemma rs_progress_refl:
  assumes st: "stripe m a ps n" and len: "length ps = h + c"
  shows "rs_progress ps h {} m m"
  using bytes_at_SomeD [OF stripe_bytes_at(1) [OF st]] len by (auto simp: rs_progress_def)

text \<open>One byte position: the loop over the check disks.\<close>

lemma mrs_check_rows:
  assumes st: "stripe m a ps n" and len: "length ps = h + c" and i: "i < n" and k: "k \<le> c"
    and pr: "rs_progress ps h D m m'"
  shows "if \<forall>k' \<in> {k..<c}. rs_check_byte k' (column m ps h i) \<noteq> None
    then \<exists>m''. mrs_check a (int h) i (map int [h + k..<h + c]) (of_nat k) m' = Some m'' \<and>
      rs_progress ps h (D \<union> {k..<c} \<times> {i}) m m''
    else mrs_check a (int h) i (map int [h + k..<h + c]) (of_nat k) m' = None"
  using k pr
proof (induction "c - k" arbitrary: k D m')
  case 0
  then show ?case by simp
next
  case (Suc r)
  then have k: "k < c" by simp
  then have up: "{k..<c} = insert k {Suc k..<c}" and
    js: "map int [h + k..<h + c] = int (h + k) # map int [h + Suc k..<h + c]"
    by (auto simp: upt_conv_Cons)
  note st' = rs_progress_stripe [OF st len Suc.prems(2)]
  have step: "mrs_check a (int h) i (map int [h + k..<h + c]) (of_nat k) m' =
    (case rs_check_byte k (column m ps h i) of None \<Rightarrow> None
     | Some v \<Rightarrow> mrs_check a (int h) i (map int [h + Suc k..<h + c]) (of_nat (Suc k))
         (set_byte m' (ps ! (h + k)) i v))"
  proof -
    have y: "of_nat k + 1 = (of_nat (Suc k) :: u8)" by simp
    show ?thesis
      unfolding js rs_check_byte_def y [symmetric] st'(2) [symmetric]
      by (rule mrs_check_Cons [OF st'(1) i]) (use k len in simp_all)
  qed
  show ?case
  proof (cases "rs_check_byte k (column m ps h i)")
    case None
    then show ?thesis unfolding step up by simp
  next
    case (Some v)
    have D: "insert (k, i) D \<union> {Suc k..<c} \<times> {i} = D \<union> insert k {Suc k..<c} \<times> {i}" by auto
    have ok: "(\<forall>k' \<in> insert k {Suc k..<c}. rs_check_byte k' (column m ps h i) \<noteq> None) \<longleftrightarrow>
      (\<forall>k' \<in> {Suc k..<c}. rs_check_byte k' (column m ps h i) \<noteq> None)" using Some by simp
    show ?thesis
      unfolding step up D [symmetric] ok Some option.case
      by (rule Suc.hyps(1)) (use Suc.hyps(2) k rs_progress_set [OF st len Suc.prems(2) k Some] in simp_all)
  qed
qed

lemma rs_progress_byte:
  assumes st: "stripe m a ps bytes" and len: "length ps = h + c" and pr: "rs_progress ps h ({0..<c} \<times> {..<bytes}) m m'"
    and k: "k < c" and i: "i < bytes"
  shows "rs_check_byte k (column m ps h i) = Some (buf m' (ps ! (h + k)) ! i)"
proof -
  obtain bs where "m' (ps ! (h + k)) = Some (Bytes bs)" "length bs = length (buf m (ps ! (h + k)))"
    "\<forall>i < length bs. if (k, i) \<in> {0..<c} \<times> {..<bytes}
       then rs_check_byte k (column m ps h i) = Some (bs ! i) else bs ! i = buf m (ps ! (h + k)) ! i"
    using rs_progress_check [OF pr len k] by metis
  then show ?thesis
    using stripe_bytes_at(2,3) [OF st, of "h + k"] k i len by (simp add: buf_def bytes_at_def obj_at_def)
qed

text \<open>All bytes. The encoder succeeds exactly when every product it needs is defined.\<close>

definition rs_defined :: "mem \<Rightarrow> ptr list \<Rightarrow> nat \<Rightarrow> nat \<Rightarrow> bool" where
  "rs_defined m ps h i \<longleftrightarrow> (\<forall>k \<in> {0..<length ps - h}. rs_check_byte k (column m ps h i) \<noteq> None)"

lemma upto_map_int: "[int a..int b - 1] = map int [a..<b]"
proof (induction b)
  case (Suc b)
  show ?case
  proof (cases "a \<le> b")
    case True
    then show ?thesis using Suc upto_rec2 [of "int a" "int b"] by simp
  qed simp
qed simp

lemma mrs_bytes_rows:
  assumes st: "stripe m a ps bytes" and len: "length ps = h + c" and b: "bytes < 2 ^ 31"
    and i: "i \<le> bytes" and pr: "rs_progress ps h ({0..<c} \<times> {..<i}) m m'"
  shows "if \<forall>i' \<in> {i..<bytes}. rs_defined m ps h i'
    then \<exists>m''. mrs_bytes a (int h) (int (length ps)) bytes i m' = Some m'' \<and>
      rs_progress ps h ({0..<c} \<times> {..<bytes}) m m''
    else mrs_bytes a (int h) (int (length ps)) bytes i m' = None"
  using i pr
proof (induction "bytes - i" arbitrary: i m')
  case 0
  then have "i = bytes" by simp
  then show ?case using 0 by (subst mrs_bytes.simps) simp
next
  case (Suc r)
  then have i: "i < bytes" by simp
  have up: "{i..<bytes} = insert i {Suc i..<bytes}" using i by auto
  have js: "[int h..int (length ps) - 1] = map int [h + 0..<h + c]"
    unfolding len using upto_map_int [of h "h + c"] by simp
  have D: "{0..<c} \<times> {..<i} \<union> {0..<c} \<times> {i} = {0..<c :: nat} \<times> {..<Suc i}" by auto
  have c: "{0..<c} = {0..<length ps - h}" using len by simp
  note row = mrs_check_rows [OF st len i _ Suc.prems(2), of 0, unfolded D, unfolded c, folded rs_defined_def, folded c]
  show ?case
  proof (cases "rs_defined m ps h i")
    case False
    then have "mrs_check a (int h) i (map int [h + 0..<h + c]) (of_nat 0) m' = None"
      using row by simp
    then show ?thesis using False i unfolding up by (subst mrs_bytes.simps) (simp add: js)
  next
    case True
    then obtain m1 where m1: "mrs_check a (int h) i (map int [h + 0..<h + c]) (of_nat 0) m' = Some m1"
      "rs_progress ps h ({0..<c} \<times> {..<Suc i}) m m1"
      using row by auto
    have "mrs_bytes a (int h) (int (length ps)) bytes i m' = mrs_bytes a (int h) (int (length ps)) bytes (Suc i) m1"
      using i b m1(1) unfolding js [symmetric] by (subst mrs_bytes.simps) (simp add: mem_simps)
    then show ?thesis
      using Suc.hyps(1) [of "Suc i" m1] Suc.hyps(2) m1(2) i True unfolding up by simp
  qed
qed

lemma multi_rs_soft_rows:
  assumes st: "stripe m a ps bytes" and len: "length ps = h + 4" "length ps < 2 ^ 31" and b: "bytes < 2 ^ 31"
  shows "if \<forall>i \<in> {0..<bytes}. rs_defined m ps h i
    then \<exists>m'. multi_rs_soft_gen_syndrome (int (length ps)) bytes a m = Some m' \<and>
      rs_progress ps h ({0..<4} \<times> {..<bytes}) m m'
    else multi_rs_soft_gen_syndrome (int (length ps)) bytes a m = None"
proof -
  have "c_int (int (length ps) - int CHECK_SYMBOLS) = Some (int h)"
    using len by (simp add: CHECK_SYMBOLS_def)
  then show ?thesis
    using mrs_bytes_rows [OF st len(1) b, of 0 m] rs_progress_refl [OF st len(1)]
    by (simp add: multi_rs_soft_gen_syndrome_def)
qed

section \<open>The rows\<close>

text \<open>The intended check byte: the data bytes weighted with the powers \<open>y, y^2, y^3, \<dots>\<close>.\<close>

fun vandermonde :: "u8 \<Rightarrow> u8 \<Rightarrow> u8 list \<Rightarrow> u8" where
  "vandermonde y x [] = 0"
| "vandermonde y x (d # ds) = gf_mul x d XOR vandermonde y (gf_mul x y) ds"

text \<open>The products of a row on which \<open>mult_gf\<close> is the field product.\<close>

definition exact_product :: "u8 \<Rightarrow> u8 \<Rightarrow> bool" where
  "exact_product a b \<longleftrightarrow> a = 0 \<or> b = 0 \<or> a \<noteq> 255 \<and> b \<noteq> 255 \<and> gf_log a + gf_log b < 256"

fun exact_row :: "u8 \<Rightarrow> u8 \<Rightarrow> u8 list \<Rightarrow> bool" where
  "exact_row y x [] = True"
| "exact_row y x (d # ds) = (exact_product x d \<and> exact_product x y \<and> exact_row y (gf_mul x y) ds)"

lemma mult_gf_exact: "mult_gf a b = Some (gf_mul a b) \<longleftrightarrow> exact_product a b"
proof (cases "a = 0 \<or> b = 0 \<or> a = 255 \<or> b = 255")
  case True
  then show ?thesis by (auto simp: exact_product_def mult_gf_outside)
next
  case False
  then show ?thesis
    using mult_gf_right [of a b] mult_gf_short [of a b]
    by (cases "gf_log a + gf_log b < 256") (auto simp: exact_product_def)
qed

lemma rs_row_exact: "exact_row y x ds \<Longrightarrow> rs_row y x ds acc = Some (acc XOR vandermonde y x ds)"
  by (induction y x ds arbitrary: acc rule: exact_row.induct) (auto simp: mult_gf_exact [symmetric] xor.assoc)

lemma exact_rows_defined:
  assumes "list_all (\<lambda>y. exact_row y y (column m ps h i)) [1, 2, 3, 4]" "length ps \<le> h + 4"
  shows "rs_defined m ps h i"
proof -
  have "rs_check_byte k (column m ps h i) \<noteq> None" if "k < 4" for k
    using assms(1) rs_row_exact that unfolding rs_check_byte_def
    by (auto simp: atLeastLessThan_nat_numeral eval_nat_numeral less_Suc_eq)
  then show ?thesis using assms(2) by (simp add: rs_defined_def)
qed

lemma rs_row_one: "rs_row 1 1 ds acc = (if 255 \<in> set ds then None else Some (acc XOR xor_list ds))"
proof (induction ds arbitrary: acc)
  case (Cons d ds)
  have one: "mult_gf 1 1 = Some 1" using mult_gf_right [of 1 1] by (simp add: gf_log_1)
  show ?case
  proof (cases "d = 255")
    case True
    then show ?thesis by (simp add: mult_gf_outside)
  next
    case False
    have "gf_log d < 255" if "d \<noteq> 0" using gflog_exp(2) [OF that False] by (simp add: gf_log_def)
    then have "mult_gf 1 d = Some d"
      using mult_gf_exact [of 1 d] False by (cases "d = 0") (auto simp: exact_product_def gf_log_1 gf_mul_commute [of 1])
    then show ?thesis using False one Cons.IH by (auto simp: xor.assoc)
  qed
qed simp

section \<open>Properties\<close>

text \<open>The tables: \<open>gfilog\<close> holds the 255 powers of the generator, \<open>gflog\<close> their inverse on
  the bytes 1 to 254; both have 255 entries, so the logarithm of 255, which is the power 175 of
  the generator, is missing.\<close>

theorem tables_are_logarithms:
  "length gflog = 255 \<and> length gfilog = 255 \<and> (\<forall>i < 255. gfilog ! i = gf_exp i) \<and>
   (\<forall>a. a \<noteq> 0 \<and> a \<noteq> 255 \<longrightarrow> table_at gflog (unat a) = Some (gflog ! unat a) \<and> gf_exp (gf_log a) = a \<and> gf_log a < 255) \<and>
   table_at gflog (unat (255 :: u8)) = None \<and> gf_exp 175 = 255"
proof -
  have "gf_exp 175 = gfilog ! 175" by (rule gfilog_exp [symmetric]) simp
  also have "\<dots> = 255" by (simp add: gfilog_def)
  finally have x: "gf_exp 175 = 255" .
  have "unat a < 255" if "a \<noteq> 255" for a :: u8
    using that unat_u8_less [of a] by (simp add: word_unat_eq_iff)
  then have "table_at gflog (unat a) = Some (gflog ! unat a)" if "a \<noteq> 255" for a :: u8
    using that by (simp add: table_at_def)
  then show ?thesis
    using x gfilog_exp gflog_exp unfolding gf_log_def by (auto simp: table_at_def simp del: funpow.simps)
qed

theorem tables_are_logarithms_witness:
  "gfilog ! 8 = gf_exp 8 \<and> gf_exp (gf_log 29) = 29"
  using tables_are_logarithms by simp

text \<open>C25. The table-driven product, on all pairs of bytes: it reads outside a table exactly when
  one operand is 255 and the other is not zero; it is the product in the field exactly when an
  operand is zero or the logarithms add up to at most 255; otherwise the 8-bit sum has wrapped
  at 256 instead of 255 and the result, doubled, is the product.\<close>

theorem mult_gf_characterised:
  "(mult_gf a b = None \<longleftrightarrow> a \<noteq> 0 \<and> b \<noteq> 0 \<and> (a = 255 \<or> b = 255)) \<and>
   (mult_gf a b = Some (gf_mul a b) \<longleftrightarrow> exact_product a b) \<and>
   (\<forall>r. mult_gf a b = Some r \<and> r \<noteq> gf_mul a b \<longrightarrow> gf_double r = gf_mul a b \<and> 256 \<le> gf_log a + gf_log b)"
proof (cases "a = 0 \<or> b = 0 \<or> a = 255 \<or> b = 255")
  case True
  then show ?thesis
    using mult_gf_exact [of a b] by (cases "a = 0"; cases "b = 0") (auto simp: mult_gf_outside)
next
  case False
  then show ?thesis
    using mult_gf_right [of a b] mult_gf_short [of a b] mult_gf_exact [of a b]
    by (cases "gf_log a + gf_log b < 256") auto
qed

theorem mult_gf_characterised_witness:
  "mult_gf 3 7 = Some (gf_mul 3 7) \<and> mult_gf 3 11 \<noteq> Some (gf_mul 3 11) \<and>
   (\<exists>r. mult_gf 3 11 = Some r \<and> gf_double r = gf_mul 3 11) \<and> mult_gf 3 255 = None"
proof -
  have l: "gf_log 3 = 25" "gf_log 7 = 198" "gf_log 11 = 238" by (simp_all add: gf_log_def gflog_def)
  have e: "exact_product 3 7" "\<not> exact_product 3 11" by (simp_all add: exact_product_def l)
  have right: "mult_gf 3 7 = Some (gf_mul 3 7)" "mult_gf 3 11 \<noteq> Some (gf_mul 3 11)"
    using mult_gf_characterised [of 3 7, THEN conjunct2, THEN conjunct1]
      mult_gf_characterised [of 3 11, THEN conjunct2, THEN conjunct1] e by blast+
  have "mult_gf 3 11 \<noteq> None" "mult_gf 3 255 = None"
    unfolding mult_gf_characterised [THEN conjunct1] by simp_all
  then obtain r where r: "mult_gf 3 11 = Some r" by blast
  then have "gf_double r = gf_mul 3 11"
    using mult_gf_characterised [of 3 11, THEN conjunct2, THEN conjunct2] right(2) by blast
  then show ?thesis using right r \<open>mult_gf 3 255 = None\<close> by blast
qed

text \<open>C12. The four-check-disk encoder on any stripe: it terminates; it returns exactly when every
  product it looks up is defined, and then byte \<open>i\<close> of check disk \<open>k\<close> is the row \<open>rs_check_byte\<close> of
  the data bytes at \<open>i\<close>, the first check disk being their exclusive or; on rows without wrapped
  or missing logarithms the check byte is the intended Vandermonde sum. Nothing but the check
  disks changes.\<close>

theorem multi_rs_encodes:
  assumes "stripe m a ps bytes" "length ps = h + 4" "length ps < 2 ^ 31" "bytes < 2 ^ 31"
    and "\<forall>i \<in> {0..<bytes}. rs_defined m ps h i"
  shows "\<exists>m'. multi_rs_gen_syndrome (int (length ps)) bytes a m = Some m' \<and>
    (\<forall>z. z \<notin> set (drop h ps) \<longrightarrow> m' z = m z) \<and>
    (\<forall>i < bytes. buf m' (ps ! h) ! i = xor_list (column m ps h i)) \<and>
    (\<forall>i < bytes. \<forall>k < 4. exact_row (of_nat (Suc k)) (of_nat (Suc k)) (column m ps h i) \<longrightarrow>
       buf m' (ps ! (h + k)) ! i = vandermonde (of_nat (Suc k)) (of_nat (Suc k)) (column m ps h i))"
proof -
  obtain m' where m': "multi_rs_soft_gen_syndrome (int (length ps)) bytes a m = Some m'"
    and pr: "rs_progress ps h ({0..<4} \<times> {..<bytes}) m m'"
    using multi_rs_soft_rows [OF assms(1-4)] assms(5) by auto
  have byte: "rs_check_byte k (column m ps h i) = Some (buf m' (ps ! (h + k)) ! i)" if "i < bytes" "k < 4" for i k
    by (rule rs_progress_byte [OF assms(1,2) pr that(2,1)])
  have "buf m' (ps ! h) ! i = xor_list (column m ps h i)" if "i < bytes" for i
    using byte [OF that, of 0] rs_row_one [of "column m ps h i" 0]
    by (simp add: rs_check_byte_def split: if_splits)
  moreover have "buf m' (ps ! (h + k)) ! i = vandermonde (of_nat (Suc k)) (of_nat (Suc k)) (column m ps h i)"
    if "i < bytes" "k < 4" "exact_row (of_nat (Suc k)) (of_nat (Suc k)) (column m ps h i)" for i k
    using byte [OF that(1,2)] rs_row_exact [OF that(3), of 0] unfolding rs_check_byte_def by simp
  ultimately show ?thesis
    using m' rs_progress_same [OF pr] unfolding multi_rs_gen_syndrome_def by blast
qed

definition sample_rs :: mem where
  "sample_rs = [1 \<mapsto> Ptrs [2, 3, 4, 5, 6, 7], 2 \<mapsto> Bytes [1, 2], 3 \<mapsto> Bytes [7, 0],
     4 \<mapsto> Bytes [9, 9], 5 \<mapsto> Bytes [9, 9], 6 \<mapsto> Bytes [9, 9], 7 \<mapsto> Bytes [9, 9]]"

lemma sample_rs_stripe: "stripe sample_rs 1 [2, 3, 4, 5, 6, 7] 2"
  by (simp add: stripe_def sample_rs_def ptrs_at_def bytes_at_def obj_at_def)

theorem multi_rs_encodes_witness:
  "\<exists>m'. multi_rs_gen_syndrome 6 2 1 sample_rs = Some m' \<and> buf m' 4 ! 0 = 6 \<and>
     buf m' 5 ! 0 = gf_mul 2 1 XOR gf_mul 4 7"
proof -
  let ?ps = "[2, 3, 4, 5, 6, 7 :: nat]"
  have "column sample_rs ?ps 2 0 = [1, 7]" "column sample_rs ?ps 2 1 = [2, 0]" by code_simp+
  note col = this
  have six: "int (length ?ps) = 6" by simp
  have ex: "exact_row (of_nat (Suc 1)) (of_nat (Suc 1)) [1, 7]" by code_simp
  have "list_all (\<lambda>y. exact_row y y [1, 7]) [1, 2, 3, 4]" "list_all (\<lambda>y. exact_row y y [2, 0]) [1, 2, 3, 4]"
    by code_simp+
  then have "rs_defined sample_rs ?ps 2 0" "rs_defined sample_rs ?ps 2 1"
    using exact_rows_defined [of sample_rs ?ps 2] col by simp_all
  then have "\<forall>i \<in> {0..<2}. rs_defined sample_rs ?ps 2 i" by (auto simp: less_Suc_eq numeral_2_eq_2)
  then have "\<exists>m'. multi_rs_gen_syndrome (int (length ?ps)) 2 1 sample_rs = Some m' \<and>
    (\<forall>z. z \<notin> set (drop 2 ?ps) \<longrightarrow> m' z = sample_rs z) \<and>
    (\<forall>i < 2. buf m' (?ps ! 2) ! i = xor_list (column sample_rs ?ps 2 i)) \<and>
    (\<forall>i < 2. \<forall>k < 4. exact_row (of_nat (Suc k)) (of_nat (Suc k)) (column sample_rs ?ps 2 i) \<longrightarrow>
       buf m' (?ps ! (2 + k)) ! i = vandermonde (of_nat (Suc k)) (of_nat (Suc k)) (column sample_rs ?ps 2 i))"
    by (intro multi_rs_encodes [OF sample_rs_stripe]) simp_all
  then obtain m' where m': "multi_rs_gen_syndrome 6 2 1 sample_rs = Some m'"
    "\<forall>i < 2. buf m' (?ps ! 2) ! i = xor_list (column sample_rs ?ps 2 i)"
    "\<forall>i < 2. \<forall>k < 4. exact_row (of_nat (Suc k)) (of_nat (Suc k)) (column sample_rs ?ps 2 i) \<longrightarrow>
       buf m' (?ps ! (2 + k)) ! i = vandermonde (of_nat (Suc k)) (of_nat (Suc k)) (column sample_rs ?ps 2 i)"
    unfolding six by blast
  have "buf m' (?ps ! 2) ! 0 = xor_list [1, 7]" using m'(2) [rule_format, of 0] unfolding col by simp
  moreover have "buf m' (?ps ! (2 + 1)) ! 0 = vandermonde (of_nat (Suc 1)) (of_nat (Suc 1)) [1, 7]"
    by (rule m'(3) [rule_format, of 0 1, unfolded col]) (use ex in simp_all)
  moreover have "xor_list [1, 7] = 6" "vandermonde (of_nat (Suc 1)) (of_nat (Suc 1)) [1, 7] = gf_mul 2 1 XOR gf_mul 4 7"
    by code_simp+
  ultimately show ?thesis using m'(1) by (intro exI [of _ m']) simp
qed

text \<open>A data byte of 255 anywhere in the stripe makes the encoder read past the end of the
  logarithm table, whatever the other bytes are.\<close>

theorem multi_rs_byte_255:
  assumes "stripe m a ps bytes" "length ps = h + 4" "length ps < 2 ^ 31" "bytes < 2 ^ 31"
    and "i < bytes" "d < h" "buf m (ps ! d) ! i = 255"
  shows "multi_rs_gen_syndrome (int (length ps)) bytes a m = None"
proof -
  have "255 \<in> set (column m ps h i)" using assms(6,7) by (force simp: column_def)
  then have "rs_check_byte 0 (column m ps h i) = None" by (simp add: rs_check_byte_def rs_row_one)
  then have "\<not> rs_defined m ps h i" using assms(2) unfolding rs_defined_def by (intro notI) (drule bspec [of _ _ 0]; simp)
  then show ?thesis
    using multi_rs_soft_rows [OF assms(1-4)] assms(5) by (auto simp: multi_rs_gen_syndrome_def split: if_splits)
qed

theorem multi_rs_byte_255_witness:
  "multi_rs_gen_syndrome 6 2 1 (sample_rs(3 \<mapsto> Bytes [0, 255])) = None"
proof -
  let ?m = "sample_rs(3 \<mapsto> Bytes [0, 255])"
  have "stripe ?m 1 [2, 3, 4, 5, 6, 7] 2"
    by (simp add: stripe_def sample_rs_def ptrs_at_def bytes_at_def obj_at_def)
  moreover have "buf ?m ([2, 3, 4, 5, 6, 7] ! 1) ! 1 = 255" by (simp add: buf_def bytes_at_def obj_at_def)
  ultimately show ?thesis
    using multi_rs_byte_255 [of ?m 1 "[2, 3, 4, 5, 6, 7]" 2 2 1 1] by simp
qed

end
