(* ===== verification/Vanilla.thy ===== *)
theory Vanilla
  imports Raid6_Spec
begin

unbundle bit_operations_syntax

text \<open>
  The sequential encoder of \<open>vanilla/raid6vanilla.cu\<close>: byte-parallel arithmetic on 64-bit
  words (\<open>NBYTES\<close> of \<open>global_def.h\<close>, \<open>SHLBYTE\<close>, \<open>MASK\<close>) and the two nested loops of
  \<open>raid6_vanilla_gen_syndrome\<close>. The byte-lane lemmas show that one step of the inner loop
  doubles all eight bytes of the word in the field; the loop lemmas lift that to the
  contract of \<open>Raid6_Spec\<close>, of which the encoder is the first interpretation.
\<close>

definition NBYTES :: "u64 \<Rightarrow> u64" where
  "NBYTES x = x * 0x0101010101010101"

definition NSIZE :: nat where
  "NSIZE = 8"

definition SHLBYTE :: "u64 \<Rightarrow> u64" where
  "SHLBYTE v = push_bit 1 v AND NBYTES 0xfe"

definition MASK :: "u64 \<Rightarrow> u64" where
  "MASK v = (let vv = v AND NBYTES 0x80 in push_bit 1 vv - drop_bit 7 vv)"

text \<open>The inner loop: \<open>vanilla_disks\<close> runs it for the disks \<open>z - 1, \<dots>, 0\<close> at offset \<open>d\<close>.\<close>

fun vanilla_disks :: "mem \<Rightarrow> ptr \<Rightarrow> nat \<Rightarrow> nat \<Rightarrow> u64 \<Rightarrow> u64 \<Rightarrow> (u64 \<times> u64) option" where
  "vanilla_disks m dptr d 0 wp0 wq0 = Some (wp0, wq0)"
| "vanilla_disks m dptr d (Suc z) wp0 wq0 = do {
     dz \<leftarrow> ptr_index m dptr (int z);
     wd0 \<leftarrow> load64 m dz d;
     let wp0 = wp0 XOR wd0;
     let w20 = MASK wq0;
     let w10 = SHLBYTE wq0;
     let w20 = w20 AND NBYTES 0x1d;
     let w10 = w10 XOR w20;
     let wq0 = w10 XOR wd0;
     vanilla_disks m dptr d z wp0 wq0 }"

text \<open>The body of the outer loop, then the loop itself.\<close>

definition vanilla_word :: "ptr \<Rightarrow> int \<Rightarrow> ptr \<Rightarrow> ptr \<Rightarrow> nat \<Rightarrow> mem \<Rightarrow> mem option" where
  "vanilla_word dptr z0 p q d m = do {
     dz0 \<leftarrow> ptr_index m dptr z0;
     wp0 \<leftarrow> load64 m dz0 d;
     (wp0, wq0) \<leftarrow> vanilla_disks m dptr d (nat z0) wp0 wp0;
     m \<leftarrow> store64 m p d wp0;
     store64 m q d wq0 }"

function vanilla_loop :: "ptr \<Rightarrow> int \<Rightarrow> ptr \<Rightarrow> ptr \<Rightarrow> nat \<Rightarrow> nat \<Rightarrow> mem \<Rightarrow> mem option" where
  "vanilla_loop dptr z0 p q bytes d m =
     (if d < bytes then do {
        m \<leftarrow> vanilla_word dptr z0 p q d m;
        d' \<leftarrow> c_incr d NSIZE;
        vanilla_loop dptr z0 p q bytes d' m }
      else Some m)"
  by pat_completeness auto
termination
  by (relation "measure (\<lambda>(dptr, z0, p, q, bytes, d, m). bytes - d)")
     (auto simp: c_incr_def NSIZE_def split: if_splits)

definition raid6_vanilla_gen_syndrome :: "int \<Rightarrow> nat \<Rightarrow> ptr \<Rightarrow> mem \<Rightarrow> mem option" where
  "raid6_vanilla_gen_syndrome disks bytes ptrs m = do {
     z0 \<leftarrow> c_int (disks - 3);
     p \<leftarrow> ptr_index m ptrs (z0 + 1);
     q \<leftarrow> ptr_index m ptrs (z0 + 2);
     vanilla_loop ptrs z0 p q bytes 0 m }"

declare vanilla_loop.simps [simp del]

section \<open>Byte-parallel arithmetic\<close>

lemma NBYTES_bytes:
  "NBYTES 0xfe = 0xfefefefefefefefe" "NBYTES 0x80 = 0x8080808080808080"
  "NBYTES 0x1d = 0x1d1d1d1d1d1d1d1d"
  by (simp_all add: NBYTES_def)

lemma byte_of_NBYTES [lane_simps]:
  assumes "k < 8"
  shows "byte_of (NBYTES 0xfe) k = 0xfe" "byte_of (NBYTES 0x80) k = 0x80"
    "byte_of (NBYTES 0x1d) k = 0x1d"
proof -
  have "k \<in> {0, 1, 2, 3, 4, 5, 6, 7}" using assms by auto
  then show "byte_of (NBYTES 0xfe) k = 0xfe" "byte_of (NBYTES 0x80) k = 0x80"
    "byte_of (NBYTES 0x1d) k = 0x1d"
    by (auto simp: byte_of_def NBYTES_bytes)
qed

lemma bit_0x80: "n < 8 \<Longrightarrow> bit (0x80 :: u8) n \<longleftrightarrow> n = 7"
  by (auto simp: bit_simps less_Suc_eq numeral_eq_Suc)

lemma bit_0xfe: "n < 8 \<Longrightarrow> bit (0xfe :: u8) n \<longleftrightarrow> 0 < n"
  by (auto simp: bit_simps less_Suc_eq numeral_eq_Suc)

lemma bit_NBYTES_0x80: "n < 64 \<Longrightarrow> bit (NBYTES 0x80) n \<longleftrightarrow> n mod 8 = 7"
  using byte_of_NBYTES(2) [of "n div 8"] bit_byte_of [of "NBYTES 0x80" "n div 8" "n mod 8"]
    bit_0x80 [of "n mod 8"] by simp

text \<open>\<open>SHLBYTE\<close> shifts every byte on its own.\<close>

lemma byte_of_SHLBYTE [lane_simps]:
  assumes k: "k < 8"
  shows "byte_of (SHLBYTE v) k = push_bit 1 (byte_of v k)"
proof (rule u8_eqI)
  fix n :: nat assume n: "n < 8"
  show "bit (byte_of (SHLBYTE v) k) n = bit (push_bit 1 (byte_of v k)) n"
    unfolding SHLBYTE_def byte_of_and byte_of_NBYTES(1) [OF k] bit_and_iff bit_0xfe [OF n]
      bit_push_bit_iff bit_byte_of using n k by auto
qed

text \<open>\<open>MASK\<close> spreads the top bit of every byte over the byte. The subtraction never borrows:
  \<open>vv << 1\<close> less \<open>vv >> 7\<close> is 255 times \<open>vv >> 7\<close>, a sum of disjoint shifts.\<close>

definition top_bits :: "u64 \<Rightarrow> u64" where
  "top_bits v = drop_bit 7 (v AND NBYTES 0x80)"

lemma bit_top_bits: "bit (top_bits v) n \<longleftrightarrow> n < 64 \<and> n mod 8 = 0 \<and> bit v (n + 7)"
proof (cases "n + 7 < 64")
  case True
  have "(n + 7) mod 8 = 7 \<longleftrightarrow> n mod 8 = 0" by presburger
  then show ?thesis
    unfolding top_bits_def bit_drop_bit_eq o_apply bit_and_iff add.commute [of 7]
    using True bit_NBYTES_0x80 [OF True] by auto
next
  case False
  then have "\<not> bit v (n + 7)" by (auto dest: bit_imp_le_length)
  then show ?thesis
    unfolding top_bits_def bit_drop_bit_eq o_apply bit_and_iff add.commute [of 7] by simp
qed

lemma push_bit_top_bits: "push_bit 1 (v AND NBYTES 0x80) = push_bit 8 (top_bits v)"
proof (rule bit_word_eqI)
  fix n assume n: "n < LENGTH(64)"
  have mod1: "1 \<le> n \<and> (n - 1) mod 8 = 7 \<longleftrightarrow> 8 \<le> n \<and> (n - 8) mod 8 = 0"
  proof (cases "8 \<le> n")
    case True
    then obtain j where j: "n = j + 8" by (metis add.commute le_Suc_ex)
    have "(7 + j) mod 8 = 7 \<longleftrightarrow> j mod 8 = 0" by presburger
    then show ?thesis unfolding j by simp
  qed auto
  have "bit (push_bit 1 (v AND NBYTES 0x80)) n \<longleftrightarrow> 1 \<le> n \<and> bit v (n - 1) \<and> (n - 1) mod 8 = 7"
    unfolding bit_push_bit_iff bit_and_iff using n bit_NBYTES_0x80 [of "n - 1"] by auto
  also have "\<dots> \<longleftrightarrow> 8 \<le> n \<and> (n - 8) mod 8 = 0 \<and> bit v (n - 1)" using mod1 by (metis (no_types))
  also have "\<dots> \<longleftrightarrow> bit (push_bit 8 (top_bits v)) n"
    unfolding bit_push_bit_iff bit_top_bits using n by (cases "8 \<le> n") auto
  finally show "bit (push_bit 1 (v AND NBYTES 0x80)) n = bit (push_bit 8 (top_bits v)) n" .
qed

definition spread :: "nat \<Rightarrow> u64 \<Rightarrow> u64" where
  "spread n u = (\<Sum>i < n. push_bit i u)"

lemma bit_push_bit_aligned:
  assumes u: "\<And>n. bit u n \<Longrightarrow> n mod 8 = 0" and n: "n < 8"
  shows "bit (push_bit n u :: u64) j \<longleftrightarrow> j < 64 \<and> j mod 8 = n \<and> bit u (8 * (j div 8))"
proof (cases "n \<le> j \<and> (j - n) mod 8 = 0")
  case True
  then obtain t where "j = n + 8 * t" by (metis le_add_diff_inverse mod_0_imp_dvd dvd_def)
  then have "j mod 8 = n" using n by simp
  moreover from this have "j - n = 8 * (j div 8)" by (metis minus_mod_eq_mult_div)
  ultimately show ?thesis using True unfolding bit_push_bit_iff by auto
next
  case False
  then have "j mod 8 \<noteq> n" by (metis minus_mod_eq_mult_div mod_less_eq_dividend mod_mult_self1_is_0)
  then show ?thesis using False u [of "j - n"] unfolding bit_push_bit_iff by auto
qed

lemma bit_spread:
  assumes u: "\<And>n. bit u n \<Longrightarrow> n mod 8 = 0" and n: "n \<le> 8"
  shows "bit (spread n u) j \<longleftrightarrow> j < 64 \<and> j mod 8 < n \<and> bit u (8 * (j div 8))"
  using n
proof (induction n arbitrary: j)
  case 0
  then show ?case by (simp add: spread_def)
next
  case (Suc n)
  have top: "bit (push_bit n u) j \<longleftrightarrow> j < 64 \<and> j mod 8 = n \<and> bit u (8 * (j div 8))" for j
    using bit_push_bit_aligned [OF u] Suc.prems by simp
  have "spread n u AND push_bit n u = 0"
    by (rule bit_word_eqI) (use Suc top in \<open>simp add: bit_and_iff\<close>)
  then have "spread (Suc n) u = spread n u OR push_bit n u"
    by (simp add: spread_def disjunctive_add_eq_or)
  then show ?case using Suc top by (auto simp only: bit_or_iff less_Suc_eq Suc_le_eq less_imp_le)
qed

lemma spread_8: "push_bit 8 u - u = spread 8 u"
  by (simp add: spread_def numeral_eq_Suc push_bit_eq_mult)

lemma bit_MASK: "bit (MASK v) n \<longleftrightarrow> n < 64 \<and> bit v (8 * (n div 8) + 7)"
proof -
  have "MASK v = spread 8 (top_bits v)"
    unfolding MASK_def Let_def push_bit_top_bits spread_8 [symmetric] by (simp only: top_bits_def)
  then show ?thesis using bit_spread [of "top_bits v" 8 n] by (auto simp: bit_top_bits)
qed

lemma bit_0xff: "n < 8 \<Longrightarrow> bit (0xff :: u8) n"
  by (auto simp: bit_simps less_Suc_eq numeral_eq_Suc)

lemma byte_of_MASK [lane_simps]:
  assumes "k < 8"
  shows "byte_of (MASK v) k = (if bit (byte_of v k) 7 then 0xff else 0)"
proof (rule u8_eqI)
  fix n :: nat assume n: "n < 8"
  have "(8 * k + n) div 8 = k" using n by simp
  then show "bit (byte_of (MASK v) k) n = bit (if bit (byte_of v k) 7 then 0xff else 0 :: u8) n"
    using n assms bit_0xff [OF n] unfolding bit_byte_of bit_MASK
    by (cases "bit v (8 * k + 7)") (auto simp: bit_byte_of)
qed

text \<open>The step of the inner loop doubles every byte of the word in the field.\<close>

lemma byte_of_step [lane_simps]:
  assumes "k < 8"
  shows "byte_of (SHLBYTE w XOR (MASK w AND NBYTES 0x1d)) k = gf_double (byte_of w k)"
  using assms by (simp add: lane_simps gf_double_def)

section \<open>The loops\<close>

lemma vanilla_disks_lanes:
  assumes st: "stripe m a ps n" and d: "d + 8 \<le> n" and z: "z \<le> length ps"
  shows "\<exists>wp' wq'. vanilla_disks m a d z wp wq = Some (wp', wq') \<and>
    (\<forall>k < 8. byte_of wp' k = byte_of wp k XOR xor_list (column m ps z (d + k)) \<and>
            byte_of wq' k = q_from (column m ps z (d + k)) (byte_of wq k))"
  using z
proof (induction z arbitrary: wp wq)
  case 0
  then show ?case by (simp add: column_def q_from_def)
next
  case (Suc z)
  obtain wd where wd: "load64 m (ps ! z) d = Some wd"
    and lanes: "\<And>k. k < 8 \<Longrightarrow> byte_of wd k = buf m (ps ! z) ! (d + k)"
    using load64_lane [of m "ps ! z" "buf m (ps ! z)" d] stripe_bytes_at [OF st, of z] Suc.prems d
    by force
  let ?wp = "wp XOR wd" and ?wq = "(SHLBYTE wq XOR (MASK wq AND NBYTES 0x1d)) XOR wd"
  have step: "vanilla_disks m a d (Suc z) wp wq = vanilla_disks m a d z ?wp ?wq"
    using stripe_ptr_index [OF st, of "int z"] Suc.prems wd by simp
  have "byte_of ?wp k = byte_of wp k XOR buf m (ps ! z) ! (d + k)"
    "byte_of ?wq k = gf_double (byte_of wq k) XOR buf m (ps ! z) ! (d + k)" if "k < 8" for k
    using byte_of_step [OF that] by (simp_all only: byte_of_xor lanes [OF that])
  then show ?case
    unfolding step using Suc.IH [of ?wp ?wq] Suc.prems
    by (auto simp: column_Suc q_from_def xor.assoc xor.left_commute xor.commute)
qed

text \<open>Started from the word of the highest data disk, the inner loop computes \<open>P\<close> and \<open>Q\<close>.\<close>

lemma vanilla_disks_words:
  assumes st: "stripe m a ps n" and len: "3 \<le> length ps" and d: "d + 8 \<le> n"
    and w: "load64 m (ps ! (length ps - 3)) d = Some w"
  shows "\<exists>wp wq. vanilla_disks m a d (length ps - 3) w w = Some (wp, wq) \<and> words_ok m ps d wp wq"
proof -
  let ?z = "length ps - 3"
  have k: "length ps - 2 = Suc ?z" using len by simp
  have "\<exists>w. load64 m (ps ! ?z) d = Some w \<and> (\<forall>i < 8. byte_of w i = buf m (ps ! ?z) ! (d + i))"
    using load64_lane [of m "ps ! ?z" "buf m (ps ! ?z)" d] stripe_bytes_at [OF st, of ?z] len d by force
  then have "\<And>i. i < 8 \<Longrightarrow> byte_of w i = buf m (ps ! ?z) ! (d + i)" using w by simp
  then show ?thesis
    unfolding words_ok_def k using vanilla_disks_lanes [OF st d, of ?z w w] len
    by (auto simp: column_Suc q_byte_from q_from_def xor.commute)
qed

lemma stripe_load64:
  assumes "stripe m a ps n" "z < length ps" "d + 8 \<le> n"
  shows "\<exists>w. load64 m (ps ! z) d = Some w"
  using load64_lane [OF stripe_bytes_at(1) [OF assms(1,2)], of d] stripe_bytes_at(2) [OF assms(1,2)] assms(3)
  by auto

lemma words_ok_cong:
  assumes "stripe m a ps n" "encodes_on ps S T m m'" "3 \<le> length ps"
  shows "words_ok m' ps d wp wq = words_ok m ps d wp wq"
  by (simp add: words_ok_def encodes_on_column [OF assms])

lemma vanilla_word_step:
  assumes st: "stripe m0 a ps n" and len: "3 \<le> length ps" and d: "d + 8 \<le> n"
    and enc: "encodes_on ps S T m0 m"
  shows "\<exists>m'. vanilla_word a (int (length ps) - 3) (ps ! (length ps - 2)) (ps ! (length ps - 1)) d m
      = Some m' \<and> encodes_on ps (S \<union> {d..<d + 8}) (T \<union> {d..<d + 8}) m0 m'"
proof -
  have z: "nat (int (length ps) - 3) = length ps - 3" using len by simp
  have st': "stripe m a ps n" by (rule encodes_on_stripe [OF st enc len])
  obtain w where w: "load64 m (ps ! (length ps - 3)) d = Some w"
    using stripe_load64 [OF st' _ d, of "length ps - 3"] len by force
  obtain wp wq where pq: "vanilla_disks m a d (length ps - 3) w w = Some (wp, wq)"
    and "words_ok m ps d wp wq" using vanilla_disks_words [OF st' len d w] by auto
  then have ok: "words_ok m0 ps d wp wq" by (simp add: words_ok_cong [OF st enc len])
  obtain m1 where m1: "store64 m (ps ! (length ps - 2)) d wp = Some m1"
    and e1: "encodes_on ps (S \<union> {d..<d + 8}) T m0 m1"
    using encodes_on_store_p [OF st enc len d ok] by auto
  obtain m2 where m2: "store64 m1 (ps ! (length ps - 1)) d wq = Some m2"
    and e2: "encodes_on ps (S \<union> {d..<d + 8}) (T \<union> {d..<d + 8}) m0 m2"
    using encodes_on_store_q [OF st e1 len d ok] by auto
  show ?thesis
    using stripe_ptr_index [OF st', of "int (length ps) - 3"] len w pq m1 m2 e2
    by (simp add: vanilla_word_def z)
qed

lemma vanilla_loop_encodes:
  assumes st: "stripe m0 a ps n" and len: "3 \<le> length ps"
    and n: "n = 8 * ((bytes + 7) div 8)" "n < 2 ^ 31"
    and d: "d \<le> n" "8 dvd d" and enc: "encodes_on ps {..<d} {..<d} m0 m"
  shows "\<exists>m'. vanilla_loop a (int (length ps) - 3) (ps ! (length ps - 2)) (ps ! (length ps - 1)) bytes d m
      = Some m' \<and> encodes_on ps {..<n} {..<n} m0 m'"
  using d enc
proof (induction "n - d" arbitrary: d m rule: less_induct)
  case less
  define c where "c = (bytes + 7) div 8"
  have c: "n = 8 * c" "bytes \<le> 8 * c" "8 * c \<le> bytes + 7" using n(1) by (simp_all add: c_def)
  obtain t where t: "d = 8 * t" using less.prems(2) by (rule dvdE)
  show ?case
  proof (cases "d < bytes")
    case True
    have "t < c" using True c t by linarith
    then have d8: "d + 8 \<le> n" using c t by linarith
    obtain m' where m': "vanilla_word a (int (length ps) - 3) (ps ! (length ps - 2)) (ps ! (length ps - 1)) d m
        = Some m'" and e: "encodes_on ps ({..<d} \<union> {d..<d + 8}) ({..<d} \<union> {d..<d + 8}) m0 m'"
      using vanilla_word_step [OF st len d8 less.prems(3)] by auto
    have "{..<d} \<union> {d..<d + 8} = {..<d + 8}" by auto
    then have "encodes_on ps {..<d + 8} {..<d + 8} m0 m'" using e by simp
    then show ?thesis
      using less.hyps [of "d + 8" m'] less.prems(2) d8 m' True n(2)
      by (subst vanilla_loop.simps) (simp add: mem_simps NSIZE_def)
  next
    case False
    have "\<not> t < c" using False c t by linarith
    then have "n = d" using c t less.prems(1) by simp
    then show ?thesis using less.prems(3) False by (subst vanilla_loop.simps) simp
  qed
qed

lemma vanilla_encodes_on:
  assumes st: "stripe m a ps n" and len: "3 \<le> length ps" "length ps < 2 ^ 31"
    and n: "n = 8 * ((bytes + 7) div 8)" "n < 2 ^ 31"
  shows "\<exists>m'. raid6_vanilla_gen_syndrome (int (length ps)) bytes a m = Some m' \<and>
    encodes_on ps {..<n} {..<n} m m'"
proof -
  have idx: "int (length ps) - 3 + 1 = int (length ps - 2)" "int (length ps) - 3 + 2 = int (length ps - 1)"
    using len by simp_all
  have "ptr_index m a (int (length ps - 2)) = Some (ps ! (length ps - 2))"
    "ptr_index m a (int (length ps - 1)) = Some (ps ! (length ps - 1))"
    using stripe_ptr_index [OF st, of "int (length ps - 2)"] stripe_ptr_index [OF st, of "int (length ps - 1)"]
      len(1) unfolding nat_int by linarith+
  moreover have "c_int (int (length ps) - 3) = Some (int (length ps) - 3)"
    using len by simp
  ultimately show ?thesis
    using vanilla_loop_encodes [OF st len(1) n, of 0 m] encodes_on_refl [OF st len(1)]
    unfolding raid6_vanilla_gen_syndrome_def by (simp add: idx)
qed

text \<open>The contract, for every byte count: the buffers have to be long enough for the last,
  possibly partial, word.\<close>

definition vanilla_need :: "nat \<Rightarrow> nat" where
  "vanilla_need bytes = 8 * ((bytes + 7) div 8)"

definition vanilla_ok :: "nat \<Rightarrow> bool" where
  "vanilla_ok bytes \<longleftrightarrow> vanilla_need bytes < 2 ^ 31"

interpretation vanilla: raid6_generator raid6_vanilla_gen_syndrome vanilla_need vanilla_ok
proof unfold_locales
  show "bytes \<le> vanilla_need bytes" for bytes by (simp add: vanilla_need_def)
next
  fix m a ps bytes
  assume a: "stripe m a ps (vanilla_need bytes)" "3 \<le> length ps" "length ps < 2 ^ 31" "vanilla_ok bytes"
  then show "\<exists>m'. raid6_vanilla_gen_syndrome (int (length ps)) bytes a m = Some m' \<and>
      raid6_encodes ps bytes m m'"
    using vanilla_encodes_on [OF a(1-3) vanilla_need_def] encodes_on_raid6 [OF a(1) _ a(2)]
    by (fastforce simp: vanilla_need_def vanilla_ok_def)
qed

section \<open>Properties\<close>

text \<open>C1. For every stripe of at least three disks and every byte count, the sequential encoder
  terminates without an invalid access, writes the exclusive or of the data disks into the last
  disk but one and their Reed-Solomon syndrome (the polynomial with the data bytes as
  coefficients, evaluated at the generator of the field) into the last disk, on all bytes up to
  the end of the last 64-bit word, and changes nothing else.\<close>

theorem vanilla_encodes:
  assumes "stripe m a ps n" "3 \<le> length ps" "length ps < 2 ^ 31"
    and "n = 8 * ((bytes + 7) div 8)" "n < 2 ^ 31"
  shows "\<exists>m'. raid6_vanilla_gen_syndrome (int (length ps)) bytes a m = Some m' \<and>
    encodes_on ps {..<n} {..<n} m m' \<and> raid6_encodes ps bytes m m' \<and>
    (\<forall>i < bytes. buf m' (ps ! (length ps - 1)) ! i =
       xor_list (map (\<lambda>z. gf_mul (gf_exp z) (buf m (ps ! z) ! i)) [0..<length ps - 2]))"
proof -
  have "bytes \<le> n" using assms(4) by simp
  moreover obtain m' where m': "raid6_vanilla_gen_syndrome (int (length ps)) bytes a m = Some m'"
    "encodes_on ps {..<n} {..<n} m m'" using vanilla_encodes_on [OF assms] by blast
  ultimately have "raid6_encodes ps bytes m m'"
    using encodes_on_raid6 [OF assms(1) m'(2) assms(2)] by simp
  moreover from this have "\<forall>i < bytes. buf m' (ps ! (length ps - 1)) ! i =
       xor_list (map (\<lambda>z. gf_mul (gf_exp z) (buf m (ps ! z) ! i)) [0..<length ps - 2])"
    using raid6_encodes_q [OF assms(1) _ assms(2)] by simp
  ultimately show ?thesis using m' by blast
qed

theorem vanilla_encodes_witness:
  "\<exists>m'. raid6_vanilla_gen_syndrome 4 15 1 sample_mem = Some m' \<and>
     encodes_on [2, 3, 4, 5] {..<16} {..<16} sample_mem m' \<and> raid6_encodes [2, 3, 4, 5] 15 sample_mem m'"
proof -
  have "int (length [2, 3, 4, 5 :: nat]) = 4" by simp
  moreover have "\<exists>m'. raid6_vanilla_gen_syndrome (int (length [2, 3, 4, 5 :: nat])) 15 1 sample_mem = Some m' \<and>
    encodes_on [2, 3, 4, 5] {..<16} {..<16} sample_mem m' \<and> raid6_encodes [2, 3, 4, 5] 15 sample_mem m' \<and>
    (\<forall>i < 15. buf m' ([2, 3, 4, 5] ! (length [2, 3, 4, 5 :: nat] - 1)) ! i = xor_list (map
       (\<lambda>z. gf_mul (gf_exp z) (buf sample_mem ([2, 3, 4, 5] ! z) ! i)) [0..<length [2, 3, 4, 5 :: nat] - 2]))"
    by (rule vanilla_encodes [OF sample_stripe]) simp_all
  ultimately show ?thesis by (simp only:) blast
qed

text \<open>C8. Any two lost disks are determined by the others, for up to 255 data disks: two stripes
  written by the sequential encoder that agree at a byte position on all disks but two, be they
  data or parity, agree on all disks there.\<close>

theorem vanilla_two_disks_determined:
  assumes "stripe m a ps (vanilla_need bytes)" "raid6_vanilla_gen_syndrome (int (length ps)) bytes a m = Some m'"
    and "stripe n b qs (vanilla_need bytes)" "raid6_vanilla_gen_syndrome (int (length ps)) bytes b n = Some n'"
    and "length qs = length ps" "3 \<le> length ps" "length ps \<le> 257" "vanilla_ok bytes" "i < bytes"
    and "x < y" "y < length ps"
    and "\<forall>z < length ps. z \<noteq> x \<longrightarrow> z \<noteq> y \<longrightarrow> buf m' (ps ! z) ! i = buf n' (qs ! z) ! i"
  shows "column m' ps (length ps) i = column n' qs (length ps) i"
  using vanilla.two_disks_determined [OF assms(1-11)] assms(12) by blast

definition run_of :: "mem \<Rightarrow> mem" where
  "run_of m = the (raid6_vanilla_gen_syndrome 4 16 1 m)"

theorem vanilla_two_disks_determined_witness:
  "column (run_of sample_mem) [2, 3, 4, 5] 4 0 = column (run_of sample_mem2) [2, 3, 4, 5] 4 0"
proof -
  have r: "raid6_vanilla_gen_syndrome (int (length [2, 3, 4, 5 :: nat])) 16 1 sample_mem = Some (run_of sample_mem)"
    "raid6_vanilla_gen_syndrome (int (length [2, 3, 4, 5 :: nat])) 16 1 sample_mem2 = Some (run_of sample_mem2)"
    using vanilla_encodes_on [OF sample_stripe [of 16], of 16] vanilla_encodes_on [OF sample_stripe2 [of 16], of 16]
    by (auto simp: run_of_def)
  have "buf (run_of sample_mem) 3 ! 0 = buf (run_of sample_mem2) 3 ! 0"
    "buf (run_of sample_mem) 5 ! 0 = buf (run_of sample_mem2) 5 ! 0"
    by code_simp+
  then have "\<forall>z < length [2, 3, 4, 5 :: nat]. z \<noteq> 0 \<longrightarrow> z \<noteq> 2 \<longrightarrow>
      buf (run_of sample_mem) ([2, 3, 4, 5] ! z) ! 0 = buf (run_of sample_mem2) ([2, 3, 4, 5] ! z) ! 0"
    by (auto simp: less_Suc_eq numeral_eq_Suc)
  then have "column (run_of sample_mem) [2, 3, 4, 5] (length [2, 3, 4, 5 :: nat]) 0 =
      column (run_of sample_mem2) [2, 3, 4, 5] (length [2, 3, 4, 5 :: nat]) 0"
    by (intro vanilla_two_disks_determined [OF _ r(1) _ r(2), where x = 0 and y = 2])
       (simp_all add: vanilla_need_def vanilla_ok_def sample_stripe [simplified] sample_stripe2 [simplified])
  moreover have "length [2, 3, 4, 5 :: nat] = 4" by simp
  ultimately show ?thesis by (simp only:)
qed

text \<open>One step of the inner loop, on the 64-bit word: \<open>SHLBYTE\<close>, \<open>MASK\<close> and the reduction
  constant together multiply all eight bytes of the word by the generator of the field.\<close>

theorem word_step_doubles_bytes:
  "bytes_of_word (SHLBYTE w XOR (MASK w AND NBYTES 0x1d)) = map gf_double (bytes_of_word w)"
  by (rule nth_equalityI) (simp_all only: length_map length_bytes_of_word nth_map nth_bytes_of_word byte_of_step)

end
