(* ===== verification/Smp.thy ===== *)
theory Smp
  imports Vanilla
begin

unbundle bit_operations_syntax

text \<open>
  The multi-threaded encoder of \<open>smp/raid6smp.cu\<close>. A thread is a record of the C locals of
  \<open>proc_thread_dep_syndrome\<close> with a program point; \<open>thread_step\<close> runs one load, store or
  loop test. \<open>smp_step\<close> interleaves the threads with the main thread, which creates them in
  order, joins them in order and returns; \<open>pthread_create\<close> and \<open>pthread_join\<close> may fail, which
  ends the process. \<open>smp_exec\<close> runs one schedule of the relation.

  The invariant \<open>smp_inv\<close> holds in every reachable state of every interleaving: each byte
  stored so far is the right one and no thread has faulted. It gives the contract of
  \<open>Raid6_Spec\<close> for every complete run, a bound on the length of runs and progress. The number
  of threads is \<open>NUMBER_OF_CPUS\<close> of \<open>service.cu\<close>, a parameter here.
\<close>

record thread_data =
  td_disks :: int
  td_bytes :: nat
  td_ptrs :: ptr
  td_thread_id :: nat
  td_number_of_threads :: nat

definition smp_SHLBYTE :: "u64 \<Rightarrow> u64" where
  "smp_SHLBYTE v = (let vv = push_bit 1 v AND NBYTES 0xfe in vv)"

definition smp_MASK :: "u64 \<Rightarrow> u64" where
  "smp_MASK v = (let vv = v AND NBYTES 0x80; vv = push_bit 1 vv - drop_bit 7 vv in vv)"

definition thread_start :: "thread_data \<Rightarrow> int" where
  "thread_start a = size_to_int
     ((of_nat (td_bytes a) div of_nat (td_number_of_threads a)) * of_nat (td_thread_id a))"

definition thread_stop :: "thread_data \<Rightarrow> int" where
  "thread_stop a =
     (if td_thread_id a + 1 = td_number_of_threads a then size_to_int (of_nat (td_bytes a))
      else size_to_int (of_int (thread_start a) + of_nat (td_bytes a) div of_nat (td_number_of_threads a)))"

text \<open>Program points of \<open>proc_thread_dep_syndrome\<close> and its locals.\<close>

datatype thread_pc = Entry | Loop_Test | Load_Top | Inner_Loop | Store_P | Store_Q | Exited

record thread =
  t_data :: thread_data
  t_pc :: thread_pc
  t_p :: ptr
  t_q :: ptr
  t_z0 :: int
  t_stop :: int
  t_d :: int
  t_z :: int
  t_wp0 :: u64
  t_wq0 :: u64

definition new_thread :: "thread_data \<Rightarrow> thread" where
  "new_thread a = \<lparr>t_data = a, t_pc = Entry, t_p = 0, t_q = 0, t_z0 = 0, t_stop = 0,
     t_d = 0, t_z = 0, t_wp0 = 0, t_wq0 = 0\<rparr>"

text \<open>\<open>dptr[z][d]\<close> for \<open>int\<close> indices.\<close>

definition load_disk :: "mem \<Rightarrow> ptr \<Rightarrow> int \<Rightarrow> int \<Rightarrow> u64 option" where
  "load_disk m dptr z d = do {
     dz \<leftarrow> ptr_index m dptr z;
     if 0 \<le> d then load64 m dz (nat d) else None }"

definition store_word :: "mem \<Rightarrow> ptr \<Rightarrow> int \<Rightarrow> u64 \<Rightarrow> mem option" where
  "store_word m p d w = (if 0 \<le> d then store64 m p (nat d) w else None)"

definition thread_step :: "mem \<Rightarrow> thread \<Rightarrow> (mem \<times> thread) option" where
  "thread_step m t = (let ptrs = td_ptrs (t_data t) in
     case t_pc t of
       Entry \<Rightarrow> do {
         z0 \<leftarrow> c_int (td_disks (t_data t) - 3);
         p \<leftarrow> ptr_index m ptrs (z0 + 1);
         q \<leftarrow> ptr_index m ptrs (z0 + 2);
         Some (m, t\<lparr>t_pc := Loop_Test, t_p := p, t_q := q, t_z0 := z0,
           t_d := thread_start (t_data t), t_stop := thread_stop (t_data t)\<rparr>) }
     | Loop_Test \<Rightarrow> Some (m, t\<lparr>t_pc := if t_d t < t_stop t then Load_Top else Exited\<rparr>)
     | Load_Top \<Rightarrow> do {
         w \<leftarrow> load_disk m ptrs (t_z0 t) (t_d t);
         Some (m, t\<lparr>t_pc := Inner_Loop, t_wp0 := w, t_wq0 := w, t_z := t_z0 t - 1\<rparr>) }
     | Inner_Loop \<Rightarrow>
         if 0 \<le> t_z t then do {
           wd0 \<leftarrow> load_disk m ptrs (t_z t) (t_d t);
           let wp0 = t_wp0 t XOR wd0;
           let w20 = smp_MASK (t_wq0 t);
           let w10 = smp_SHLBYTE (t_wq0 t);
           let w20 = w20 AND NBYTES 0x1d;
           let w10 = w10 XOR w20;
           let wq0 = w10 XOR wd0;
           Some (m, t\<lparr>t_wp0 := wp0, t_wq0 := wq0, t_z := t_z t - 1\<rparr>) }
         else Some (m, t\<lparr>t_pc := Store_P\<rparr>)
     | Store_P \<Rightarrow> do {
         m' \<leftarrow> store_word m (t_p t) (t_d t) (t_wp0 t);
         Some (m', t\<lparr>t_pc := Store_Q\<rparr>) }
     | Store_Q \<Rightarrow> do {
         m' \<leftarrow> store_word m (t_q t) (t_d t) (t_wq0 t);
         d \<leftarrow> c_int (t_d t + int NSIZE);
         Some (m', t\<lparr>t_pc := Loop_Test, t_d := d\<rparr>) }
     | Exited \<Rightarrow> None)"

section \<open>The main thread and the interleaving\<close>

datatype main_pc = M_Create nat | M_Join nat | M_Return | M_Exit | M_Fault

record smp_state =
  s_mem :: mem
  s_main :: main_pc
  s_threads :: "thread list"

record smp_call =
  c_disks :: int
  c_bytes :: nat
  c_ptrs :: ptr
  c_threads :: nat

definition thread_arg :: "smp_call \<Rightarrow> nat \<Rightarrow> thread_data" where
  "thread_arg c i = \<lparr>td_disks = c_disks c, td_bytes = c_bytes c, td_ptrs = c_ptrs c,
     td_thread_id = i, td_number_of_threads = c_threads c\<rparr>"

definition smp_init :: "mem \<Rightarrow> smp_state" where
  "smp_init m = \<lparr>s_mem = m, s_main = M_Create 0, s_threads = []\<rparr>"

definition running :: "smp_state \<Rightarrow> bool" where
  "running s \<longleftrightarrow> (case s_main s of M_Create _ \<Rightarrow> True | M_Join _ \<Rightarrow> True | _ \<Rightarrow> False)"

inductive smp_step :: "smp_call \<Rightarrow> smp_state \<Rightarrow> smp_state \<Rightarrow> bool" for c where
  create: "s_main s = M_Create i \<Longrightarrow> i < c_threads c \<Longrightarrow>
    smp_step c s (s\<lparr>s_main := M_Create (Suc i), s_threads := s_threads s @ [new_thread (thread_arg c i)]\<rparr>)"
| create_fails: "s_main s = M_Create i \<Longrightarrow> i < c_threads c \<Longrightarrow> smp_step c s (s\<lparr>s_main := M_Exit\<rparr>)"
| all_created: "s_main s = M_Create i \<Longrightarrow> \<not> i < c_threads c \<Longrightarrow> smp_step c s (s\<lparr>s_main := M_Join 0\<rparr>)"
| join: "s_main s = M_Join i \<Longrightarrow> i < c_threads c \<Longrightarrow> t_pc (s_threads s ! i) = Exited \<Longrightarrow>
    smp_step c s (s\<lparr>s_main := M_Join (Suc i)\<rparr>)"
| join_fails: "s_main s = M_Join i \<Longrightarrow> i < c_threads c \<Longrightarrow> smp_step c s (s\<lparr>s_main := M_Exit\<rparr>)"
| all_joined: "s_main s = M_Join i \<Longrightarrow> \<not> i < c_threads c \<Longrightarrow> smp_step c s (s\<lparr>s_main := M_Return\<rparr>)"
| thread: "running s \<Longrightarrow> i < length (s_threads s) \<Longrightarrow> t_pc (s_threads s ! i) \<noteq> Exited \<Longrightarrow>
    thread_step (s_mem s) (s_threads s ! i) = Some (m', t') \<Longrightarrow>
    smp_step c s (s\<lparr>s_mem := m', s_threads := (s_threads s)[i := t']\<rparr>)"
| fault: "running s \<Longrightarrow> i < length (s_threads s) \<Longrightarrow> t_pc (s_threads s ! i) \<noteq> Exited \<Longrightarrow>
    thread_step (s_mem s) (s_threads s ! i) = None \<Longrightarrow> smp_step c s (s\<lparr>s_main := M_Fault\<rparr>)"

abbreviation smp_steps :: "smp_call \<Rightarrow> smp_state \<Rightarrow> smp_state \<Rightarrow> bool" where
  "smp_steps c \<equiv> (smp_step c)\<^sup>*\<^sup>*"

text \<open>One schedule, in which the system calls succeed: the main thread runs when it can, then
  the first thread that has not exited.\<close>

definition smp_next :: "smp_call \<Rightarrow> smp_state \<Rightarrow> smp_state" where
  "smp_next c s = (let
     run = (case List.extract (\<lambda>i. t_pc (s_threads s ! i) \<noteq> Exited) [0..<length (s_threads s)] of
        None \<Rightarrow> s
      | Some (_, i, _) \<Rightarrow>
          (case thread_step (s_mem s) (s_threads s ! i) of
             Some (m', t') \<Rightarrow> s\<lparr>s_mem := m', s_threads := (s_threads s)[i := t']\<rparr>
           | None \<Rightarrow> s\<lparr>s_main := M_Fault\<rparr>)) in
     case s_main s of
       M_Create i \<Rightarrow>
         if i < c_threads c
         then s\<lparr>s_main := M_Create (Suc i), s_threads := s_threads s @ [new_thread (thread_arg c i)]\<rparr>
         else s\<lparr>s_main := M_Join 0\<rparr>
     | M_Join i \<Rightarrow>
         if i < c_threads c then
           if t_pc (s_threads s ! i) = Exited then s\<lparr>s_main := M_Join (Suc i)\<rparr> else run
         else s\<lparr>s_main := M_Return\<rparr>
     | _ \<Rightarrow> s)"

fun smp_exec :: "smp_call \<Rightarrow> nat \<Rightarrow> smp_state \<Rightarrow> smp_state" where
  "smp_exec c 0 s = s"
| "smp_exec c (Suc n) s = (if running s then smp_exec c n (smp_next c s) else s)"

text \<open>The remaining work of a thread and of a state, in steps: the bound on every run.\<close>

definition rounds :: "int \<Rightarrow> int \<Rightarrow> nat" where
  "rounds d stop = nat ((stop - d + 7) div 8)"

definition thread_work :: "thread \<Rightarrow> nat" where
  "thread_work t = (let w = nat (td_disks (t_data t)) + 5; r = rounds (t_d t) (t_stop t) * w;
       r' = rounds (t_d t + 8) (t_stop t) * w in
     case t_pc t of
       Entry \<Rightarrow> rounds (thread_start (t_data t)) (thread_stop (t_data t)) * w + 2
     | Loop_Test \<Rightarrow> r + 1 | Load_Top \<Rightarrow> r' + w | Inner_Loop \<Rightarrow> r' + nat (t_z t + 1) + 4
     | Store_P \<Rightarrow> r' + 3 | Store_Q \<Rightarrow> r' + 2 | Exited \<Rightarrow> 0)"

definition main_work :: "smp_call \<Rightarrow> main_pc \<Rightarrow> nat" where
  "main_work c pc = (case pc of
       M_Create i \<Rightarrow> (\<Sum>j\<leftarrow>[i..<c_threads c]. thread_work (new_thread (thread_arg c j)) + 1) + c_threads c + 2
     | M_Join i \<Rightarrow> (c_threads c - i) + 1 | _ \<Rightarrow> 0)"

definition smp_work :: "smp_call \<Rightarrow> smp_state \<Rightarrow> nat" where
  "smp_work c s = main_work c (s_main s) + (\<Sum>t\<leftarrow>s_threads s. thread_work t)"

definition raid6_smp_gen_syndrome :: "nat \<Rightarrow> int \<Rightarrow> nat \<Rightarrow> ptr \<Rightarrow> mem \<Rightarrow> mem option" where
  "raid6_smp_gen_syndrome number_of_threads disks bytes ptrs m = (let
     c = \<lparr>c_disks = disks, c_bytes = bytes, c_ptrs = ptrs, c_threads = number_of_threads\<rparr>;
     s = smp_exec c (smp_work c (smp_init m)) (smp_init m) in
     if number_of_threads = 0 then None
     else case s_main s of M_Return \<Rightarrow> Some (s_mem s) | _ \<Rightarrow> None)"

section \<open>The chunks\<close>

text \<open>The range of bytes thread \<open>i\<close> of \<open>n\<close> is asked for, and the end of the words it writes.\<close>

definition chunk_start :: "nat \<Rightarrow> nat \<Rightarrow> nat \<Rightarrow> nat" where
  "chunk_start bytes n i = bytes div n * i"

definition chunk_stop :: "nat \<Rightarrow> nat \<Rightarrow> nat \<Rightarrow> nat" where
  "chunk_stop bytes n i = (if i + 1 = n then bytes else chunk_start bytes n i + bytes div n)"

definition chunk_end :: "nat \<Rightarrow> nat \<Rightarrow> nat \<Rightarrow> nat" where
  "chunk_end bytes n i =
     chunk_start bytes n i + 8 * ((chunk_stop bytes n i - chunk_start bytes n i + 7) div 8)"

definition smp_need :: "nat \<Rightarrow> nat \<Rightarrow> nat" where
  "smp_need n bytes = foldr max (map (chunk_end bytes n) [0..<n]) bytes"

definition smp_ok :: "nat \<Rightarrow> nat \<Rightarrow> bool" where
  "smp_ok n bytes \<longleftrightarrow> 0 < n \<and> n < 2 ^ 31 \<and> smp_need n bytes < 2 ^ 31"

lemma smp_code_copies [simp]: "smp_SHLBYTE = SHLBYTE" "smp_MASK = MASK"
  by (auto simp: smp_SHLBYTE_def SHLBYTE_def smp_MASK_def MASK_def Let_def)

lemma foldr_max_ge: "b \<le> foldr max xs b" "x \<in> set xs \<Longrightarrow> x \<le> foldr max xs (b :: nat)"
  by (induction xs) (auto simp: le_max_iff_disj)

lemma smp_need_ge: "bytes \<le> smp_need n bytes" "i < n \<Longrightarrow> chunk_end bytes n i \<le> smp_need n bytes"
  by (auto simp: smp_need_def intro: foldr_max_ge)

lemma chunk_start_le: "i < n \<Longrightarrow> chunk_start bytes n i \<le> chunk_stop bytes n i"
  "i < n \<Longrightarrow> chunk_stop bytes n i \<le> bytes"
proof -
  assume "i < n"
  then have "bytes div n * Suc i \<le> bytes div n * n" by (intro mult_le_mono) simp_all
  also have "\<dots> \<le> bytes" by (simp add: div_times_less_eq_dividend)
  finally show "chunk_start bytes n i \<le> chunk_stop bytes n i" "chunk_stop bytes n i \<le> bytes"
    by (simp_all add: chunk_start_def chunk_stop_def ac_simps)
qed

text \<open>The chunks cover the stripe.\<close>

lemma chunks_cover:
  assumes "x < bytes" "0 < n"
  shows "\<exists>i < n. chunk_start bytes n i \<le> x \<and> x < chunk_stop bytes n i"
proof -
  let ?c = "bytes div n" and ?i = "if bytes div n = 0 then n - 1 else min (x div (bytes div n)) (n - 1)"
  have "?c * (x div ?c) \<le> x" by simp
  then have "?c * min (x div ?c) (n - 1) \<le> x"
    by (metis le_trans min.cobounded1 mult_le_mono2)
  moreover have "x < ?c * (x div ?c) + ?c" if "0 < ?c"
    using that by (metis add.commute dividend_less_times_div mult.commute)
  ultimately show ?thesis
    using assms by (intro exI [of _ ?i]) (auto simp: chunk_start_def chunk_stop_def min_def)
qed

lemma of_nat_div_u64: "a < 2 ^ 64 \<Longrightarrow> b < 2 ^ 64 \<Longrightarrow> (of_nat a :: u64) div of_nat b = of_nat (a div b)"
  by (simp add: word_unat_eq_iff unat_div_distrib unsigned_of_nat take_bit_nat_eq_self
      order.strict_trans1 [OF div_le_dividend])

lemma thread_range:
  assumes "bytes < 2 ^ 31" "i < n" "n < 2 ^ 31"
    and a: "td_bytes a = bytes" "td_number_of_threads a = n" "td_thread_id a = i"
  shows "thread_start a = int (chunk_start bytes n i)" "thread_stop a = int (chunk_stop bytes n i)"
proof -
  have q: "(of_nat bytes :: u64) div of_nat n = of_nat (bytes div n)"
    using assms(1,3) by (intro of_nat_div_u64) simp_all
  have le: "chunk_start bytes n i < 2 ^ 31" "chunk_stop bytes n i < 2 ^ 31"
    using chunk_start_le [OF assms(2), of bytes] assms(1) by linarith+
  have "(of_nat (bytes div n) * of_nat i :: u64) = of_nat (chunk_start bytes n i)"
    by (simp add: chunk_start_def)
  then show s: "thread_start a = int (chunk_start bytes n i)"
    using le(1) size_to_int_of_nat unfolding thread_start_def a q by simp
  have "(of_int (int (chunk_start bytes n i)) + of_nat (bytes div n) :: u64)
      = of_nat (chunk_start bytes n i + bytes div n)" by simp
  then show "thread_stop a = int (chunk_stop bytes n i)"
    using size_to_int_of_nat [OF le(2)] size_to_int_of_nat [OF assms(1)]
    unfolding thread_stop_def a q s chunk_stop_def by (simp del: of_nat_add split: if_splits)
qed

section \<open>The invariant\<close>

text \<open>What the caller provides: buffers long enough for the last word of every chunk, and
  sizes that fit an \<open>int\<close>.\<close>

definition smp_pre :: "smp_call \<Rightarrow> mem \<Rightarrow> ptr list \<Rightarrow> bool" where
  "smp_pre c m ps \<longleftrightarrow> stripe m (c_ptrs c) ps (smp_need (c_threads c) (c_bytes c)) \<and>
     3 \<le> length ps \<and> length ps < 2 ^ 31 \<and> c_disks c = int (length ps) \<and>
     smp_ok (c_threads c) (c_bytes c)"

text \<open>A thread past its entry, at byte \<open>d\<close> of its chunk: the words before \<open>d\<close> are stored, and
  the rest of the inner loop will compute the right words.\<close>

definition thread_at :: "smp_call \<Rightarrow> mem \<Rightarrow> ptr list \<Rightarrow> nat set \<Rightarrow> nat set \<Rightarrow> nat \<Rightarrow> thread \<Rightarrow> nat \<Rightarrow> bool" where
  "thread_at c m0 ps S T i t d \<longleftrightarrow> (let n = c_threads c; start = chunk_start (c_bytes c) n i;
       stop = chunk_stop (c_bytes c) n i in
     t_p t = ps ! (length ps - 2) \<and> t_q t = ps ! (length ps - 1) \<and> t_z0 t = int (length ps) - 3 \<and>
     t_stop t = int stop \<and> t_d t = int d \<and>
     (\<exists>r. d = start + 8 * r) \<and> d \<le> chunk_end (c_bytes c) n i \<and> {start..<d} \<subseteq> S \<and> {start..<d} \<subseteq> T \<and>
     (case t_pc t of
        Entry \<Rightarrow> False
      | Loop_Test \<Rightarrow> True
      | Load_Top \<Rightarrow> d < stop
      | Inner_Loop \<Rightarrow> d < stop \<and> - 1 \<le> t_z t \<and> t_z t < t_z0 t \<and>
          (\<exists>wp wq. vanilla_disks m0 (c_ptrs c) d (nat (t_z t + 1)) (t_wp0 t) (t_wq0 t) = Some (wp, wq) \<and>
             words_ok m0 ps d wp wq)
      | Store_P \<Rightarrow> d < stop \<and> words_ok m0 ps d (t_wp0 t) (t_wq0 t)
      | Store_Q \<Rightarrow> d < stop \<and> words_ok m0 ps d (t_wp0 t) (t_wq0 t) \<and> {d..<d + 8} \<subseteq> S
      | Exited \<Rightarrow> stop \<le> d))"

definition thread_inv :: "smp_call \<Rightarrow> mem \<Rightarrow> ptr list \<Rightarrow> nat set \<Rightarrow> nat set \<Rightarrow> nat \<Rightarrow> thread \<Rightarrow> bool" where
  "thread_inv c m0 ps S T i t \<longleftrightarrow> t_data t = thread_arg c i \<and>
     (t_pc t = Entry \<or> (\<exists>d. thread_at c m0 ps S T i t d))"

definition main_inv :: "smp_call \<Rightarrow> smp_state \<Rightarrow> bool" where
  "main_inv c s \<longleftrightarrow> (let n = c_threads c; ts = s_threads s in case s_main s of
       M_Create i \<Rightarrow> length ts = i \<and> i \<le> n
     | M_Join j \<Rightarrow> length ts = n \<and> j \<le> n \<and> (\<forall>i < j. t_pc (ts ! i) = Exited)
     | M_Return \<Rightarrow> length ts = n \<and> (\<forall>i < n. t_pc (ts ! i) = Exited)
     | M_Exit \<Rightarrow> length ts \<le> n
     | M_Fault \<Rightarrow> False)"

definition written :: "smp_call \<Rightarrow> nat set" where
  "written c = (\<Union>i < c_threads c.
     {chunk_start (c_bytes c) (c_threads c) i..<chunk_end (c_bytes c) (c_threads c) i})"

definition smp_inv :: "smp_call \<Rightarrow> mem \<Rightarrow> ptr list \<Rightarrow> smp_state \<Rightarrow> bool" where
  "smp_inv c m0 ps s \<longleftrightarrow> main_inv c s \<and> (\<exists>S T. S \<subseteq> written c \<and> T \<subseteq> written c \<and>
     encodes_on ps S T m0 (s_mem s) \<and>
     (\<forall>i < length (s_threads s). thread_inv c m0 ps S T i (s_threads s ! i)))"

lemma thread_at_mono:
  assumes "thread_at c m0 ps S T i t d" "S \<subseteq> S'" "T \<subseteq> T'"
  shows "thread_at c m0 ps S' T' i t d"
proof -
  have "X \<subseteq> S \<Longrightarrow> X \<subseteq> S'" "X \<subseteq> T \<Longrightarrow> X \<subseteq> T'" for X using assms(2,3) by auto
  then show ?thesis
    using assms(1) unfolding thread_at_def Let_def by (cases "t_pc t") simp_all
qed

lemma thread_inv_mono:
  "thread_inv c m0 ps S T i t \<Longrightarrow> S \<subseteq> S' \<Longrightarrow> T \<subseteq> T' \<Longrightarrow> thread_inv c m0 ps S' T' i t"
  unfolding thread_inv_def using thread_at_mono by blast

lemma smp_preD:
  assumes "smp_pre c m0 ps" "i < c_threads c"
  shows "stripe m0 (c_ptrs c) ps (chunk_end (c_bytes c) (c_threads c) i)"
    "chunk_end (c_bytes c) (c_threads c) i < 2 ^ 31"
    "3 \<le> length ps" "length ps < 2 ^ 31" "c_disks c = int (length ps)"
    "thread_start (thread_arg c i) = int (chunk_start (c_bytes c) (c_threads c) i)"
    "thread_stop (thread_arg c i) = int (chunk_stop (c_bytes c) (c_threads c) i)"
proof -
  let ?n = "c_threads c" and ?b = "c_bytes c"
  note pre = assms(1) [unfolded smp_pre_def smp_ok_def]
  show st: "stripe m0 (c_ptrs c) ps (chunk_end ?b ?n i)"
    using pre smp_need_ge(2) [OF assms(2)] by (blast intro: stripe_mono)
  show "chunk_end ?b ?n i < 2 ^ 31"
    using pre smp_need_ge(2) [OF assms(2), of ?b] by linarith
  show "3 \<le> length ps" "length ps < 2 ^ 31" "c_disks c = int (length ps)" using pre by simp_all
  have "?b < 2 ^ 31" using pre smp_need_ge(1) [of ?b ?n] by linarith
  then show "thread_start (thread_arg c i) = int (chunk_start ?b ?n i)"
    "thread_stop (thread_arg c i) = int (chunk_stop ?b ?n i)"
    using thread_range [of ?b i ?n "thread_arg c i"] pre assms(2) by (simp_all add: thread_arg_def)
qed

text \<open>A word that starts inside the chunk ends before \<open>chunk_end\<close>.\<close>

lemma chunk_word:
  assumes "d = chunk_start b n i + 8 * r" "d < chunk_stop b n i"
  shows "d + 8 \<le> chunk_end b n i"
proof -
  have "8 * r < chunk_stop b n i - chunk_start b n i" using assms by linarith
  then have "r < (chunk_stop b n i - chunk_start b n i + 7) div 8" by linarith
  then have "8 * r + 8 \<le> 8 * ((chunk_stop b n i - chunk_start b n i + 7) div 8)" by linarith
  then show ?thesis unfolding chunk_end_def assms(1) by linarith
qed

lemma chunk_done:
  assumes "d = chunk_start b n i + 8 * r" "chunk_stop b n i \<le> d" "d \<le> chunk_end b n i"
  shows "d = chunk_end b n i"
proof -
  have "(chunk_stop b n i - chunk_start b n i + 7) div 8 \<le> r" using assms(1,2) by linarith
  then show ?thesis using assms(1,3) by (simp add: chunk_end_def)
qed

text \<open>One step of a thread, by program point: it does not fault, keeps the invariant and has
  less work left.\<close>

definition step_ok :: "smp_call \<Rightarrow> mem \<Rightarrow> ptr list \<Rightarrow> nat set \<Rightarrow> nat set \<Rightarrow> nat \<Rightarrow> mem \<Rightarrow> thread \<Rightarrow> bool" where
  "step_ok c m0 ps S T i m t \<longleftrightarrow> (\<exists>m' t' S' T'. thread_step m t = Some (m', t') \<and>
     S \<subseteq> S' \<and> T \<subseteq> T' \<and>
     S' \<subseteq> S \<union> {chunk_start (c_bytes c) (c_threads c) i..<chunk_end (c_bytes c) (c_threads c) i} \<and>
     T' \<subseteq> T \<union> {chunk_start (c_bytes c) (c_threads c) i..<chunk_end (c_bytes c) (c_threads c) i} \<and>
     encodes_on ps S' T' m0 m' \<and> thread_inv c m0 ps S' T' i t' \<and> thread_work t' < thread_work t)"

lemma step_okI:
  assumes "thread_step m t = Some (m', t')" "encodes_on ps S' T' m0 m'" "thread_inv c m0 ps S' T' i t'"
    "thread_work t' < thread_work t" "S \<subseteq> S'" "T \<subseteq> T'"
    "S' \<subseteq> S \<union> {chunk_start (c_bytes c) (c_threads c) i..<chunk_end (c_bytes c) (c_threads c) i}"
    "T' \<subseteq> T \<union> {chunk_start (c_bytes c) (c_threads c) i..<chunk_end (c_bytes c) (c_threads c) i}"
  shows "step_ok c m0 ps S T i m t"
  unfolding step_ok_def using assms by (intro exI conjI)

lemmas step_ok_localI = step_okI [OF _ _ _ _ order_refl order_refl Un_upper1 Un_upper1]

lemma rounds_step: "d < stop \<Longrightarrow> rounds d stop = Suc (rounds (d + 8) stop)"
proof -
  assume "d < stop"
  moreover have "stop - d + 7 = (stop - (d + 8) + 7) + 1 * 8" by simp
  ultimately show ?thesis
    unfolding rounds_def by (simp add: nat_add_distrib [symmetric] div_add_self2 Suc_nat_eq_nat_zadd1)
qed

lemma step_Entry:
  assumes pre: "smp_pre c m0 ps" "i < c_threads c" and enc: "encodes_on ps S T m0 m"
    and t: "t_data t = thread_arg c i" "t_pc t = Entry"
  shows "step_ok c m0 ps S T i m t"
proof -
  note p = smp_preD [OF pre]
  have st: "stripe m (c_ptrs c) ps (chunk_end (c_bytes c) (c_threads c) i)"
    by (rule encodes_on_stripe [OF p(1) enc p(3)])
  have idx: "nat (int (length ps) - 2) = length ps - 2" "nat (int (length ps) - 1) = length ps - 1"
    using p(3) by simp_all
  have pq: "ptr_index m (c_ptrs c) (int (length ps) - 2) = Some (ps ! (length ps - 2))"
    "ptr_index m (c_ptrs c) (int (length ps) - 1) = Some (ps ! (length ps - 1))"
    using stripe_ptr_index [OF st, of "int (length ps) - 2"] stripe_ptr_index [OF st, of "int (length ps) - 1"]
      p(3) unfolding idx by linarith+
  let ?t = "t\<lparr>t_pc := Loop_Test, t_p := ps ! (length ps - 2), t_q := ps ! (length ps - 1),
    t_z0 := int (length ps) - 3, t_d := thread_start (t_data t), t_stop := thread_stop (t_data t)\<rparr>"
  show ?thesis
  proof (rule step_ok_localI [of m t m ?t])
    show "thread_step m t = Some (m, ?t)"
      using t p(3-5) pq by (simp add: thread_step_def thread_arg_def Let_def)
    have "thread_at c m0 ps S T i ?t (chunk_start (c_bytes c) (c_threads c) i)"
      using t(1) p(6,7) by (simp add: thread_at_def Let_def chunk_end_def)
    then show "thread_inv c m0 ps S T i ?t" using t(1) by (auto simp: thread_inv_def)
    show "thread_work ?t < thread_work t" using t by (simp add: thread_work_def Let_def)
  qed (rule enc)
qed

lemma step_Loop_Test:
  assumes enc: "encodes_on ps S T m0 m" and t: "t_data t = thread_arg c i" "t_pc t = Loop_Test"
    and at: "thread_at c m0 ps S T i t d"
  shows "step_ok c m0 ps S T i m t"
proof -
  let ?t = "t\<lparr>t_pc := if t_d t < t_stop t then Load_Top else Exited\<rparr>"
  have "thread_at c m0 ps S T i ?t d" using at t(2) by (auto simp: thread_at_def Let_def)
  then have "thread_inv c m0 ps S T i ?t" using t(1) by (auto simp: thread_inv_def)
  moreover have "thread_work ?t < thread_work t"
    using t(2) rounds_step [of "t_d t" "t_stop t"] by (simp add: thread_work_def Let_def)
  ultimately show ?thesis
    using t(2) enc by (intro step_ok_localI [of m t m ?t]) (simp_all add: thread_step_def)
qed

lemma step_Load_Top:
  assumes pre: "smp_pre c m0 ps" "i < c_threads c" and enc: "encodes_on ps S T m0 m"
    and t: "t_data t = thread_arg c i" "t_pc t = Load_Top" and at: "thread_at c m0 ps S T i t d"
  shows "step_ok c m0 ps S T i m t"
proof -
  note p = smp_preD [OF pre]
  have st: "stripe m (c_ptrs c) ps (chunk_end (c_bytes c) (c_threads c) i)"
    by (rule encodes_on_stripe [OF p(1) enc p(3)])
  have z: "nat (int (length ps) - 3) = length ps - 3" "length ps - 3 < length ps - 2" using p(3) by simp_all
  have d: "d + 8 \<le> chunk_end (c_bytes c) (c_threads c) i" "t_d t = int d"
    "t_z0 t = int (length ps) - 3"
    using at t(2) chunk_word by (auto simp: thread_at_def Let_def)
  obtain w where w: "load64 m0 (ps ! (length ps - 3)) d = Some w"
    using stripe_load64 [OF p(1) _ d(1), of "length ps - 3"] p(3) by force
  then have wm: "load64 m (ps ! (length ps - 3)) d = Some w"
    using encodes_on_data [OF p(1) enc p(3) z(2)] by simp
  let ?t = "t\<lparr>t_pc := Inner_Loop, t_wp0 := w, t_wq0 := w, t_z := t_z0 t - 1\<rparr>"
  show ?thesis
  proof (rule step_ok_localI [of m t m ?t])
    show "thread_step m t = Some (m, ?t)"
      using t stripe_ptr_index [OF st, of "int (length ps) - 3"] wm d p(3)
      by (simp add: thread_step_def load_disk_def thread_arg_def z)
    have "thread_at c m0 ps S T i ?t d"
      using at t(2) p(3) vanilla_disks_words [OF p(1,3) d(1) w] by (simp add: thread_at_def Let_def z)
    then show "thread_inv c m0 ps S T i ?t" using t(1) by (auto simp: thread_inv_def)
    show "thread_work ?t < thread_work t"
      using t p(5) d(3) by (simp add: thread_work_def Let_def thread_arg_def)
  qed (rule enc)
qed

lemma step_Inner_Loop:
  assumes pre: "smp_pre c m0 ps" "i < c_threads c" and enc: "encodes_on ps S T m0 m"
    and t: "t_data t = thread_arg c i" "t_pc t = Inner_Loop" and at: "thread_at c m0 ps S T i t d"
  shows "step_ok c m0 ps S T i m t"
proof (cases "0 \<le> t_z t")
  case False
  then have "t_z t = - 1" using at t(2) by (simp add: thread_at_def Let_def)
  then have "thread_at c m0 ps S T i (t\<lparr>t_pc := Store_P\<rparr>) d" using at t(2) by (simp add: thread_at_def Let_def)
  then have "thread_inv c m0 ps S T i (t\<lparr>t_pc := Store_P\<rparr>)" using t(1) by (auto simp: thread_inv_def)
  then show ?thesis
    using t(2) False enc
    by (intro step_ok_localI [of m t m "t\<lparr>t_pc := Store_P\<rparr>"]) (simp_all add: thread_step_def thread_work_def Let_def)
next
  case True
  note p = smp_preD [OF pre]
  have st: "stripe m (c_ptrs c) ps (chunk_end (c_bytes c) (c_threads c) i)"
    by (rule encodes_on_stripe [OF p(1) enc p(3)])
  define z where "z = nat (t_z t)"
  have z: "t_z t = int z" "nat (t_z t + 1) = Suc z" "z < length ps - 2" "z < length ps"
    using True at t(2) by (auto simp: z_def thread_at_def Let_def)
  have d: "d + 8 \<le> chunk_end (c_bytes c) (c_threads c) i" "t_d t = int d"
    using at t(2) chunk_word by (auto simp: thread_at_def Let_def)
  obtain w where w: "load64 m0 (ps ! z) d = Some w"
    using stripe_load64 [OF p(1) z(4) d(1)] by auto
  then have wm: "load64 m (ps ! z) d = Some w" using encodes_on_data [OF p(1) enc p(3) z(3)] by simp
  let ?t = "t\<lparr>t_wp0 := t_wp0 t XOR w,
    t_wq0 := (SHLBYTE (t_wq0 t) XOR (MASK (t_wq0 t) AND NBYTES 0x1d)) XOR w, t_z := t_z t - 1\<rparr>"
  have idx: "ptr_index m (c_ptrs c) (int z) = Some (ps ! z)" "ptr_index m0 (c_ptrs c) (int z) = Some (ps ! z)"
    using stripe_ptr_index [OF st, of "int z"] stripe_ptr_index [OF p(1), of "int z"] z(4) by simp_all
  show ?thesis
  proof (rule step_ok_localI [of m t m ?t])
    show "thread_step m t = Some (m, ?t)"
      using t True idx(1) wm d(2) by (simp add: thread_step_def load_disk_def thread_arg_def z(1))
    have "thread_at c m0 ps S T i ?t d"
      using at t(2) idx(2) w z(2) by (simp add: thread_at_def Let_def z(1))
    then show "thread_inv c m0 ps S T i ?t" using t(1) by (auto simp: thread_inv_def)
    show "thread_work ?t < thread_work t" using t(2) z(1) by (simp add: thread_work_def Let_def)
  qed (rule enc)
qed

lemma step_Store_P:
  assumes pre: "smp_pre c m0 ps" "i < c_threads c" and enc: "encodes_on ps S T m0 m"
    and t: "t_data t = thread_arg c i" "t_pc t = Store_P" and at: "thread_at c m0 ps S T i t d"
  shows "step_ok c m0 ps S T i m t"
proof -
  note p = smp_preD [OF pre]
  have d: "d + 8 \<le> chunk_end (c_bytes c) (c_threads c) i" "t_d t = int d"
    "t_p t = ps ! (length ps - 2)" "chunk_start (c_bytes c) (c_threads c) i \<le> d"
    and ok: "words_ok m0 ps d (t_wp0 t) (t_wq0 t)"
    using at t(2) chunk_word by (auto simp: thread_at_def Let_def)
  obtain m' where m': "store64 m (ps ! (length ps - 2)) d (t_wp0 t) = Some m'"
    and e: "encodes_on ps (S \<union> {d..<d + 8}) T m0 m'"
    using encodes_on_store_p [OF p(1) enc p(3) d(1) ok] by auto
  have "thread_at c m0 ps (S \<union> {d..<d + 8}) T i (t\<lparr>t_pc := Store_Q\<rparr>) d"
    using thread_at_mono [OF at, of "S \<union> {d..<d + 8}" T] t(2) by (simp add: thread_at_def Let_def)
  then have inv: "thread_inv c m0 ps (S \<union> {d..<d + 8}) T i (t\<lparr>t_pc := Store_Q\<rparr>)"
    using t(1) by (auto simp: thread_inv_def)
  have step: "thread_step m t = Some (m', t\<lparr>t_pc := Store_Q\<rparr>)"
    using t(2) d m' by (simp add: thread_step_def store_word_def)
  have "thread_work (t\<lparr>t_pc := Store_Q\<rparr>) < thread_work t" using t(2) by (simp add: thread_work_def Let_def)
  then show ?thesis by (rule step_okI [OF step e inv]) (use d in auto)
qed

lemma step_Store_Q:
  assumes pre: "smp_pre c m0 ps" "i < c_threads c" and enc: "encodes_on ps S T m0 m"
    and t: "t_data t = thread_arg c i" "t_pc t = Store_Q" and at: "thread_at c m0 ps S T i t d"
  shows "step_ok c m0 ps S T i m t"
proof -
  note p = smp_preD [OF pre]
  let ?s = "chunk_start (c_bytes c) (c_threads c) i" and ?t = "t\<lparr>t_pc := Loop_Test, t_d := int (d + 8)\<rparr>"
  have d: "d + 8 \<le> chunk_end (c_bytes c) (c_threads c) i" "t_d t = int d"
    "t_q t = ps ! (length ps - 1)" "?s \<le> d"
    and ok: "words_ok m0 ps d (t_wp0 t) (t_wq0 t)"
    and r: "\<exists>r. d = ?s + 8 * r" and sub: "{?s..<d} \<subseteq> S" "{?s..<d} \<subseteq> T" "{d..<d + 8} \<subseteq> S"
    using at t(2) chunk_word by (auto simp: thread_at_def Let_def)
  obtain m' where m': "store64 m (ps ! (length ps - 1)) d (t_wq0 t) = Some m'"
    and e: "encodes_on ps S (T \<union> {d..<d + 8}) m0 m'"
    using encodes_on_store_q [OF p(1) enc p(3) d(1) ok] by auto
  have un: "{?s..<d + 8} = {?s..<d} \<union> {d..<d + 8}" using d(4) by auto
  have "\<exists>r. d + 8 = ?s + 8 * r" using r by (metis add.assoc mult_Suc_right add.commute)
  then have "thread_at c m0 ps S (T \<union> {d..<d + 8}) i ?t (d + 8)"
    using at t(2) d(1) sub unfolding thread_at_def Let_def un by (simp add: le_supI1)
  then have inv: "thread_inv c m0 ps S (T \<union> {d..<d + 8}) i ?t"
    using t(1) by (auto simp: thread_inv_def)
  have step: "thread_step m t = Some (m', ?t)"
    using t(2) d m' p(2) by (simp add: thread_step_def store_word_def NSIZE_def)
  have "thread_work ?t < thread_work t" using t(2) d(2) by (simp add: thread_work_def Let_def add.commute)
  then show ?thesis by (rule step_okI [OF step e inv]) (use d in auto)
qed

lemma thread_step_ok:
  assumes "smp_pre c m0 ps" "i < c_threads c" "encodes_on ps S T m0 m"
    "thread_inv c m0 ps S T i t" "t_pc t \<noteq> Exited"
  shows "step_ok c m0 ps S T i m t"
  using assms step_Entry [OF assms(1-3)] step_Loop_Test [OF assms(3)] step_Load_Top [OF assms(1-3)]
    step_Inner_Loop [OF assms(1-3)] step_Store_P [OF assms(1-3)] step_Store_Q [OF assms(1-3)]
  by (cases "t_pc t") (auto simp: thread_inv_def)

section \<open>Every run\<close>

lemma smp_inv_init:
  assumes "smp_pre c m0 ps"
  shows "smp_inv c m0 ps (smp_init m0)"
proof -
  have "encodes_on ps {} {} m0 m0" using assms encodes_on_refl by (auto simp: smp_pre_def)
  then show ?thesis by (auto simp: smp_inv_def main_inv_def smp_init_def intro!: exI [of _ "{}"])
qed

lemma main_inv_threads: "main_inv c s \<Longrightarrow> length (s_threads s) \<le> c_threads c"
  by (auto simp: main_inv_def Let_def split: main_pc.splits)

lemma main_inv_join: "main_inv c s \<Longrightarrow> s_main s = M_Join j \<Longrightarrow> i < j \<Longrightarrow> t_pc (s_threads s ! i) = Exited"
  by (simp add: main_inv_def Let_def)

lemma sum_list_update_less:
  fixes f :: "'a \<Rightarrow> nat"
  assumes "i < length ts" "f t < f (ts ! i)"
  shows "(\<Sum>t\<leftarrow>ts[i := t]. f t) < (\<Sum>t\<leftarrow>ts. f t)"
  using assms by (induction ts arbitrary: i) (auto split: nat.splits)

text \<open>Steps of the main thread.\<close>

lemma main_work_create:
  "i < c_threads c \<Longrightarrow>
     main_work c (M_Create i) = main_work c (M_Create (Suc i)) + thread_work (new_thread (thread_arg c i)) + 1"
  by (simp add: main_work_def upt_conv_Cons)

lemma smp_inv_main:
  assumes inv: "smp_inv c m0 ps s" and main: "main_inv c (s\<lparr>s_main := pc\<rparr>)"
  shows "smp_inv c m0 ps (s\<lparr>s_main := pc\<rparr>)"
  using inv main unfolding smp_inv_def by simp

lemma chunk_written:
  "i < c_threads c \<Longrightarrow>
     {chunk_start (c_bytes c) (c_threads c) i..<chunk_end (c_bytes c) (c_threads c) i} \<subseteq> written c"
  by (auto simp: written_def)

lemma main_inv_update:
  assumes "main_inv c s" "running s" "i < length (s_threads s)" "t_pc (s_threads s ! i) \<noteq> Exited"
  shows "main_inv c (s\<lparr>s_mem := m', s_threads := (s_threads s)[i := t']\<rparr>)"
proof (cases "s_main s")
  case (M_Join j)
  have "j \<le> i" using assms(1,4) M_Join by (meson linorder_not_le main_inv_join)
  then show ?thesis using assms(1) M_Join by (simp add: main_inv_def Let_def)
qed (use assms in \<open>simp_all add: main_inv_def running_def\<close>)

lemma smp_step_thread:
  assumes pre: "smp_pre c m0 ps" and inv: "smp_inv c m0 ps s" and run: "running s"
    and i: "i < length (s_threads s)" "t_pc (s_threads s ! i) \<noteq> Exited"
  shows "\<exists>m' t'. thread_step (s_mem s) (s_threads s ! i) = Some (m', t') \<and>
    smp_inv c m0 ps (s\<lparr>s_mem := m', s_threads := (s_threads s)[i := t']\<rparr>) \<and>
    smp_work c (s\<lparr>s_mem := m', s_threads := (s_threads s)[i := t']\<rparr>) < smp_work c s"
proof -
  obtain S T where ST: "S \<subseteq> written c" "T \<subseteq> written c" "encodes_on ps S T m0 (s_mem s)"
    and th: "\<And>j. j < length (s_threads s) \<Longrightarrow> thread_inv c m0 ps S T j (s_threads s ! j)"
    using inv unfolding smp_inv_def by blast
  have main: "main_inv c s" using inv by (simp add: smp_inv_def)
  have ic: "i < c_threads c" using main_inv_threads [OF main] i(1) by simp
  obtain m' t' S' T' where step: "thread_step (s_mem s) (s_threads s ! i) = Some (m', t')"
    and sub: "S \<subseteq> S'" "T \<subseteq> T'"
      "S' \<subseteq> S \<union> {chunk_start (c_bytes c) (c_threads c) i..<chunk_end (c_bytes c) (c_threads c) i}"
      "T' \<subseteq> T \<union> {chunk_start (c_bytes c) (c_threads c) i..<chunk_end (c_bytes c) (c_threads c) i}"
    and enc: "encodes_on ps S' T' m0 m'" and ti: "thread_inv c m0 ps S' T' i t'"
    and work: "thread_work t' < thread_work (s_threads s ! i)"
    using thread_step_ok [OF pre ic ST(3) th [OF i(1)] i(2)] unfolding step_ok_def by blast
  let ?s = "s\<lparr>s_mem := m', s_threads := (s_threads s)[i := t']\<rparr>"
  have w: "S' \<subseteq> written c" "T' \<subseteq> written c"
    using sub(3,4) ST(1,2) chunk_written [OF ic] by (meson Un_least order_trans)+
  have tj: "thread_inv c m0 ps S' T' j ((s_threads s)[i := t'] ! j)" if "j < length (s_threads s)" for j
    using ti thread_inv_mono [OF th [OF that] sub(1,2)] that by (cases "j = i") simp_all
  have "smp_inv c m0 ps ?s"
    unfolding smp_inv_def
  proof (intro conjI exI)
    show "main_inv c ?s" by (rule main_inv_update [OF main run i])
    show "\<forall>j < length (s_threads ?s). thread_inv c m0 ps S' T' j (s_threads ?s ! j)" using tj by simp
  qed (use w enc in simp_all)
  moreover have "smp_work c ?s < smp_work c s"
    using sum_list_update_less [OF i(1) work] by (simp add: smp_work_def)
  ultimately show ?thesis using step by blast
qed

text \<open>Every step keeps the invariant and makes the remaining work smaller.\<close>

lemma smp_step_inv:
  assumes pre: "smp_pre c m0 ps" and inv: "smp_inv c m0 ps s" and step: "smp_step c s s'"
  shows "smp_inv c m0 ps s' \<and> smp_work c s' < smp_work c s"
  using step
proof cases
  case (create i)
  have "thread_inv c m0 ps S T i (new_thread (thread_arg c i))" for S T
    by (simp add: thread_inv_def new_thread_def)
  moreover have "length (s_threads s) = i" using inv create by (simp add: smp_inv_def main_inv_def)
  ultimately have "smp_inv c m0 ps s'"
    using inv create unfolding smp_inv_def main_inv_def Let_def
    by (auto simp: less_Suc_eq nth_append)
  then show ?thesis using create main_work_create [of i c] by (simp add: smp_work_def)
next
  case (create_fails i)
  then show ?thesis
    using smp_inv_main [OF inv, of M_Exit] inv
    by (simp add: smp_work_def main_work_def smp_inv_def main_inv_def Let_def)
next
  case (all_created i)
  then show ?thesis
    using smp_inv_main [OF inv, of "M_Join 0"] inv
    by (simp add: smp_work_def main_work_def smp_inv_def main_inv_def Let_def)
next
  case (join i)
  then show ?thesis
    using smp_inv_main [OF inv, of "M_Join (Suc i)"] inv
    by (simp add: smp_work_def main_work_def smp_inv_def main_inv_def Let_def less_Suc_eq Suc_diff_Suc)
next
  case (join_fails i)
  then show ?thesis
    using smp_inv_main [OF inv, of M_Exit] inv
    by (simp add: smp_work_def main_work_def smp_inv_def main_inv_def Let_def)
next
  case (all_joined i)
  then show ?thesis
    using smp_inv_main [OF inv, of M_Return] inv
    by (simp add: smp_work_def main_work_def smp_inv_def main_inv_def Let_def)
next
  case (thread i m' t')
  then show ?thesis using smp_step_thread [OF pre inv thread(2-4)] by auto
next
  case (fault i)
  then show ?thesis using smp_step_thread [OF pre inv fault(2-4)] by auto
qed

interpretation smp_run: bounded_system "smp_step c" "\<lambda>s. smp_pre c m0 ps \<and> smp_inv c m0 ps s" "smp_work c" for c m0 ps
  by unfold_locales (use smp_step_inv in blast)+

lemma smp_steps_inv: "smp_pre c m0 ps \<Longrightarrow> smp_steps c (smp_init m0) s \<Longrightarrow> smp_inv c m0 ps s"
  using smp_run.inv_steps smp_inv_init by blast

lemma smp_run_length:
  assumes pre: "smp_pre c m0 ps" and run: "(smp_step c ^^ k) (smp_init m0) s"
  shows "smp_inv c m0 ps s \<and> smp_work c s + k \<le> smp_work c (smp_init m0)"
  using smp_run.run_length [OF run] pre smp_inv_init [OF pre] by blast

text \<open>When the main thread returns, exactly the words of the chunks have been computed.\<close>

lemma smp_inv_return:
  assumes inv: "smp_inv c m0 ps s" and ret: "s_main s = M_Return"
  shows "encodes_on ps (written c) (written c) m0 (s_mem s)"
proof -
  obtain S T where ST: "S \<subseteq> written c" "T \<subseteq> written c" "encodes_on ps S T m0 (s_mem s)"
    and th: "\<And>j. j < length (s_threads s) \<Longrightarrow> thread_inv c m0 ps S T j (s_threads s ! j)"
    using inv unfolding smp_inv_def by blast
  have len: "length (s_threads s) = c_threads c"
    and ex: "\<And>i. i < c_threads c \<Longrightarrow> t_pc (s_threads s ! i) = Exited"
    using inv ret by (simp_all add: smp_inv_def main_inv_def Let_def)
  have "{chunk_start (c_bytes c) (c_threads c) i..<chunk_end (c_bytes c) (c_threads c) i} \<subseteq> S \<inter> T"
    if i: "i < c_threads c" for i
    using th [of i] ex [OF i] len i chunk_done
    by (fastforce simp: thread_inv_def thread_at_def Let_def)
  then have "written c \<subseteq> S" "written c \<subseteq> T" unfolding written_def by auto
  then show ?thesis using ST by (simp add: subset_antisym)
qed

lemma written_covers: "0 < c_threads c \<Longrightarrow> {..<c_bytes c} \<subseteq> written c"
proof
  fix x assume n: "0 < c_threads c" and "x \<in> {..<c_bytes c}"
  then obtain i where i: "i < c_threads c" "chunk_start (c_bytes c) (c_threads c) i \<le> x"
    "x < chunk_stop (c_bytes c) (c_threads c) i"
    using chunks_cover [of x "c_bytes c" "c_threads c"] by auto
  have "chunk_stop (c_bytes c) (c_threads c) i \<le> chunk_end (c_bytes c) (c_threads c) i"
    unfolding chunk_end_def by linarith
  then show "x \<in> written c" using i unfolding written_def by fastforce
qed

lemma smp_return_encodes:
  assumes pre: "smp_pre c m0 ps" and inv: "smp_inv c m0 ps s" and ret: "s_main s = M_Return"
  shows "raid6_encodes ps (c_bytes c) m0 (s_mem s)"
proof -
  have n: "0 < c_threads c" "3 \<le> length ps"
    "stripe m0 (c_ptrs c) ps (smp_need (c_threads c) (c_bytes c))"
    using pre by (simp_all add: smp_pre_def smp_ok_def)
  show ?thesis
    by (rule encodes_on_raid6 [OF n(3) smp_inv_return [OF inv ret] n(2)])
       (use written_covers [OF n(1)] smp_need_ge(1) in auto)
qed

text \<open>A state in which the main thread still runs can step.\<close>

lemma smp_next_step:
  assumes inv: "main_inv c s" and run: "running s"
  shows "smp_step c s (smp_next c s)"
proof (cases "s_main s")
  case (M_Create i)
  then show ?thesis
    using smp_step.create [of s i c] smp_step.all_created [of s i c] by (auto simp: smp_next_def)
next
  case (M_Join i)
  show ?thesis
  proof (cases "i < c_threads c \<and> t_pc (s_threads s ! i) \<noteq> Exited")
    case True
    have "i < length (s_threads s)" using inv M_Join True by (simp add: main_inv_def Let_def)
    then obtain ys j zs where j: "List.extract (\<lambda>i. t_pc (s_threads s ! i) \<noteq> Exited) [0..<length (s_threads s)]
        = Some (ys, j, zs)" "j < length (s_threads s)" "t_pc (s_threads s ! j) \<noteq> Exited"
      using True extract_None_iff [of "\<lambda>i. t_pc (s_threads s ! i) \<noteq> Exited" "[0..<length (s_threads s)]"]
        extract_SomeE [of "\<lambda>i. t_pc (s_threads s ! i) \<noteq> Exited" "[0..<length (s_threads s)]"]
      by (cases "List.extract (\<lambda>i. t_pc (s_threads s ! i) \<noteq> Exited) [0..<length (s_threads s)]")
         (auto, metis atLeastLessThan_iff atLeast_upt in_set_conv_decomp lessThan_iff set_upt)
    show ?thesis
      using M_Join True j smp_step.thread [OF run j(2,3)] smp_step.fault [OF run j(2,3)]
      by (auto simp: smp_next_def split: option.splits)
  next
    case False
    then show ?thesis
      using M_Join smp_step.join [of s i c] smp_step.all_joined [of s i c] by (auto simp: smp_next_def)
  qed
qed (use run in \<open>simp_all add: running_def\<close>)

lemma smp_exec_final:
  assumes pre: "smp_pre c m0 ps" and inv: "smp_inv c m0 ps s" and fuel: "smp_work c s \<le> n"
  shows "smp_inv c m0 ps (smp_exec c n s) \<and> \<not> running (smp_exec c n s) \<and>
    smp_steps c s (smp_exec c n s)"
  using inv fuel
proof (induction n arbitrary: s)
  case 0
  then have "main_work c (s_main s) = 0" by (simp add: smp_work_def)
  then show ?case using 0(1) by (auto simp: running_def main_work_def split: main_pc.splits)
next
  case (Suc n)
  show ?case
  proof (cases "running s")
    case True
    have st: "smp_step c s (smp_next c s)"
      using smp_next_step [OF _ True] Suc.prems(1) by (simp add: smp_inv_def)
    then have "smp_inv c m0 ps (smp_next c s)" "smp_work c (smp_next c s) \<le> n"
      using smp_step_inv [OF pre Suc.prems(1) st] Suc.prems(2) by simp_all
    then show ?thesis using Suc.IH [of "smp_next c s"] st True by (auto intro: converse_rtranclp_into_rtranclp)
  qed (use Suc.prems in auto)
qed

section \<open>The contract\<close>

text \<open>In the scheduled run the system calls succeed, so it ends by returning.\<close>

lemma smp_next_no_exit: "s_main s \<noteq> M_Exit \<Longrightarrow> s_main (smp_next c s) \<noteq> M_Exit"
  by (auto simp: smp_next_def split: main_pc.splits option.splits)

lemma smp_exec_no_exit: "s_main s \<noteq> M_Exit \<Longrightarrow> s_main (smp_exec c n s) \<noteq> M_Exit"
  by (induction n arbitrary: s) (simp_all add: smp_next_no_exit)

lemma smp_gen_encodes_on:
  assumes "smp_ok n bytes" "stripe m a ps (smp_need n bytes)" "3 \<le> length ps" "length ps < 2 ^ 31"
    and c: "c = \<lparr>c_disks = int (length ps), c_bytes = bytes, c_ptrs = a, c_threads = n\<rparr>"
  shows "\<exists>m'. raid6_smp_gen_syndrome n (int (length ps)) bytes a m = Some m' \<and>
    encodes_on ps (written c) (written c) m m' \<and> raid6_encodes ps bytes m m'"
proof -
  have pre: "smp_pre c m ps" using assms by (simp add: smp_pre_def)
  let ?s = "smp_exec c (smp_work c (smp_init m)) (smp_init m)"
  have ex: "smp_inv c m ps ?s" "\<not> running ?s"
    using smp_exec_final [OF pre smp_inv_init [OF pre] order_refl] by simp_all
  have "s_main ?s \<noteq> M_Exit" by (rule smp_exec_no_exit) (simp add: smp_init_def)
  moreover have "s_main ?s \<noteq> M_Fault" using ex(1) by (auto simp: smp_inv_def main_inv_def Let_def)
  ultimately have ret: "s_main ?s = M_Return" using ex(2) by (simp add: running_def split: main_pc.splits)
  have "raid6_smp_gen_syndrome n (int (length ps)) bytes a m = Some (s_mem ?s)"
    using ret assms(1) unfolding c by (simp add: raid6_smp_gen_syndrome_def Let_def smp_ok_def)
  then show ?thesis
    using smp_inv_return [OF ex(1) ret] smp_return_encodes [OF pre ex(1) ret] by (simp add: c)
qed

text \<open>There is a run in which the main thread returns.\<close>

lemma smp_returns:
  assumes pre: "smp_pre c m ps"
  shows "\<exists>s. smp_steps c (smp_init m) s \<and> s_main s = M_Return"
proof -
  let ?s = "smp_exec c (smp_work c (smp_init m)) (smp_init m)"
  have ex: "smp_inv c m ps ?s" "\<not> running ?s" "smp_steps c (smp_init m) ?s"
    using smp_exec_final [OF pre smp_inv_init [OF pre] order_refl] by simp_all
  have "s_main ?s \<noteq> M_Exit" by (rule smp_exec_no_exit) (simp add: smp_init_def)
  moreover have "s_main ?s \<noteq> M_Fault" using ex(1) by (auto simp: smp_inv_def main_inv_def Let_def)
  ultimately have "s_main ?s = M_Return" using ex(2) by (simp add: running_def split: main_pc.splits)
  then show ?thesis using ex(3) by blast
qed

interpretation smp: raid6_generator "raid6_smp_gen_syndrome n" "smp_need n" "smp_ok n" for n
proof unfold_locales
  show "bytes \<le> smp_need n bytes" for bytes by (rule smp_need_ge)
  show "\<exists>m'. raid6_smp_gen_syndrome n (int (length ps)) bytes a m = Some m' \<and> raid6_encodes ps bytes m m'"
    if "stripe m a ps (smp_need n bytes)" "3 \<le> length ps" "length ps < 2 ^ 31" "smp_ok n bytes" for m a ps bytes
    using smp_gen_encodes_on [OF that(4,1-3) refl] by blast
qed

text \<open>The encoders that implement the RAID-6 contract.\<close>

definition raid6_encoder :: "(int \<Rightarrow> nat \<Rightarrow> ptr \<Rightarrow> mem \<Rightarrow> mem option) \<Rightarrow> (nat \<Rightarrow> nat) \<Rightarrow> (nat \<Rightarrow> bool) \<Rightarrow> bool" where
  "raid6_encoder gen need ok \<longleftrightarrow>
     gen = raid6_vanilla_gen_syndrome \<and> need = vanilla_need \<and> ok = vanilla_ok \<or>
     (\<exists>n. gen = raid6_smp_gen_syndrome n \<and> need = smp_need n \<and> ok = smp_ok n)"

lemma raid6_encoder_generator: "raid6_encoder gen need ok \<Longrightarrow> raid6_generator gen need ok"
  unfolding raid6_encoder_def using vanilla.raid6_generator_axioms smp.raid6_generator_axioms by blast

text \<open>When the word size times the number of threads divides the byte count, the threads write
  what the sequential encoder writes.\<close>

lemma chunk_aligned:
  assumes "bytes = 8 * k * n" "i < n"
  shows "chunk_start bytes n i = 8 * k * i" "chunk_end bytes n i = 8 * k * Suc i"
proof -
  have "bytes div n = 8 * k" using assms by simp
  moreover have "bytes = 8 * k * i + 8 * k" if "i + 1 = n" using that assms(1) by auto
  ultimately show "chunk_start bytes n i = 8 * k * i" "chunk_end bytes n i = 8 * k * Suc i"
    by (auto simp: chunk_start_def chunk_stop_def chunk_end_def)
qed

lemma written_aligned:
  assumes "c_bytes c = 8 * k * c_threads c" "0 < c_threads c"
  shows "written c = {..<c_bytes c}"
proof
  have "8 * k * Suc i \<le> c_bytes c" if "i < c_threads c" for i
    using that unfolding assms(1) by (intro mult_le_mono) simp_all
  then show "written c \<subseteq> {..<c_bytes c}"
    using chunk_aligned [OF assms(1)] unfolding written_def by fastforce
qed (rule written_covers [OF assms(2)])

lemma smp_need_aligned:
  assumes "bytes = 8 * k * n"
  shows "smp_need n bytes = bytes"
proof -
  have "chunk_end bytes n i \<le> bytes" if "i < n" for i
    using chunk_aligned(2) [OF assms that] that unfolding assms by (metis Suc_leI mult_le_mono2)
  then have "foldr max (map (chunk_end bytes n) xs) bytes = bytes" if "set xs \<subseteq> {..<n}" for xs
    using that by (induction xs) (auto simp: max_def)
  then show ?thesis by (simp add: smp_need_def atLeast0LessThan)
qed

section \<open>Properties\<close>

text \<open>C5. Every interleaving of the threads of \<open>raid6_smp_gen_syndrome\<close>: no thread ever makes an
  invalid access, and whenever the main thread has returned the stripe is encoded: exactly the
  words of the chunks have been written, each byte of them is the right one, nothing else has
  changed. Words on the border of two chunks may be written by both threads.\<close>

theorem smp_every_interleaving:
  assumes "smp_pre c m ps" "smp_steps c (smp_init m) s"
  shows "s_main s \<noteq> M_Fault \<and> (s_main s = M_Return \<longrightarrow>
    encodes_on ps (written c) (written c) m (s_mem s) \<and> raid6_encodes ps (c_bytes c) m (s_mem s))"
proof -
  have inv: "smp_inv c m ps s" by (rule smp_steps_inv [OF assms])
  then have "s_main s \<noteq> M_Fault" by (auto simp: smp_inv_def main_inv_def Let_def)
  then show ?thesis using smp_inv_return [OF inv] smp_return_encodes [OF assms(1) inv] by blast
qed

definition sample_call :: smp_call where
  "sample_call = \<lparr>c_disks = 4, c_bytes = 13, c_ptrs = 1, c_threads = 2\<rparr>"

lemma sample_pre: "smp_pre sample_call sample_mem [2, 3, 4, 5]"
proof -
  have "smp_need 2 13 = 14" by code_simp
  then show ?thesis using sample_stripe [of 14] by (simp add: smp_pre_def smp_ok_def sample_call_def)
qed

theorem smp_every_interleaving_witness:
  "\<exists>s. smp_steps sample_call (smp_init sample_mem) s \<and> s_main s = M_Return \<and>
     raid6_encodes [2, 3, 4, 5] 13 sample_mem (s_mem s)"
proof -
  obtain s where st: "smp_steps sample_call (smp_init sample_mem) s" and ret: "s_main s = M_Return"
    using smp_returns [OF sample_pre] by blast
  show ?thesis
    using smp_every_interleaving [OF sample_pre st] st ret by (auto simp: sample_call_def)
qed

text \<open>C13. Every run of the multi-threaded encoder ends: its length is bounded by the work the
  call sets up, and a state in which the main thread has neither returned nor exited can always
  step (no thread waits for another, the joins wait for threads that finish).\<close>

theorem smp_terminates:
  assumes "smp_pre c m ps" "(smp_step c ^^ k) (smp_init m) s"
  shows "k \<le> smp_work c (smp_init m) \<and>
    ((\<exists>s'. smp_step c s s') \<or> s_main s = M_Return \<or> s_main s = M_Exit)"
proof -
  have inv: "smp_inv c m ps s" and le: "smp_work c s + k \<le> smp_work c (smp_init m)"
    using smp_run_length [OF assms] by simp_all
  have "main_inv c s" using inv by (simp add: smp_inv_def)
  then have "running s \<Longrightarrow> smp_step c s (smp_next c s)" "s_main s \<noteq> M_Fault"
    using smp_next_step by (auto simp: main_inv_def Let_def)
  then show ?thesis using le by (cases "s_main s") (auto simp: running_def)
qed

theorem smp_terminates_witness:
  "smp_step sample_call (smp_init sample_mem) (smp_next sample_call (smp_init sample_mem)) \<and>
   (\<exists>s'. smp_step sample_call (smp_next sample_call (smp_init sample_mem)) s')"
proof -
  have "running (smp_init sample_mem)" by (simp add: running_def smp_init_def)
  moreover have "main_inv sample_call (smp_init sample_mem)" by (simp add: main_inv_def smp_init_def Let_def)
  ultimately have st: "smp_step sample_call (smp_init sample_mem) (smp_next sample_call (smp_init sample_mem))"
    by (intro smp_next_step)
  then have "(smp_step sample_call ^^ 1) (smp_init sample_mem) (smp_next sample_call (smp_init sample_mem))" by (simp only: relpowp_1)
  moreover have "s_main (smp_next sample_call (smp_init sample_mem)) = M_Create 1" by code_simp
  ultimately show ?thesis using smp_terminates [OF sample_pre] st by fastforce
qed

text \<open>C14. When eight times the number of threads divides the byte count, the multi-threaded
  encoder computes the same memory as the sequential one, for every interleaving.\<close>

theorem smp_equals_vanilla:
  assumes "stripe m a ps bytes" "3 \<le> length ps" "length ps < 2 ^ 31"
    and "bytes = 8 * k * n" "0 < n" "n < 2 ^ 31" "bytes < 2 ^ 31"
    and "c = \<lparr>c_disks = int (length ps), c_bytes = bytes, c_ptrs = a, c_threads = n\<rparr>"
    and "smp_steps c (smp_init m) s" "s_main s = M_Return"
  shows "Some (s_mem s) = raid6_vanilla_gen_syndrome (int (length ps)) bytes a m \<and>
    raid6_smp_gen_syndrome n (int (length ps)) bytes a m = raid6_vanilla_gen_syndrome (int (length ps)) bytes a m"
proof -
  have ok: "smp_ok n bytes" "smp_need n bytes = bytes"
    using smp_need_aligned [OF assms(4)] assms(5-7) by (simp_all add: smp_ok_def)
  have "(bytes + 7) div 8 = k * n" unfolding assms(4) mult.assoc by simp
  then have eight: "bytes = 8 * ((bytes + 7) div 8)" unfolding assms(4) by simp
  have w: "written c = {..<bytes}" using written_aligned [of c k] assms(4,5,8) by simp
  have pre: "smp_pre c m ps" using assms ok by (simp add: smp_pre_def)
  obtain v where v: "raid6_vanilla_gen_syndrome (int (length ps)) bytes a m = Some v"
    "encodes_on ps {..<bytes} {..<bytes} m v"
    using vanilla_encodes_on [OF assms(1-3) eight assms(7)] by auto
  have "encodes_on ps {..<bytes} {..<bytes} m (s_mem s)"
    using smp_inv_return [OF smp_steps_inv [OF pre assms(9)] assms(10)] w by simp
  moreover obtain m' where "raid6_smp_gen_syndrome n (int (length ps)) bytes a m = Some m'"
    "encodes_on ps {..<bytes} {..<bytes} m m'"
    using smp_gen_encodes_on [OF ok(1) _ assms(2,3,8)] assms(1) ok(2) w by auto
  ultimately show ?thesis using v encodes_on_unique by fastforce
qed

theorem smp_equals_vanilla_witness:
  "raid6_smp_gen_syndrome 2 4 16 1 sample_mem = raid6_vanilla_gen_syndrome 4 16 1 sample_mem"
proof -
  define c :: smp_call where
    "c = \<lparr>c_disks = int (length [2, 3, 4, 5 :: nat]), c_bytes = 16, c_ptrs = 1, c_threads = 2\<rparr>"
  have "smp_need 2 16 = 16" by code_simp
  then have pre: "smp_pre c sample_mem [2, 3, 4, 5]"
    using sample_stripe [of 16] by (simp add: smp_pre_def smp_ok_def c_def)
  obtain s where s: "smp_steps c (smp_init sample_mem) s" "s_main s = M_Return"
    using smp_returns [OF pre] by blast
  have "Some (s_mem s) = raid6_vanilla_gen_syndrome (int (length [2, 3, 4, 5 :: nat])) 16 1 sample_mem \<and>
      raid6_smp_gen_syndrome 2 (int (length [2, 3, 4, 5 :: nat])) 16 1 sample_mem =
      raid6_vanilla_gen_syndrome (int (length [2, 3, 4, 5 :: nat])) 16 1 sample_mem"
    by (rule smp_equals_vanilla [OF sample_stripe _ _ _ _ _ _ c_def s, of 1]) simp_all
  then show ?thesis by simp
qed


end
