(* ===== verification/Kernel_State.thy ===== *)
theory Kernel_State
  imports C_Memory
begin

unbundle bit_operations_syntax

text \<open>
  The state of the kernel module \<open>barracuda_kernel_module/raid6cuda.c\<close>: its global variables,
  with every semaphore (\<open>DECLARE_MUTEX\<close> starts at one) as a counter, the kernel objects the
  requests refer to, and the registrations of the module. \<open>actual_snc\<close> points to a container
  that is shared with the daemon; the field is \<^term>\<open>None\<close> while the pointer is not valid.
  \<open>nl_sent\<close> records the netlink messages sent to the daemon.
  The helpers \<open>pack_smc\<close>, \<open>kill_smc\<close> and \<open>barracuda_printk\<close> are here too.

  An oracle argument \<open>ok\<close> stands for the success of a kernel service (allocation, copy from or
  to user space).
\<close>

record syndrome_container =
  sc_disks :: int
  sc_bytes :: nat
  sc_ptrs :: ptr

text \<open>The function pointer \<open>call_usp\<close>.\<close>

datatype usp = call_usp_nl | call_usp_proc | call_usp_ioctl

record skb =
  skb_pid :: u32
  skb_data :: u64

record kstate =
  gen_syndrome_mutex :: nat
  conf_mutex :: nat
  call_usp_proc_mutex :: nat
  proc_read_mutex :: nat
  proc_write_mutex :: nat
  call_usp_ioctl_mutex :: nat
  ioctl_init_mutex :: nat
  ioctl_callback_mutex :: nat
  call_usp_nl_mutex :: nat
  PID :: u32
  configured :: int
  call_usp :: "usp option"
  procfs_wq_flag :: int
  ioctl_wq_enter_flag :: int
  nl_receive_flag :: int
  skb_global :: "skb option"
  nl_sent :: "(u32 \<times> u64) list"
  actual_snc :: "syndrome_container option"
  snc_addr :: u64
  k_mem :: mem
  k_base :: ptr
  k_next :: ptr

text \<open>The initial values of the globals, before \<open>barracuda_start\<close>; \<open>addr\<close> is the address of the
  variable \<open>actual_snc\<close>, \<open>m\<close> the kernel memory. The objects below \<open>k_base\<close> belong to the rest of the
  kernel, those from \<open>k_base\<close> to \<open>k_next\<close> have been allocated by the module.\<close>

definition module_init :: "u64 \<Rightarrow> mem \<Rightarrow> ptr \<Rightarrow> kstate" where
  "module_init addr m n = \<lparr>gen_syndrome_mutex = 1, conf_mutex = 1, call_usp_proc_mutex = 1,
     proc_read_mutex = 1, proc_write_mutex = 1, call_usp_ioctl_mutex = 1, ioctl_init_mutex = 1,
     ioctl_callback_mutex = 1, call_usp_nl_mutex = 1, PID = 0, configured = 0, call_usp = None,
     procfs_wq_flag = 2, ioctl_wq_enter_flag = 1, nl_receive_flag = 2, skb_global = None, nl_sent = [],
     actual_snc = None, snc_addr = addr, k_mem = m, k_base = n, k_next = n\<rparr>"

text \<open>Error numbers.\<close>

definition EFAULT :: int where
  "EFAULT = 14"

definition EOVERFLOW :: int where
  "EOVERFLOW = 75"

definition EIO :: int where
  "EIO = 5"

section \<open>Syndrome containers\<close>

text \<open>The copy loop \<open>int_dptrs[i] = ptrs[i]\<close>.\<close>

fun copy_dptrs :: "mem \<Rightarrow> ptr \<Rightarrow> ptr \<Rightarrow> nat list \<Rightarrow> mem option" where
  "copy_dptrs m int_dptrs ptrs [] = Some m"
| "copy_dptrs m int_dptrs ptrs (i # is) = do {
     p \<leftarrow> ptr_index m ptrs (int i);
     m \<leftarrow> ptr_assign m int_dptrs (int i) p;
     copy_dptrs m int_dptrs ptrs is }"

text \<open>\<open>vmalloc\<close> of zero bytes, or of the huge size a negative count converts to, returns the null
  pointer; the entries of a new array are indeterminate, here null.\<close>

definition pack_smc :: "bool \<Rightarrow> int \<Rightarrow> nat \<Rightarrow> ptr \<Rightarrow> kstate \<Rightarrow> (syndrome_container \<times> kstate) option" where
  "pack_smc ok disks bytes ptrs s =
     (if \<not> ok \<or> disks \<le> 0 then Some (\<lparr>sc_disks = 0, sc_bytes = 0, sc_ptrs = null\<rparr>, s)
      else do {
        let int_dptrs = k_next s;
        let m = (k_mem s)(int_dptrs \<mapsto> Ptrs (replicate (nat disks) null));
        m \<leftarrow> copy_dptrs m int_dptrs ptrs [0..<nat disks];
        Some (\<lparr>sc_disks = disks, sc_bytes = bytes, sc_ptrs = int_dptrs\<rparr>,
              s\<lparr>k_mem := m, k_next := Suc int_dptrs\<rparr>) })"

definition kill_smc :: "syndrome_container \<Rightarrow> kstate \<Rightarrow> kstate option" where
  "kill_smc snc s = do {
     m \<leftarrow> c_free (k_mem s) (sc_ptrs snc);
     Some (s\<lparr>k_mem := m\<rparr>) }"

section \<open>Printing\<close>

text \<open>\<open>barracuda_printk\<close> builds the format string in a buffer of \<open>13 + strlen(logout)\<close> bytes;
  \<open>vmalloc\<close> hands out whole pages. The result is the text handed to \<open>vprintk\<close>, if any.\<close>

definition LOGLEVEL :: int where
  "LOGLEVEL = 5"

definition PAGE_SIZE :: nat where
  "PAGE_SIZE = 4096"

definition vmalloc_size :: "nat \<Rightarrow> nat" where
  "vmalloc_size n = PAGE_SIZE * ((n + (PAGE_SIZE - 1)) div PAGE_SIZE)"

definition printk_prefix :: string where
  "printk_prefix = ''BARRACUDA :  ''"

definition barracuda_printk :: "int \<Rightarrow> string \<Rightarrow> string option outcome" where
  "barracuda_printk loglevel logout = (let
     size = 13 + length logout;
     footer = printk_prefix @ logout in
     if vmalloc_size size < length footer + 1 then Fault
     else if loglevel = 0 then Go (Some footer)
     else if loglevel \<le> LOGLEVEL then Go (Some footer) else Go None)"

section \<open>Lemmas\<close>

definition heap_ok :: "kstate \<Rightarrow> bool" where
  "heap_ok s \<longleftrightarrow> 0 < k_base s \<and> k_base s \<le> k_next s \<and> (\<forall>p. k_next s \<le> p \<longrightarrow> k_mem s p = None)"

lemma vmalloc_size_full: "vmalloc_size n < n + 1 \<longleftrightarrow> n mod 4096 = 0"
proof -
  define q r where "q = n div 4096" and "r = n mod 4096"
  have n: "n = 4096 * q + r" and r: "r < 4096" unfolding q_def r_def by simp_all
  have "(n + 4095) div 4096 = (if r = 0 then q else q + 1)"
  proof (cases "r = 0")
    case False
    then have "n + 4095 = (r - 1) + 4096 * (q + 1)" unfolding n by simp
    then show ?thesis using r False by (simp add: div_mult_self2)
  qed (simp add: n)
  then show ?thesis
    unfolding r_def [symmetric] by (simp add: vmalloc_size_def PAGE_SIZE_def n) (use r in linarith)
qed

lemma copy_dptrs_prefix:
  assumes "ptrs_at m a = Some ps" "n \<le> length ps" "ptrs_at m b = Some qs" "length qs = n" "a \<noteq> b" "i \<le> n"
  shows "copy_dptrs m b a [i..<n] = Some (m(b \<mapsto> Ptrs (take i qs @ drop i (take n ps))))"
  using assms
proof (induction "n - i" arbitrary: i m qs)
  case 0
  have "b \<noteq> null \<and> m b = Some (Ptrs qs)"
    using 0(4) by (auto simp: ptrs_at_def obj_at_def split: if_splits option.splits obj.splits)
  then show ?case using 0 by (simp add: fun_upd_idem)
next
  case (Suc k)
  then have i: "i < n" by simp
  have b: "b \<noteq> null"
    using Suc.prems(3) by (auto simp: ptrs_at_def obj_at_def split: if_splits)
  have step: "copy_dptrs m b a [i..<n] = copy_dptrs (m(b \<mapsto> Ptrs (qs[i := ps ! i]))) b a [Suc i..<n]"
    using i Suc.prems by (simp add: upt_conv_Cons ptr_index_def ptr_assign_def)
  have "take (Suc i) (qs[i := ps ! i]) @ drop (Suc i) (take n ps) = take i qs @ drop i (take n ps)"
    using i Suc.prems(2,4) by (simp add: take_Suc_conv_app_nth Cons_nth_drop_Suc [symmetric])
  then show ?case
    unfolding step using Suc.hyps(1) [of "Suc i" "m(b \<mapsto> Ptrs (qs[i := ps ! i]))" "qs[i := ps ! i]"]
      Suc.hyps(2) Suc.prems i b by simp
qed

lemma pack_smc_ok:
  assumes "heap_ok s" "ptrs_at (k_mem s) a = Some ps" "0 < n" "n \<le> length ps"
  shows "pack_smc True (int n) bytes a s =
    Some (\<lparr>sc_disks = int n, sc_bytes = bytes, sc_ptrs = k_next s\<rparr>,
          s\<lparr>k_mem := (k_mem s)(k_next s \<mapsto> Ptrs (take n ps)), k_next := Suc (k_next s)\<rparr>)"
proof -
  let ?b = "k_next s" and ?m = "(k_mem s)(k_next s \<mapsto> Ptrs (replicate n null))"
  have "k_mem s a \<noteq> None" using assms(2) by (auto simp: ptrs_at_def obj_at_def split: if_splits option.splits)
  then have ab: "a \<noteq> ?b" using assms(1) by (auto simp: heap_ok_def)
  have b: "?b \<noteq> null" using assms(1) by (simp add: heap_ok_def)
  have "copy_dptrs ?m ?b a [0..<n] = Some (?m(?b \<mapsto> Ptrs (take 0 (replicate n null) @ drop 0 (take n ps))))"
    by (rule copy_dptrs_prefix) (use assms ab b in simp_all)
  then show ?thesis using assms(3) by (simp add: pack_smc_def Let_def)
qed

section \<open>Properties\<close>

text \<open>Packing and releasing a request: the container carries the caller's disk and byte
  counts and a fresh array with the caller's disk pointers; releasing it gives back the memory
  as it was. When the allocation fails the container is empty.\<close>

theorem pack_kill_roundtrip:
  assumes "heap_ok s" "ptrs_at (k_mem s) a = Some ps" "0 < n" "n \<le> length ps"
  shows "\<exists>snc s'. pack_smc True (int n) bytes a s = Some (snc, s') \<and> heap_ok s' \<and>
    sc_disks snc = int n \<and> sc_bytes snc = bytes \<and> ptrs_at (k_mem s') (sc_ptrs snc) = Some (take n ps) \<and>
    (\<forall>p. p \<noteq> sc_ptrs snc \<longrightarrow> k_mem s' p = k_mem s p) \<and>
    (\<exists>s''. kill_smc snc s' = Some s'' \<and> k_mem s'' = k_mem s) \<and>
    pack_smc False (int n) bytes a s = Some (\<lparr>sc_disks = 0, sc_bytes = 0, sc_ptrs = null\<rparr>, s)"
proof -
  have b: "k_next s \<noteq> null" "k_mem s (k_next s) = None" using assms(1) by (simp_all add: heap_ok_def)
  then have "(k_mem s)(k_next s \<mapsto> x, k_next s := None) = k_mem s" for x by (simp add: fun_upd_idem)
  then show ?thesis
    using pack_smc_ok [OF assms, of bytes] assms(1) b
    by (auto simp: heap_ok_def kill_smc_def c_free_def pack_smc_def)
qed

definition sample_kstate :: kstate where
  "sample_kstate = module_init 0x1000 [1 \<mapsto> Ptrs [2, 3], 2 \<mapsto> Bytes [7], 3 \<mapsto> Bytes [8]] 4"

theorem pack_kill_roundtrip_witness:
  "\<exists>snc s'. pack_smc True 2 4096 1 sample_kstate = Some (snc, s') \<and>
     ptrs_at (k_mem s') (sc_ptrs snc) = Some [2, 3]"
proof -
  have "heap_ok sample_kstate" by (simp add: heap_ok_def sample_kstate_def module_init_def)
  moreover have "ptrs_at (k_mem sample_kstate) 1 = Some [2, 3]"
    by (simp add: sample_kstate_def module_init_def ptrs_at_def obj_at_def)
  ultimately show ?thesis using pack_kill_roundtrip [of sample_kstate 1 "[2, 3]" 2 4096] by auto
qed

text \<open>The format string \<open>barracuda_printk\<close> builds needs \<open>14 + strlen(logout)\<close> bytes, one more
  than it allocates: the terminating zero byte lies outside the pages of the buffer exactly when
  the allocated size is a multiple of the page size. Otherwise the text is printed with its
  prefix unless the log level is above 5.\<close>

theorem printk_off_by_one:
  "barracuda_printk loglevel logout =
     (if (13 + length logout) mod 4096 = 0 then Fault
      else Go (if loglevel \<le> 5 then Some (''BARRACUDA :  '' @ logout) else None))"
proof -
  let ?n = "13 + length logout"
  have "vmalloc_size ?n < ?n + 1 \<longleftrightarrow> ?n mod 4096 = 0" by (rule vmalloc_size_full)
  moreover have "length (printk_prefix @ logout) = ?n" by (simp add: printk_prefix_def)
  ultimately show ?thesis
    unfolding barracuda_printk_def Let_def LOGLEVEL_def by (simp only:) (simp add: printk_prefix_def)
qed

end
