(* ===== verification/Kernel_Conf.thy ===== *)
theory Kernel_Conf
  imports Kernel_State
begin

unbundle bit_operations_syntax

text \<open>
  The configuration file \<open>/proc/barracuda/conf\<close> of the kernel module: \<open>conf_write\<close> takes the
  commands \<open>pid=<number>\<close> and \<open>con=<transport>\<close>, \<open>conf_read\<close> answers whether the module is in use.
  \<open>strsep\<close>, \<open>strcmp\<close> and \<open>simple_strtoul\<close> are modelled on character lists; dereferencing the null
  pointer \<open>strsep\<close> leaves behind when there is no separator is a fault, and so is the store
  \<open>input[count]\<close> outside the array. The messages \<open>conf_write\<close> prints are left out; the pointer
  that \<open>simple_strtoul\<close> stores through its second argument lands in \<open>input\<close> and is never read.

  The lemmas give the effect of every branch, the configuration dialogue of the daemon (with
  the decimal number it prints), and the branches that return with the lock held.
\<close>

definition c_string :: "string \<Rightarrow> string" where
  "c_string bs = takeWhile (\<lambda>c. c \<noteq> CHR 0x00) bs"

fun strsep :: "char \<Rightarrow> string \<Rightarrow> string \<times> string option" where
  "strsep d [] = ([], None)"
| "strsep d (c # cs) = (if c = d then ([], Some cs) else (let (i, v) = strsep d cs in (c # i, v)))"

definition digit_value :: "char \<Rightarrow> nat" where
  "digit_value c = of_char c - 48"

definition is_digit :: "char \<Rightarrow> bool" where
  "is_digit c \<longleftrightarrow> (48 :: nat) \<le> of_char c \<and> (of_char c :: nat) \<le> 57"

fun strtoul_from :: "string \<Rightarrow> u64 \<Rightarrow> u64" where
  "strtoul_from [] acc = acc"
| "strtoul_from (c # cs) acc =
     (if is_digit c then strtoul_from cs (acc * 10 + of_nat (digit_value c)) else acc)"

definition simple_strtoul :: "string \<Rightarrow> u64" where
  "simple_strtoul v = strtoul_from v 0"

definition conf_length :: nat where
  "conf_length = 40"

definition choose_connection :: "usp \<Rightarrow> kstate \<Rightarrow> kstate" where
  "choose_connection f s = s\<lparr>call_usp := Some f, configured := 1,
     gen_syndrome_mutex := gen_syndrome_mutex s + 1\<rparr>"

text \<open>The two steps of the dialogue, once the command is in \<open>input\<close>.\<close>

definition conf_set_pid :: "string \<Rightarrow> string option \<Rightarrow> kstate \<Rightarrow> kstate option" where
  "conf_set_pid instruction value s =
     (if instruction = ''pid'' then do {
        v \<leftarrow> value;
        Some (s\<lparr>PID := ucast (simple_strtoul v)\<rparr>) }
      else Some s)"

definition conf_set_con :: "string \<Rightarrow> string option \<Rightarrow> kstate \<Rightarrow> kstate option" where
  "conf_set_con instruction value s =
     (if instruction = ''con'' then do {
        v \<leftarrow> value;
        let s = (if v = ''NL'' then choose_connection call_usp_nl s else s);
        let s = (if v = ''PROCFS'' then choose_connection call_usp_proc s else s);
        let s = (if v = ''IOCTL'' then choose_connection call_usp_ioctl s else s);
        Some s }
      else Some s)"

definition conf_write :: "bool \<Rightarrow> string \<Rightarrow> nat \<Rightarrow> kstate \<Rightarrow> (int \<times> kstate) outcome" where
  "conf_write ok buffer count s =
     (if conf_mutex s = 0 then Block else
      let s = s\<lparr>conf_mutex := conf_mutex s - 1\<rparr> in
      if configured s = 1 then Go (size_to_int (of_nat count), s)
      else if count > conf_length then Go (- EOVERFLOW, s)
      else if \<not> ok then Go (- EFAULT, s)
      else if \<not> count < conf_length then Fault
      else let input = c_string (take count buffer);
               (instruction, value) = strsep (CHR ''='') input in
        case (if PID s = 0 then conf_set_pid instruction value s
              else conf_set_con instruction value s) of
          None \<Rightarrow> Fault
        | Some s' \<Rightarrow> Go (size_to_int (of_nat count), s'\<lparr>conf_mutex := conf_mutex s' + 1\<rparr>))"

text \<open>\<open>conf_read\<close> writes the string \<open>n\<close> with its terminator to the page and reports three bytes.\<close>

definition conf_read :: "string \<Rightarrow> (int \<times> string) option" where
  "conf_read page =
     (if 2 \<le> length page then Some (3, overwrite page 0 [CHR ''n'', CHR 0x00]) else None)"

section \<open>Decimal numbers\<close>

text \<open>The conversion \<open>%d\<close> with which the daemon prints its process id.\<close>

function decimal :: "nat \<Rightarrow> string" where
  "decimal n = (if n < 10 then [char_of (48 + n)] else decimal (n div 10) @ [char_of (48 + n mod 10)])"
  by pat_completeness auto
termination by (relation "measure id") auto

declare decimal.simps [simp del]

lemma digit_char: "k < 10 \<Longrightarrow> is_digit (char_of (48 + k)) \<and> digit_value (char_of (48 + k)) = k"
  by (simp add: is_digit_def digit_value_def)

lemma strtoul_from_append:
  "\<forall>c \<in> set xs. is_digit c \<Longrightarrow> strtoul_from (xs @ ys) acc = strtoul_from ys (strtoul_from xs acc)"
  by (induction xs arbitrary: acc) auto

lemma decimal_digits: "\<forall>c \<in> set (decimal n). is_digit c"
proof (induction n rule: decimal.induct)
  case (1 n)
  then show ?case using digit_char by (subst decimal.simps) auto
qed

lemma strtoul_decimal: "simple_strtoul (decimal n) = of_nat n"
  unfolding simple_strtoul_def
proof (induction n rule: decimal.induct)
  case (1 n)
  show ?case
  proof (cases "n < 10")
    case True
    then show ?thesis using digit_char by (subst decimal.simps) simp
  next
    case False
    have "of_nat (n div 10) * 10 + of_nat (n mod 10) = (of_nat n :: u64)"
      by (metis div_mult_mod_eq of_nat_add of_nat_mult of_nat_numeral)
    then show ?thesis
      using False 1 [OF False] digit_char [of "n mod 10"] decimal_digits
      by (subst decimal.simps) (simp add: strtoul_from_append)
  qed
qed

lemma decimal_no_sep: "CHR 0x00 \<notin> set (decimal n)"
  using decimal_digits [of n] by (auto simp: is_digit_def)

lemma length_decimal: "n < 10 ^ k \<Longrightarrow> 0 < k \<Longrightarrow> length (decimal n) \<le> k"
proof (induction n arbitrary: k rule: decimal.induct)
  case (1 n)
  show ?case
  proof (cases "n < 10")
    case False
    then have "1 < k" using 1(2,3) by (cases k; cases "k - 1") auto
    then obtain j where j: "k = Suc j" "0 < j" by (cases k) auto
    have "n div 10 < 10 ^ j" using 1(2) unfolding j by (simp add: less_mult_imp_div_less)
    then show ?thesis using 1(1) [OF False, of j] False j by (subst decimal.simps) simp
  qed (use 1 in \<open>subst decimal.simps, simp\<close>)
qed

lemma strsep_found: "d \<notin> set xs \<Longrightarrow> strsep d (xs @ d # ys) = (xs, Some ys)"
  by (induction xs) auto

lemma strsep_none: "d \<notin> set xs \<Longrightarrow> strsep d xs = (xs, None)"
  by (induction xs) auto

lemma c_string_id: "CHR 0x00 \<notin> set xs \<Longrightarrow> c_string xs = xs"
  by (auto simp: c_string_def takeWhile_eq_all_conv)

section \<open>Configuration\<close>

text \<open>What holds of the configuration between calls.\<close>

definition conf_inv :: "kstate \<Rightarrow> bool" where
  "conf_inv s \<longleftrightarrow> (configured s = 0 \<or> configured s = 1) \<and>
     (configured s = 1 \<longrightarrow> PID s \<noteq> 0 \<and> call_usp s \<noteq> None)"

lemma conf_write_cases:
  assumes "conf_write ok buffer count s = Go (r, s')"
  obtains (early) "s' = s\<lparr>conf_mutex := conf_mutex s - 1\<rparr>"
      "configured s = 1 \<and> r = size_to_int (of_nat count) \<or> configured s \<noteq> 1 \<and> r < 0"
    | (command) i v s1 where "configured s \<noteq> 1" "count < 40" "ok"
      "strsep (CHR ''='') (c_string (take count buffer)) = (i, v)"
      "(if PID s = 0 then conf_set_pid i v (s\<lparr>conf_mutex := conf_mutex s - 1\<rparr>)
        else conf_set_con i v (s\<lparr>conf_mutex := conf_mutex s - 1\<rparr>)) = Some s1"
      "s' = s1\<lparr>conf_mutex := conf_mutex s1 + 1\<rparr>" "r = size_to_int (of_nat count)"
  using assms
  by (auto simp: conf_write_def Let_def EOVERFLOW_def EFAULT_def conf_length_def
      split: if_splits option.splits prod.splits)

lemma conf_set_pid_frame:
  "conf_set_pid i v s = Some s' \<Longrightarrow> \<exists>p. s' = s\<lparr>PID := p\<rparr>"
  by (auto simp: conf_set_pid_def bind_eq_Some_conv split: if_splits) (metis (no_types) kstate.surjective kstate.update_convs(10))

lemma conf_set_con_frame:
  "conf_set_con i v s = Some s' \<Longrightarrow> s' = s \<or> (\<exists>f. s' = choose_connection f s)"
  by (auto simp: conf_set_con_def bind_eq_Some_conv Let_def split: if_splits)

lemma conf_write_frame:
  assumes "conf_write ok buffer count s = Go (r, s')" "conf_mutex s \<noteq> 0"
  shows "(\<exists>f. s' = choose_connection f s) \<and> PID s \<noteq> 0 \<and> configured s \<noteq> 1 \<or>
    (\<exists>p k. s' = s\<lparr>PID := p, conf_mutex := k\<rparr> \<and> (configured s = 1 \<longrightarrow> p = PID s))"
  using assms(1)
proof (cases rule: conf_write_cases)
  case early
  then show ?thesis by (intro disjI2 exI [of _ "PID s"] exI [of _ "conf_mutex s - 1"]) simp
next
  case (command i v s1)
  let ?s = "s\<lparr>conf_mutex := conf_mutex s - 1\<rparr>"
  consider p where "s1 = ?s\<lparr>PID := p\<rparr>" | "s1 = ?s" | f where "PID s \<noteq> 0" "s1 = choose_connection f ?s"
    using command(5) conf_set_pid_frame [of i v ?s s1] conf_set_con_frame [of i v ?s s1]
    by (auto split: if_splits)
  then show ?thesis
  proof cases
    case (1 p)
    then show ?thesis using command by (intro disjI2 exI [of _ p] exI [of _ "Suc (conf_mutex s - 1)"]) simp
  next
    case 2
    then show ?thesis
      using command by (intro disjI2 exI [of _ "PID s"] exI [of _ "Suc (conf_mutex s - 1)"]) simp
  next
    case (3 f)
    then show ?thesis
      using command assms(2) by (intro disjI1 conjI exI [of _ f]) (simp_all add: choose_connection_def)
  qed
qed

lemma conf_connect:
  assumes "conf_mutex s = 1" "configured s = 0" "PID s \<noteq> 0"
    and "(name, f) \<in> {(''NL'', call_usp_nl), (''PROCFS'', call_usp_proc), (''IOCTL'', call_usp_ioctl)}"
  shows "conf_write True (''con='' @ name) (4 + length name) s =
    Go (4 + int (length name), choose_connection f s)"
proof -
  have name: "name \<in> {''NL'', ''PROCFS'', ''IOCTL''}" "CHR 0x00 \<notin> set name" using assms(4) by auto
  have tk: "take (4 + length name) (''con='' @ name) = ''con='' @ name" by simp
  have cs: "c_string (''con='' @ name) = ''con'' @ CHR ''='' # name"
    using name(2) by (subst c_string_id) auto
  have sep: "strsep (CHR ''='') (''con'' @ CHR ''='' # name) = (''con'', Some name)"
    by (rule strsep_found) simp
  have len: "length name < 10" using name(1) by auto
  have int: "size_to_int (of_nat (4 + length name)) = 4 + int (length name)"
    using size_to_int_of_nat [of "4 + length name"] len by simp
  have con: "conf_set_con ''con'' (Some name) t = Some (choose_connection f t)" for t
    using assms(4) by (auto simp: conf_set_con_def)
  show ?thesis
    using assms(1-3) len unfolding conf_write_def Let_def tk cs sep prod.case int
    by (simp add: conf_length_def con choose_connection_def)
qed

text \<open>The first command of the dialogue.\<close>

lemma conf_pid:
  assumes "conf_mutex s = 1" "configured s = 0" "PID s = 0" "n < 2 ^ 32"
  shows "conf_write True (''pid='' @ decimal n) (4 + length (decimal n)) s =
    Go (4 + int (length (decimal n)), s\<lparr>PID := of_nat n\<rparr>)"
proof -
  have len: "length (decimal n) \<le> 10" using length_decimal [of n 10] assms(4) by simp
  have pid: "ucast (of_nat n :: u64) = (of_nat n :: u32)" 
    using assms(4) by (simp add: unsigned_of_nat take_bit_nat_eq_self)
  have cs: "c_string (''pid='' @ decimal n) = ''pid'' @ CHR ''='' # decimal n"
    using decimal_no_sep by (subst c_string_id) auto
  have sep: "strsep (CHR ''='') (''pid'' @ CHR ''='' # decimal n) = (''pid'', Some (decimal n))"
    by (rule strsep_found) simp
  have int: "size_to_int (of_nat (4 + length (decimal n))) = 4 + int (length (decimal n))"
    using size_to_int_of_nat [of "4 + length (decimal n)"] len by simp
  have tk: "take (4 + length (decimal n)) (''pid='' @ decimal n) = ''pid='' @ decimal n" by simp
  have "conf_write True (''pid='' @ decimal n) (4 + length (decimal n)) s =
      Go (4 + int (length (decimal n)), s\<lparr>conf_mutex := 0, PID := of_nat n, conf_mutex := Suc 0\<rparr>)"
    using assms(1-3) len
    unfolding conf_write_def Let_def tk cs sep prod.case int conf_set_pid_def
    by (simp add: conf_length_def strtoul_decimal pid)
  also have "s\<lparr>conf_mutex := 0, PID := of_nat n, conf_mutex := Suc 0\<rparr> = s\<lparr>PID := of_nat n\<rparr>" using assms(1) by simp
  finally show ?thesis .
qed

section \<open>Properties\<close>

text \<open>The dialogue of the daemon with a module that is started and not yet configured: writing
  \<open>pid=<n>\<close> and then \<open>con=<transport>\<close> stores the process id, selects the transport, releases the
  \<open>gen_syndrome\<close> function and leaves the configuration unlocked; both writes report all bytes
  as taken.\<close>

theorem conf_dialogue:
  assumes "conf_mutex s = 1" "configured s = 0" "PID s = 0" "0 < n" "n < 2 ^ 32"
    and "(name, f) \<in> {(''NL'', call_usp_nl), (''PROCFS'', call_usp_proc), (''IOCTL'', call_usp_ioctl)}"
  shows "\<exists>s1 s2.
    conf_write True (''pid='' @ decimal n) (4 + length (decimal n)) s = Go (4 + int (length (decimal n)), s1) \<and>
    conf_write True (''con='' @ name) (4 + length name) s1 = Go (4 + int (length name), s2) \<and>
    s2 = s\<lparr>PID := of_nat n, call_usp := Some f, configured := 1,
      gen_syndrome_mutex := gen_syndrome_mutex s + 1\<rparr>"
proof -
  let ?s1 = "s\<lparr>PID := of_nat n\<rparr>"
  have nz: "(of_nat n :: u32) \<noteq> 0"
    using assms(4,5) by (simp add: word_of_nat_eq_0_iff nat_dvd_not_less)
  have one: "conf_write True (''pid='' @ decimal n) (4 + length (decimal n)) s =
      Go (4 + int (length (decimal n)), ?s1)"
    by (rule conf_pid) (use assms in simp_all)
  have "conf_write True (''con='' @ name) (4 + length name) ?s1 =
      Go (4 + int (length name), choose_connection f ?s1)"
    by (rule conf_connect) (use assms(1,2,6) nz in simp_all)
  then show ?thesis using one by (simp add: choose_connection_def)
qed

theorem conf_dialogue_witness:
  "\<exists>s1 s2. conf_write True ''pid=47'' 6 sample_kstate = Go (6, s1) \<and>
     conf_write True ''con=IOCTL'' 9 s1 = Go (9, s2) \<and> PID s2 = 47 \<and> call_usp s2 = Some call_usp_ioctl"
proof -
  have d: "decimal 47 = ''47''" by code_simp
  have s: "conf_mutex sample_kstate = 1" "configured sample_kstate = 0" "PID sample_kstate = 0"
    by (simp_all add: sample_kstate_def module_init_def)
  have "\<exists>s1 s2. conf_write True (''pid='' @ decimal 47) (4 + length (decimal 47)) sample_kstate
        = Go (4 + int (length (decimal 47)), s1) \<and>
      conf_write True (''con='' @ ''IOCTL'') (4 + length ''IOCTL'') s1 = Go (4 + int (length ''IOCTL''), s2) \<and>
      s2 = sample_kstate\<lparr>PID := of_nat 47, call_usp := Some call_usp_ioctl, configured := 1,
        gen_syndrome_mutex := gen_syndrome_mutex sample_kstate + 1\<rparr>"
    by (rule conf_dialogue [OF s]) simp_all
  then obtain s1 s2 where r: "conf_write True ''pid=47'' 6 sample_kstate = Go (6, s1)"
      "conf_write True ''con=IOCTL'' 9 s1 = Go (9, s2)"
      "s2 = sample_kstate\<lparr>PID := of_nat 47, call_usp := Some call_usp_ioctl, configured := 1,
        gen_syndrome_mutex := gen_syndrome_mutex sample_kstate + 1\<rparr>"
    unfolding d by auto
  show ?thesis by (intro exI [of _ s1] exI [of _ s2] conjI r(1,2)) (simp_all add: r(3))
qed

text \<open>C21. \<open>conf_write\<close> keeps the configuration consistent: a configured module has a process id and
  a transport, the transport is chosen at most once, and the \<open>gen_syndrome\<close> semaphore goes up
  exactly when that happens.\<close>

theorem conf_write_invariant:
  assumes "conf_inv s" "conf_write ok buffer count s = Go (r, s')"
  shows "conf_inv s' \<and>
    int (gen_syndrome_mutex s') - configured s' = int (gen_syndrome_mutex s) - configured s \<and>
    (configured s = 1 \<longrightarrow> configured s' = 1 \<and> call_usp s' = call_usp s \<and> PID s' = PID s)"
proof -
  have "conf_mutex s \<noteq> 0" using assms(2) by (auto simp: conf_write_def split: if_splits)
  then show ?thesis
    using conf_write_frame [OF assms(2)] assms(1)
    by (auto simp: conf_inv_def choose_connection_def)
qed

theorem conf_write_invariant_witness:
  "\<exists>s'. conf_write True ''pid=1'' 5 sample_kstate = Go (5, s') \<and> conf_inv s'"
proof -
  have inv: "conf_inv sample_kstate" by (simp add: conf_inv_def sample_kstate_def module_init_def)
  have "\<exists>s'. conf_write True ''pid=1'' 5 sample_kstate = Go (5, s')"
    using size_to_int_of_nat [of 5]
    by (simp add: conf_write_def Let_def sample_kstate_def module_init_def conf_length_def c_string_def
        conf_set_pid_def)
  then show ?thesis using conf_write_invariant [OF inv] by blast
qed

text \<open>The early returns keep the configuration lock: after a write to a module that is already
  configured, a write that is too long or a failed copy from user space, every further write
  to the file blocks. A command without \<open>=\<close> after \<open>pid\<close> or \<open>con\<close> dereferences a null pointer, a
  command of exactly 40 bytes stores its terminator outside the array.\<close>

theorem conf_write_lock_leak:
  assumes "conf_mutex s = 1" "configured s = 1 \<or> count > 40 \<or> count < 40 \<and> \<not> ok"
  shows "\<exists>r s'. conf_write ok buffer count s = Go (r, s') \<and>
    (\<forall>ok' buffer' count'. conf_write ok' buffer' count' s' = Block)"
  using assms by (auto simp: conf_write_def Let_def conf_length_def)

theorem conf_write_lock_leak_witness:
  "\<exists>r s'. conf_write True ''x'' 41 sample_kstate = Go (r, s') \<and> conf_write True ''pid=1'' 5 s' = Block"
  using conf_write_lock_leak [of sample_kstate 41 True "''x''"]
  by (auto simp: sample_kstate_def module_init_def)

text \<open>The writes that crash the kernel on a module that is not configured and whose file is not
  locked: exactly those of 40 bytes, and those whose first word is \<open>pid\<close> (before a process id is
  known) or \<open>con\<close> (after that) with nothing behind it.\<close>

theorem conf_write_faults:
  assumes "conf_mutex s = 1" "configured s = 0"
  shows "conf_write True buffer count s = Fault \<longleftrightarrow>
    count = 40 \<or> count < 40 \<and>
      c_string (take count buffer) = (if PID s = 0 then ''pid'' else ''con'')"
proof -
  have none: "strsep d xs = (i, None) \<Longrightarrow> i = xs \<and> d \<notin> set xs" for d xs i
    by (induction xs arbitrary: i) (auto split: if_splits prod.splits)
  have key: "(fst (strsep (CHR ''='') xs) = k \<and> snd (strsep (CHR ''='') xs) = None) \<longleftrightarrow> xs = k"
    if "CHR ''='' \<notin> set k" for xs k
    using none [of "CHR ''=''" xs] strsep_none [OF that] by (cases "strsep (CHR ''='') xs") auto
  let ?p = "strsep (CHR ''='') (c_string (take count buffer))"
  obtain i v where iv: "?p = (i, v)" by (cases ?p)
  have "conf_write True buffer count s = Fault \<longleftrightarrow> count = 40 \<or> count < 40 \<and>
      fst ?p = (if PID s = 0 then ''pid'' else ''con'') \<and> snd ?p = None"
    using assms iv
    by (cases v) (auto simp: conf_write_def Let_def conf_length_def conf_set_pid_def conf_set_con_def)
  then show ?thesis using key [of "''pid''"] key [of "''con''"] by auto
qed

theorem conf_write_faults_witness: "conf_write True ''pid'' 3 sample_kstate = Fault"
  using conf_write_faults [of sample_kstate "''pid''" 3]
  by (simp add: sample_kstate_def module_init_def c_string_def)

end
