(* ===== verification/Host_Service.thy ===== *)
theory Host_Service
  imports Dummy MultRS Smp Kernel_Conf
begin

unbundle bit_operations_syntax

text \<open>
  The helpers of the daemon in \<open>service.cu\<close> and its self-test in \<open>validator.cu\<close>: the example stripes
  they allocate, the count of the processors, the comparison of two syndromes.

  The heap is a memory with the number of its next object. An \<open>alloc\<close> says which allocations
  succeed and what the new buffers contain. \<open>cpu_file\<close> is the content of
  \<open>/sys/devices/system/cpu/online\<close>, \<^term>\<open>None\<close> when it cannot be opened. The clock functions
  \<open>gtd_second\<close> and \<open>second\<close> are not modelled.
\<close>

record heap =
  h_mem :: mem
  h_next :: ptr

record alloc =
  avail :: "ptr \<Rightarrow> bool"
  fill :: "ptr \<Rightarrow> nat \<Rightarrow> u8"

definition malloc_obj :: "alloc \<Rightarrow> int \<Rightarrow> (ptr \<Rightarrow> obj) \<Rightarrow> heap \<Rightarrow> ptr \<times> heap" where
  "malloc_obj e sz f h =
     (if 0 \<le> sz \<and> avail e (h_next h)
      then (h_next h, h\<lparr>h_mem := (h_mem h)(h_next h \<mapsto> f (h_next h)), h_next := Suc (h_next h)\<rparr>)
      else (null, h\<lparr>h_next := Suc (h_next h)\<rparr>))"

definition malloc_bytes :: "alloc \<Rightarrow> int \<Rightarrow> heap \<Rightarrow> ptr \<times> heap" where
  "malloc_bytes e n = malloc_obj e n (\<lambda>p. Bytes (map (fill e p) [0..<nat n]))"

definition malloc_ptrs :: "alloc \<Rightarrow> int \<Rightarrow> heap \<Rightarrow> ptr \<times> heap" where
  "malloc_ptrs e n = malloc_obj e n (\<lambda>p. Ptrs (replicate (nat n) null))"

section \<open>Example stripes\<close>

fun allocate_disks :: "alloc \<Rightarrow> int \<Rightarrow> ptr \<Rightarrow> nat list \<Rightarrow> heap \<Rightarrow> heap option" where
  "allocate_disks e bytes dptrs [] h = Some h"
| "allocate_disks e bytes dptrs (i # is) h = (let (p, h) = malloc_bytes e bytes h in do {
     m \<leftarrow> ptr_assign (h_mem h) dptrs (int i) p;
     allocate_disks e bytes dptrs is (h\<lparr>h_mem := m\<rparr>) })"

definition allocate_host_example_dpointer :: "alloc \<Rightarrow> int \<Rightarrow> int \<Rightarrow> heap \<Rightarrow> (ptr \<times> heap) option" where
  "allocate_host_example_dpointer e bytes number_of_disks h =
     (let (dptrs, h) = malloc_ptrs e number_of_disks h in do {
        h \<leftarrow> allocate_disks e bytes dptrs [0..<nat number_of_disks] h;
        Some (dptrs, h) })"

fun deallocate_disks :: "ptr \<Rightarrow> nat list \<Rightarrow> mem \<Rightarrow> mem option" where
  "deallocate_disks dptrs [] m = Some m"
| "deallocate_disks dptrs (i # is) m = do {
     p \<leftarrow> ptr_index m dptrs (int i);
     m \<leftarrow> c_free m p;
     deallocate_disks dptrs is m }"

definition deallocate_host_example_dpointer :: "int \<Rightarrow> ptr \<Rightarrow> mem \<Rightarrow> mem option" where
  "deallocate_host_example_dpointer number_of_disks dptrs m = do {
     m \<leftarrow> deallocate_disks dptrs [0..<nat number_of_disks] m;
     c_free m dptrs }"

text \<open>The numbers printed by \<open>print_dpointer\<close>: two per byte. It takes the entries \<open>disks\<close> and
  \<open>disks + 1\<close> of the array.\<close>

fun print_bytes :: "mem \<Rightarrow> ptr \<Rightarrow> ptr \<Rightarrow> nat list \<Rightarrow> nat list option" where
  "print_bytes m xor_d syn_d [] = Some []"
| "print_bytes m xor_d syn_d (i # is) = do {
     x \<leftarrow> load8 m xor_d i;
     y \<leftarrow> load8 m syn_d i;
     out \<leftarrow> print_bytes m xor_d syn_d is;
     Some (unat x # unat y # out) }"

definition print_dpointer :: "int \<Rightarrow> int \<Rightarrow> ptr \<Rightarrow> mem \<Rightarrow> nat list option" where
  "print_dpointer disks bytes ptrs m = do {
     xor_d \<leftarrow> ptr_index m ptrs disks;
     syn_d \<leftarrow> ptr_index m ptrs (disks + 1);
     print_bytes m xor_d syn_d [0..<nat bytes] }"

section \<open>The number of processors\<close>

text \<open>\<open>strtok\<close> skips separators and takes the characters up to the next one.\<close>

definition strtok :: "string \<Rightarrow> char \<Rightarrow> (string \<times> string) option" where
  "strtok str d = (let s = dropWhile (\<lambda>c. c = d) str in
     if s = [] then None else Some (takeWhile (\<lambda>c. c \<noteq> d) s, drop 1 (dropWhile (\<lambda>c. c \<noteq> d) s)))"

definition is_space :: "char \<Rightarrow> bool" where
  "is_space c \<longleftrightarrow> c \<in> {CHR '' '', CHR 0x09, CHR 0x0A, CHR 0x0B, CHR 0x0C, CHR 0x0D}"

fun atoi_digits :: "string \<Rightarrow> int \<Rightarrow> int" where
  "atoi_digits [] acc = acc"
| "atoi_digits (c # cs) acc = (if is_digit c then atoi_digits cs (acc * 10 + int (digit_value c)) else acc)"

definition atoi :: "string \<Rightarrow> int" where
  "atoi str = (case dropWhile is_space str of
     [] \<Rightarrow> 0
   | c # cs \<Rightarrow> if c = CHR ''-'' then - atoi_digits cs 0
               else if c = CHR ''+'' then atoi_digits cs 0 else atoi_digits (c # cs) 0)"

text \<open>\<open>fgets\<close> with 256 bytes reads at most 255 characters and stops after the end of the line; at the
  end of the file it stores nothing and \<open>buffer\<close> stays indeterminate.\<close>

definition fgets :: "string \<Rightarrow> string option" where
  "fgets content = (let line = take 255 content in
     if line = [] then None
     else Some (takeWhile (\<lambda>c. c \<noteq> CHR 0x0A) line @
                (if CHR 0x0A \<in> set line then [CHR 0x0A] else [])))"

text \<open>The new value of \<open>NUMBER_OF_CPUS_INSTALLED\<close>; \<open>atoi(NULL)\<close> is undefined.\<close>

definition set_internal_vars :: "string option \<Rightarrow> int option" where
  "set_internal_vars cpu_file = (case cpu_file of
     None \<Rightarrow> Some 1
   | Some content \<Rightarrow> do {
       buffer \<leftarrow> fgets content;
       (token, rest) \<leftarrow> strtok (c_string buffer) (CHR ''-'');
       (n_buffer, rest) \<leftarrow> strtok rest (CHR ''-'');
       n \<leftarrow> c_int (atoi n_buffer);
       c_int (n + 1) })"

definition get_number_of_phys_cpus :: "int \<Rightarrow> int" where
  "get_number_of_phys_cpus NUMBER_OF_CPUS_INSTALLED = NUMBER_OF_CPUS_INSTALLED"

section \<open>The validator\<close>

fun compare_bytes :: "mem \<Rightarrow> ptr \<Rightarrow> ptr \<Rightarrow> ptr \<Rightarrow> ptr \<Rightarrow> nat list \<Rightarrow> int option" where
  "compare_bytes m xor_van xor_cho syn_van syn_cho [] = Some EXIT_SUCCESS"
| "compare_bytes m xor_van xor_cho syn_van syn_cho (i # is) = do {
     a \<leftarrow> load8 m xor_van i;
     b \<leftarrow> load8 m xor_cho i;
     if a \<noteq> b then Some EXIT_FAILURE else do {
       c \<leftarrow> load8 m syn_van i;
       d \<leftarrow> load8 m syn_cho i;
       if c \<noteq> d then Some EXIT_FAILURE else compare_bytes m xor_van xor_cho syn_van syn_cho is } }"

definition compare_syndrome :: "int \<Rightarrow> int \<Rightarrow> ptr \<Rightarrow> ptr \<Rightarrow> mem \<Rightarrow> int option" where
  "compare_syndrome disks bytes ptrs_van ptrs_cho m = do {
     xor_van \<leftarrow> ptr_index m ptrs_van (disks - 2);
     xor_cho \<leftarrow> ptr_index m ptrs_cho (disks - 2);
     syn_van \<leftarrow> ptr_index m ptrs_van (disks - 1);
     syn_cho \<leftarrow> ptr_index m ptrs_cho (disks - 1);
     compare_bytes m xor_van xor_cho syn_van syn_cho [0..<nat bytes] }"

fun fill_disks :: "ptr \<Rightarrow> ptr \<Rightarrow> nat \<Rightarrow> nat list \<Rightarrow> mem \<Rightarrow> mem option" where
  "fill_disks van cho bytes [] m = Some m"
| "fill_disks van cho bytes (i # is) m = do {
     p \<leftarrow> ptr_index m van (int i);
     m \<leftarrow> c_memset m p (of_nat i) bytes;
     p \<leftarrow> ptr_index m cho (int i);
     m \<leftarrow> c_memset m p (of_nat i) bytes;
     fill_disks van cho bytes is m }"

text \<open>The output with \<open>VALIDATOR_EXPLICIT_OUTPUT\<close>: the first 128 bytes of the two check disks, of the
  chosen and of the first implementation.\<close>

fun explicit_output :: "ptr \<Rightarrow> ptr \<Rightarrow> nat list \<Rightarrow> mem \<Rightarrow> u8 list list option" where
  "explicit_output van cho [] m = Some []"
| "explicit_output van cho (i # is) m = do {
     p \<leftarrow> ptr_index m cho (int i);
     xs \<leftarrow> read_bytes m p 0 128;
     q \<leftarrow> ptr_index m van (int i);
     ys \<leftarrow> read_bytes m q 0 128;
     out \<leftarrow> explicit_output van cho is m;
     Some (xs # ys # out) }"

type_synonym syndrome_func = "int \<Rightarrow> nat \<Rightarrow> ptr \<Rightarrow> mem \<Rightarrow> mem option"

definition validate_implemenataion :: "alloc \<Rightarrow> syndrome_func \<Rightarrow> syndrome_func list \<Rightarrow> heap \<Rightarrow> (int \<times> heap) option" where
  "validate_implemenataion e gen_syndrome gen_syndrome_list h = do {
     vanilla_gen_syndrome \<leftarrow> (case gen_syndrome_list of [] \<Rightarrow> None | g # gs \<Rightarrow> Some g);
     (van, h) \<leftarrow> allocate_host_example_dpointer e 512 7 h;
     (cho, h) \<leftarrow> allocate_host_example_dpointer e 512 7 h;
     m \<leftarrow> fill_disks van cho 512 [0..<7] (h_mem h);
     m \<leftarrow> vanilla_gen_syndrome 7 512 van m;
     m \<leftarrow> gen_syndrome 7 512 cho m;
     retval \<leftarrow> compare_syndrome 7 512 van cho m;
     out \<leftarrow> explicit_output van cho [5..<7] m;
     p \<leftarrow> ptr_index m van 0;
     m \<leftarrow> c_free m p;
     m \<leftarrow> c_free m van;
     q \<leftarrow> ptr_index m cho 0;
     m \<leftarrow> c_free m q;
     m \<leftarrow> c_free m cho;
     Some (retval, h\<lparr>h_mem := m\<rparr>) }"

section \<open>Lemmas\<close>

definition heap_fresh :: "heap \<Rightarrow> bool" where
  "heap_fresh h \<longleftrightarrow> 0 < h_next h \<and> (\<forall>p \<ge> h_next h. h_mem h p = None)"

text \<open>The memory after an example stripe has been allocated: the array and the buffers behind it.\<close>

definition example_mem :: "alloc \<Rightarrow> nat \<Rightarrow> nat \<Rightarrow> nat \<Rightarrow> ptr \<Rightarrow> ptr list \<Rightarrow> mem \<Rightarrow> mem" where
  "example_mem e bytes j n a qs m = (\<lambda>p. if p \<in> {Suc a + j..<Suc a + n} then Some (Bytes (map (fill e p) [0..<bytes]))
     else if p = a then Some (Ptrs (take j qs @ [Suc a + j..<Suc a + n])) else m p)"

lemma allocate_disks_from:
  assumes "\<forall>p. avail e p" "0 < a" "length qs = n" "j \<le> n" "h_next h = Suc a + j" "ptrs_at (h_mem h) a = Some qs"
  shows "allocate_disks e (int bytes) a [j..<n] h =
    Some \<lparr>h_mem = example_mem e bytes j n a qs (h_mem h), h_next = Suc a + n\<rparr>"
  using assms(3-)
proof (induction "n - j" arbitrary: j h qs)
  case 0
  then have j: "j = n" by simp
  have "h_mem h a = Some (Ptrs qs)"
    using 0(5) by (auto simp: ptrs_at_def obj_at_def split: if_splits option.splits obj.splits)
  then have "example_mem e bytes n n a qs (h_mem h) = h_mem h" using 0(2) by (auto simp: example_mem_def fun_eq_iff)
  then show ?case using 0 by (cases h) (simp add: j)
next
  case (Suc k)
  then have j: "j < n" by simp
  let ?p = "Suc a + j" and ?qs = "qs[j := Suc a + j]"
  let ?m = "(h_mem h)(?p \<mapsto> Bytes (map (fill e ?p) [0..<bytes]))"
  let ?h = "\<lparr>h_mem = ?m(a \<mapsto> Ptrs ?qs), h_next = Suc a + Suc j\<rparr>"
  have "malloc_bytes e (int bytes) h = (?p, \<lparr>h_mem = ?m, h_next = Suc a + Suc j\<rparr>)"
    using assms(1) Suc.prems(3) by (cases h) (simp add: malloc_bytes_def malloc_obj_def)
  moreover have "ptr_assign ?m a (int j) ?p = Some (?m(a \<mapsto> Ptrs ?qs))"
    using Suc.prems(1,4) j by (simp add: ptr_assign_def)
  ultimately have step: "allocate_disks e (int bytes) a [j..<n] h = allocate_disks e (int bytes) a [Suc j..<n] ?h"
    using j by (simp add: upt_conv_Cons)
  have "allocate_disks e (int bytes) a [Suc j..<n] ?h =
      Some \<lparr>h_mem = example_mem e bytes (Suc j) n a ?qs (h_mem ?h), h_next = Suc a + n\<rparr>"
    using Suc.hyps(1) [of "Suc j" ?qs ?h] Suc.hyps(2) Suc.prems(1) assms(2) j by simp
  moreover have "take (Suc j) ?qs @ [Suc a + Suc j..<Suc a + n] = take j qs @ [Suc a + j..<Suc a + n]"
    using j Suc.prems(1) by (simp add: take_Suc_conv_app_nth upt_conv_Cons)
  then have "example_mem e bytes (Suc j) n a ?qs (h_mem ?h) = example_mem e bytes j n a qs (h_mem h)"
    using j by (auto simp: example_mem_def fun_eq_iff)
  ultimately show ?case unfolding step by simp
qed

lemma allocate_example:
  assumes "\<forall>p. avail e p" "0 < h_next h"
  shows "allocate_host_example_dpointer e (int bytes) (int n) h =
    Some (h_next h, \<lparr>h_mem = example_mem e bytes 0 n (h_next h) [] (h_mem h), h_next = Suc (h_next h) + n\<rparr>)"
proof -
  let ?h = "h\<lparr>h_mem := (h_mem h)(h_next h \<mapsto> Ptrs (replicate n null)), h_next := Suc (h_next h)\<rparr>"
  have "malloc_ptrs e (int n) h = (h_next h, ?h)" using assms(1) by (simp add: malloc_ptrs_def malloc_obj_def)
  moreover have "allocate_disks e (int bytes) (h_next h) [0..<n] ?h =
      Some \<lparr>h_mem = example_mem e bytes 0 n (h_next h) (replicate n null) (h_mem ?h), h_next = Suc (h_next h) + n\<rparr>"
    by (rule allocate_disks_from) (use assms in simp_all)
  moreover have "example_mem e bytes 0 n (h_next h) (replicate n null) (h_mem ?h) =
      example_mem e bytes 0 n (h_next h) [] (h_mem h)" by (auto simp: example_mem_def fun_eq_iff)
  ultimately show ?thesis by (simp add: allocate_host_example_dpointer_def)
qed

lemma deallocate_disks_from:
  assumes "ptrs_at m a = Some [Suc a..<Suc a + n]" "\<forall>p \<in> {Suc a + j..<Suc a + n}. m p \<noteq> None" "j \<le> n"
  shows "deallocate_disks a [j..<n] m = Some (\<lambda>p. if p \<in> {Suc a + j..<Suc a + n} then None else m p)"
  using assms
proof (induction "n - j" arbitrary: j m)
  case (Suc k)
  then have j: "j < n" by simp
  let ?m = "m(Suc a + j := None)"
  have "ptr_index m a (int j) = Some (Suc a + j)" using Suc.prems(1) j by (simp add: ptr_index_def nth_upt del: upt_Suc)
  moreover have "c_free m (Suc a + j) = Some ?m" using Suc.prems(2) j by (force simp: c_free_def split: option.splits)
  ultimately have step: "deallocate_disks a [j..<n] m = deallocate_disks a [Suc j..<n] ?m" using j by (simp add: upt_conv_Cons)
  have "ptrs_at ?m a = ptrs_at m a" by (simp add: ptrs_at_def obj_at_def)
  then have "deallocate_disks a [Suc j..<n] ?m = Some (\<lambda>p. if p \<in> {Suc a + Suc j..<Suc a + n} then None else ?m p)"
    using Suc.hyps(1) [of "Suc j" ?m] Suc.hyps(2) Suc.prems j by auto
  then show ?case unfolding step using j by (auto simp: fun_eq_iff)
qed simp

lemma ptrs_at_example:
  assumes "0 < a"
  shows "ptrs_at (example_mem e bytes 0 n a [] m) a = Some [Suc a..<Suc a + n]"
  using assms by (simp add: example_mem_def ptrs_at_def obj_at_def)

text \<open>What \<open>fill_disks\<close> leaves in the memory.\<close>

definition filled_mem :: "nat \<Rightarrow> nat \<Rightarrow> nat \<Rightarrow> ptr \<Rightarrow> ptr \<Rightarrow> mem \<Rightarrow> mem" where
  "filled_mem bytes j n a b m = (\<lambda>p. if p \<in> {Suc a + j..<Suc a + n} then Some (Bytes (replicate bytes (of_nat (p - Suc a))))
     else if p \<in> {Suc b + j..<Suc b + n} then Some (Bytes (replicate bytes (of_nat (p - Suc b)))) else m p)"

lemma c_memset_all:
  assumes "m p = Some (Bytes bs)" "p \<noteq> null" "length bs = n"
  shows "c_memset m p v n = Some (m(p \<mapsto> Bytes (replicate n v)))"
  using assms by (simp add: c_memset_def write_bytes_def bytes_at_def obj_at_def overwrite_def)

lemma fill_disks_from:
  assumes "a + n < b" "j \<le> n" "ptrs_at m a = Some [Suc a..<Suc a + n]" "ptrs_at m b = Some [Suc b..<Suc b + n]"
    and "\<forall>p \<in> {Suc a + j..<Suc a + n} \<union> {Suc b + j..<Suc b + n}. \<exists>bs. m p = Some (Bytes bs) \<and> length bs = bytes"
  shows "fill_disks a b bytes [j..<n] m = Some (filled_mem bytes j n a b m)"
  using assms
proof (induction "n - j" arbitrary: j m)
  case 0
  then show ?case by (simp add: filled_mem_def)
next
  case (Suc k)
  then have j: "j < n" by simp
  let ?p = "Suc a + j" and ?q = "Suc b + j" and ?v = "Bytes (replicate bytes (of_nat j))"
  let ?m = "m(?p \<mapsto> ?v, ?q \<mapsto> ?v)"
  obtain bs where p: "m ?p = Some (Bytes bs)" "length bs = bytes" using bspec [OF Suc.prems(5), of ?p] j by auto
  obtain cs where q: "m ?q = Some (Bytes cs)" "length cs = bytes" using bspec [OF Suc.prems(5), of ?q] j by auto
  have ne: "?p \<noteq> ?q" "?p \<noteq> b" "?q \<noteq> a" using Suc.prems(1) j by auto
  have "ptr_index m a (int j) = Some ?p" "ptr_index (m(?p \<mapsto> ?v)) b (int j) = Some ?q"
    using Suc.prems(3,4) j ne by (simp_all add: ptr_index_def nth_upt del: upt_Suc)
  moreover have "c_memset m ?p (of_nat j) bytes = Some (m(?p \<mapsto> ?v))" using c_memset_all [of m ?p bs bytes] p by simp
  moreover have "c_memset (m(?p \<mapsto> ?v)) ?q (of_nat j) bytes = Some ?m"
    using c_memset_all [of "m(?p \<mapsto> ?v)" ?q cs bytes] q ne by simp
  ultimately have step: "fill_disks a b bytes [j..<n] m = fill_disks a b bytes [Suc j..<n] ?m"
    using j by (simp add: upt_conv_Cons)
  have keep: "\<exists>bs. ?m r = Some (Bytes bs) \<and> length bs = bytes"
    if "r \<in> {Suc a + Suc j..<Suc a + n} \<union> {Suc b + Suc j..<Suc b + n}" for r
    using bspec [OF Suc.prems(5), of r] that by auto
  have "fill_disks a b bytes [Suc j..<n] ?m = Some (filled_mem bytes (Suc j) n a b ?m)"
    by (rule Suc.hyps(1)) (use Suc.hyps(2) Suc.prems(1-4) j ne keep in auto)
  moreover have "filled_mem bytes (Suc j) n a b ?m = filled_mem bytes j n a b m"
  proof
    fix r show "filled_mem bytes (Suc j) n a b ?m r = filled_mem bytes j n a b m r"
      using j Suc.prems(1) by (cases "r = ?p"; cases "r = ?q") (auto simp: filled_mem_def)
  qed
  ultimately show ?case unfolding step by simp
qed

lemma compare_bytes_eq:
  assumes "bytes_at m a = Some as" "bytes_at m b = Some bs" "bytes_at m c = Some cs" "bytes_at m d = Some ds"
    and "\<forall>i \<in> set is. i < length as \<and> i < length bs \<and> i < length cs \<and> i < length ds"
  shows "compare_bytes m a b c d is =
    Some (if \<forall>i \<in> set is. as ! i = bs ! i \<and> cs ! i = ds ! i then EXIT_SUCCESS else EXIT_FAILURE)"
  using assms(5) by (induction "is") (use assms(1-4) in \<open>auto simp: load8_def\<close>)

text \<open>The two stripes of the validator: arrays at \<open>a\<close> and \<open>a + 8\<close>, buffers behind them.\<close>

definition validator_mem :: "alloc \<Rightarrow> heap \<Rightarrow> mem" where
  "validator_mem e h = (let a = h_next h in
     filled_mem 512 0 7 a (a + 8) (example_mem e 512 0 7 (a + 8) [] (example_mem e 512 0 7 a [] (h_mem h))))"

definition stripe7 :: "ptr \<Rightarrow> ptr list" where
  "stripe7 a = [Suc a..<Suc a + 7]"

lemma stripe7_nth: "i < 7 \<Longrightarrow> stripe7 a ! i = Suc a + i"
  by (simp add: stripe7_def del: upt_Suc)

lemma stripe7_simps [simp]: "length (stripe7 a) = 7" "stripe7 a \<noteq> []" "distinct (stripe7 a)" "set (stripe7 a) = {Suc a..<Suc a + 7}"
  by (simp_all add: stripe7_def del: upt_Suc)

lemma validator_mem_at:
  assumes "0 < h_next h"
  shows "ptrs_at (validator_mem e h) (h_next h) = Some (stripe7 (h_next h))"
    "ptrs_at (validator_mem e h) (h_next h + 8) = Some (stripe7 (h_next h + 8))"
    "i < 7 \<Longrightarrow> bytes_at (validator_mem e h) (Suc (h_next h) + i) = Some (replicate 512 (of_nat i))"
    "i < 7 \<Longrightarrow> bytes_at (validator_mem e h) (Suc (h_next h + 8) + i) = Some (replicate 512 (of_nat i))"
    "p \<notin> {h_next h..<h_next h + 16} \<Longrightarrow> validator_mem e h p = h_mem h p"
  using assms
  by (auto simp: validator_mem_def Let_def filled_mem_def example_mem_def ptrs_at_def bytes_at_def obj_at_def stripe7_def
      simp del: upt_Suc)

lemma validator_stripes:
  assumes "0 < h_next h"
  shows "stripe (validator_mem e h) (h_next h) (stripe7 (h_next h)) 512"
    "stripe (validator_mem e h) (h_next h + 8) (stripe7 (h_next h + 8)) 512"
proof -
  note at = validator_mem_at [OF assms, where e = e]
  have "\<exists>bs. bytes_at (validator_mem e h) p = Some bs \<and> 512 \<le> length bs"
    if p: "p \<in> set (stripe7 (h_next h)) \<or> p \<in> set (stripe7 (h_next h + 8))" for p
  proof -
    have "(\<exists>i < 7. p = Suc (h_next h) + i) \<or> (\<exists>i < 7. p = Suc (h_next h + 8) + i)"
      using p by (auto intro: exI [of _ "p - Suc (h_next h)"] exI [of _ "p - Suc (h_next h + 8)"])
    then show ?thesis using at(3,4) by fastforce
  qed
  then show "stripe (validator_mem e h) (h_next h) (stripe7 (h_next h)) 512"
    "stripe (validator_mem e h) (h_next h + 8) (stripe7 (h_next h + 8)) 512"
    using at(1,2) by (fastforce simp: stripe_def split: option.splits)+
qed

lemma validator_setup:
  assumes "\<forall>p. avail e p" "0 < h_next h"
  shows "\<exists>h1 h2. allocate_host_example_dpointer e 512 7 h = Some (h_next h, h1) \<and>
    allocate_host_example_dpointer e 512 7 h1 = Some (h_next h + 8, h2) \<and> h_next h2 = h_next h + 16 \<and>
    fill_disks (h_next h) (h_next h + 8) 512 [0..<7] (h_mem h2) = Some (validator_mem e h)"
proof -
  let ?a = "h_next h"
  let ?m1 = "example_mem e 512 0 7 ?a [] (h_mem h)"
  let ?m2 = "example_mem e 512 0 7 (?a + 8) [] ?m1"
  have one: "allocate_host_example_dpointer e 512 7 h = Some (?a, \<lparr>h_mem = ?m1, h_next = ?a + 8\<rparr>)"
    using allocate_example [OF assms, of 512 7] by simp
  have two: "allocate_host_example_dpointer e 512 7 \<lparr>h_mem = ?m1, h_next = ?a + 8\<rparr> =
      Some (?a + 8, \<lparr>h_mem = ?m2, h_next = ?a + 16\<rparr>)"
    using allocate_example [OF assms(1), of "\<lparr>h_mem = ?m1, h_next = ?a + 8\<rparr>" 512 7] by simp
  have "fill_disks ?a (?a + 8) 512 [0..<7] ?m2 = Some (filled_mem 512 0 7 ?a (?a + 8) ?m2)"
  proof (rule fill_disks_from)
    show "ptrs_at ?m2 ?a = Some [Suc ?a..<Suc ?a + 7]"
      using assms(2) by (simp add: example_mem_def ptrs_at_def obj_at_def del: upt_Suc)
    show "ptrs_at ?m2 (?a + 8) = Some [Suc (?a + 8)..<Suc (?a + 8) + 7]" by (rule ptrs_at_example) simp
    show "\<forall>p \<in> {Suc ?a + 0..<Suc ?a + 7} \<union> {Suc (?a + 8) + 0..<Suc (?a + 8) + 7}.
        \<exists>bs. ?m2 p = Some (Bytes bs) \<and> length bs = 512" by (auto simp: example_mem_def)
  qed simp_all
  then show ?thesis using one two by (auto simp: validator_mem_def Let_def)
qed

text \<open>The objects that are left: the buffers 1 to 6 of either stripe.\<close>

definition validator_leak :: "heap \<Rightarrow> mem \<Rightarrow> bool" where
  "validator_leak h m' \<longleftrightarrow> (\<forall>p. m' p \<noteq> None \<longleftrightarrow> h_mem h p \<noteq> None \<and> p \<notin> {h_next h..<h_next h + 16} \<or>
     p \<in> {h_next h + 2..<h_next h + 8} \<or> p \<in> {h_next h + 10..<h_next h + 16})"

lemma validate_run:
  assumes e: "\<forall>p. avail e p" "0 < h_next h" and a: "a = h_next h" and M: "M = validator_mem e h"
    and van: "vgen 7 512 a M = Some M1" "M1 = M(a + 6 \<mapsto> Bytes p1, a + 7 \<mapsto> Bytes q1)" "length p1 = 512" "length q1 = 512"
    and cho: "gen 7 512 (a + 8) M1 = Some M2" "M2 = M1(a + 14 \<mapsto> Bytes p2, a + 15 \<mapsto> Bytes q2)" "length p2 = 512" "length q2 = 512"
  shows "\<exists>h'. validate_implemenataion e gen (vgen # gs) h =
      Some (if p1 = p2 \<and> q1 = q2 then EXIT_SUCCESS else EXIT_FAILURE, h') \<and> validator_leak h (h_mem h')"
proof -
  note at = validator_mem_at [OF e(2), where e = e, folded a M]
  have M2: "M2 = M(a + 6 \<mapsto> Bytes p1, a + 7 \<mapsto> Bytes q1, a + 14 \<mapsto> Bytes p2, a + 15 \<mapsto> Bytes q2)"
    unfolding cho(2) van(2) ..
  have arr: "ptrs_at M2 a = Some (stripe7 a)" "ptrs_at M2 (a + 8) = Some (stripe7 (a + 8))"
    using at(1,2) e(2) a unfolding M2 by simp_all
  have ix: "ptr_index M2 a 0 = Some (a + 1)" "ptr_index M2 a 5 = Some (a + 6)" "ptr_index M2 a 6 = Some (a + 7)"
    "ptr_index M2 (a + 8) 0 = Some (a + 9)" "ptr_index M2 (a + 8) 5 = Some (a + 14)" "ptr_index M2 (a + 8) 6 = Some (a + 15)"
    using arr by (simp_all add: ptr_index_def stripe7_nth)
  have by_at: "bytes_at M2 (a + 6) = Some p1" "bytes_at M2 (a + 7) = Some q1" "bytes_at M2 (a + 14) = Some p2" "bytes_at M2 (a + 15) = Some q2"
    unfolding M2 by simp_all
  have cmp: "compare_syndrome 7 512 a (a + 8) M2 = Some (if p1 = p2 \<and> q1 = q2 then EXIT_SUCCESS else EXIT_FAILURE)"
  proof -
    have "(\<forall>i \<in> set [0..<512]. p1 ! i = p2 ! i \<and> q1 ! i = q2 ! i) \<longleftrightarrow> p1 = p2 \<and> q1 = q2"
      using van(3,4) cho(3,4) by (auto simp: list_eq_iff_nth_eq)
    then show ?thesis
      using compare_bytes_eq [OF by_at(1,3,2,4), of "[0..<512]"] van(3,4) cho(3,4) ix
      by (simp add: compare_syndrome_def)
  qed
  have "\<exists>out. explicit_output a (a + 8) [5..<7] M2 = Some out"
    using ix by_at van(3,4) cho(3,4) by (simp add: upt_rec read_bytes_def)
  then obtain out where out: "explicit_output a (a + 8) [5..<7] M2 = Some out" by blast
  have nine: "bytes_at M (a + 9) = Some (replicate 512 0)" using at(4) [of 0] by (simp add: add.commute)
  have live: "M2 a \<noteq> None" "M2 (a + 1) \<noteq> None" "M2 (a + 8) \<noteq> None" "M2 (a + 9) \<noteq> None"
    using arr at(3) [of 0] nine unfolding M2
    by (auto simp: ptrs_at_def bytes_at_def obj_at_def split: if_splits option.splits)
  let ?f = "M2(a + 1 := None, a := None, a + 9 := None, a + 8 := None)"
  have "ptr_index (M2(a + 1 := None, a := None)) (a + 8) 0 = ptr_index M2 (a + 8) 0"
    by (simp add: ptr_index_def ptrs_at_def obj_at_def)
  then have frees: "c_free M2 (a + 1) = Some (M2(a + 1 := None))" "c_free (M2(a + 1 := None)) a = Some (M2(a + 1 := None, a := None))"
    "ptr_index (M2(a + 1 := None, a := None)) (a + 8) 0 = Some (a + 9)"
    "c_free (M2(a + 1 := None, a := None)) (a + 9) = Some (M2(a + 1 := None, a := None, a + 9 := None))"
    "c_free (M2(a + 1 := None, a := None, a + 9 := None)) (a + 8) = Some ?f"
    using live ix e(2) a by (auto simp: c_free_def)
  obtain h1 h2 where h: "allocate_host_example_dpointer e 512 7 h = Some (a, h1)"
    "allocate_host_example_dpointer e 512 7 h1 = Some (a + 8, h2)" "fill_disks a (a + 8) 512 [0..<7] (h_mem h2) = Some M"
    using validator_setup [OF e] unfolding a M by blast
  have run: "validate_implemenataion e gen (vgen # gs) h =
      Some (if p1 = p2 \<and> q1 = q2 then EXIT_SUCCESS else EXIT_FAILURE, h2\<lparr>h_mem := ?f\<rparr>)"
    by (simp only: validate_implemenataion_def list.case Option.bind.bind_lunit prod.case h van(1) cho(1) cmp out ix(1) frees)
  have buffers: "M p \<noteq> None" if "p \<in> {a + 2..<a + 8} \<or> p \<in> {a + 10..<a + 16}" for p
  proof -
    have "bytes_at M p \<noteq> None"
      using that
    proof
      assume "p \<in> {a + 2..<a + 8}"
      then show ?thesis using at(3) [of "p - Suc a"] by auto
    next
      assume "p \<in> {a + 10..<a + 16}"
      then show ?thesis using at(4) [of "p - Suc (a + 8)"] by auto
    qed
    then show ?thesis by (auto simp: bytes_at_def obj_at_def split: if_splits option.splits)
  qed
  have "?f p \<noteq> None \<longleftrightarrow> h_mem h p \<noteq> None \<and> p \<notin> {a..<a + 16} \<or> p \<in> {a + 2..<a + 8} \<or> p \<in> {a + 10..<a + 16}" for p
  proof (cases "p \<in> {a..<a + 16}")
    case True
    then show ?thesis using buffers [of p] unfolding M2 by auto
  next
    case False
    then show ?thesis using at(5) [OF False] unfolding M2 by auto
  qed
  then show ?thesis using run unfolding validator_leak_def a by auto
qed


text \<open>An encoder run on either stripe of the validator: both check disks become constant.\<close>

definition validator_P :: "u8 list" where
  "validator_P = replicate 512 (xor_list (map of_nat [0..<5]))"

definition validator_Q :: "u8 list" where
  "validator_Q = replicate 512 (q_byte (map of_nat [0..<5]))"

lemma encodes_stripe7:
  assumes enc: "raid6_encodes (stripe7 b) 512 m m'"
    and data: "\<And>i. i < 7 \<Longrightarrow> bytes_at m (Suc b + i) = Some (replicate 512 (of_nat i))"
  shows "m' = m(b + 6 \<mapsto> Bytes validator_P, b + 7 \<mapsto> Bytes validator_Q)"
proof -
  have buf: "buf m (stripe7 b ! i) = replicate 512 (of_nat i)" if "i < 7" for i
    using data [OF that] stripe7_nth [OF that, of b] by (simp add: buf_def)
  have col: "column m (stripe7 b) 5 i = map of_nat [0..<5]" if "i < 512" for i
    using that buf by (auto simp: column_def simp del: upt_Suc)
  have ix: "length (stripe7 b) - 2 = 5" "stripe7 b ! 5 = b + 6" "stripe7 b ! (5 + 1) = b + 7"
    using stripe7_nth [of 5 b] stripe7_nth [of "5 + 1" b] by simp_all
  obtain pb qb where m': "m' = m(b + 6 \<mapsto> Bytes pb, b + 7 \<mapsto> Bytes qb)"
    and l: "length pb = 512" "length qb = 512"
    and v: "\<forall>i < 512. pb ! i = xor_list (column m (stripe7 b) 5 i) \<and> qb ! i = q_byte (column m (stripe7 b) 5 i)"
    using enc buf [of 5] buf [of "5 + 1"] unfolding raid6_encodes_def Let_def ix by auto
  have "pb = validator_P" "qb = validator_Q"
    using l v col unfolding validator_P_def validator_Q_def by (auto intro!: nth_equalityI)
  then show ?thesis using m' by simp
qed

lemma gen_stripe7:
  assumes gen: "raid6_generator gen need ok" "need 512 = 512" "ok 512" and st: "stripe m b (stripe7 b) 512"
    and data: "\<And>i. i < 7 \<Longrightarrow> bytes_at m (Suc b + i) = Some (replicate 512 (of_nat i))"
  shows "gen 7 512 b m = Some (m(b + 6 \<mapsto> Bytes validator_P, b + 7 \<mapsto> Bytes validator_Q))"
proof -
  have "\<exists>m'. gen 7 512 b m = Some m' \<and> raid6_encodes (stripe7 b) 512 m m'"
    using raid6_generator.gen_encodes [OF gen(1), of m b "stripe7 b" 512] st gen(2,3) by simp
  then show ?thesis using encodes_stripe7 [OF _ data] by blast
qed

lemma validator_first:
  assumes "\<forall>p. avail e p" "0 < h_next h" and a: "a = h_next h" and M: "M = validator_mem e h"
    and M1: "M1 = M(a + 6 \<mapsto> Bytes validator_P, a + 7 \<mapsto> Bytes validator_Q)"
  shows "raid6_vanilla_gen_syndrome 7 512 a M = Some M1"
    "stripe M1 (a + 8) (stripe7 (a + 8)) 512"
    "\<And>i. i < 7 \<Longrightarrow> bytes_at M1 (Suc (a + 8) + i) = Some (replicate 512 (of_nat i))"
proof -
  note at = validator_mem_at [OF assms(2), where e = e, folded a M]
  note st = validator_stripes [OF assms(2), where e = e, folded a M]
  show "raid6_vanilla_gen_syndrome 7 512 a M = Some M1" unfolding M1
    by (rule gen_stripe7 [OF vanilla.raid6_generator_axioms _ _ st(1) at(3)]) (simp_all add: vanilla_need_def vanilla_ok_def)
  show data: "bytes_at M1 (Suc (a + 8) + i) = Some (replicate 512 (of_nat i))" if "i < 7" for i
    using at(4) [OF that] unfolding M1 by (simp add: bytes_at_def obj_at_def)
  have "p \<in> set (stripe7 (a + 8)) \<Longrightarrow> M1 p = M p" for p unfolding M1 by simp
  then show "stripe M1 (a + 8) (stripe7 (a + 8)) 512"
    using st(2) unfolding stripe_def M1 by (auto simp: ptrs_at_def bytes_at_def obj_at_def)
qed

lemma validator_const_length [simp]: "length validator_P = 512" "length validator_Q = 512"
  by (simp_all add: validator_P_def validator_Q_def)

lemma validate_vanilla:
  assumes e: "\<forall>p. avail e p" "0 < h_next h" and a: "a = h_next h" and M: "M = validator_mem e h"
    and M1: "M1 = M(a + 6 \<mapsto> Bytes validator_P, a + 7 \<mapsto> Bytes validator_Q)"
    and cho: "gen 7 512 (a + 8) M1 = Some (M1(a + 14 \<mapsto> Bytes p, a + 15 \<mapsto> Bytes q))" "length p = 512" "length q = 512"
  shows "\<exists>h'. validate_implemenataion e gen (raid6_vanilla_gen_syndrome # gs) h =
      Some (if validator_P = p \<and> validator_Q = q then EXIT_SUCCESS else EXIT_FAILURE, h') \<and> validator_leak h (h_mem h')"
proof -
  define M2 where M2: "M2 = M1(a + 14 \<mapsto> Bytes p, a + 15 \<mapsto> Bytes q)"
  have len: "length validator_P = 512" "length validator_Q = 512" by simp_all
  show ?thesis
    by (rule validate_run [where vgen = raid6_vanilla_gen_syndrome and gen = gen, OF e a M validator_first(1) [OF e a M M1] M1 len cho(1) [folded M2] M2 cho(2,3)])
qed

lemma accepts_encoder:
  assumes "raid6_encoder gen need ok" "need 512 = 512" "ok 512" "\<forall>p. avail e p" "0 < h_next h"
  shows "\<exists>h'. validate_implemenataion e gen (raid6_vanilla_gen_syndrome # gs) h = Some (EXIT_SUCCESS, h') \<and>
    validator_leak h (h_mem h')"
proof -
  define a M where aM: "a = h_next h" "M = validator_mem e h"
  define M1 where M1: "M1 = M(a + 6 \<mapsto> Bytes validator_P, a + 7 \<mapsto> Bytes validator_Q)"
  note first = validator_first [OF assms(4,5) aM M1]
  have "gen 7 512 (a + 8) M1 = Some (M1(a + 14 \<mapsto> Bytes validator_P, a + 15 \<mapsto> Bytes validator_Q))"
    using gen_stripe7 [OF raid6_encoder_generator [OF assms(1)] assms(2,3) first(2,3)] by (simp add: add.commute)
  then show ?thesis using validate_vanilla [OF assms(4,5) aM M1, of gen validator_P validator_Q] by simp
qed

text \<open>The validator returns EXIT_SUCCESS for every encoder of the RAID-6 contract that writes no
  more than the 512 bytes it is asked for, whatever the allocated buffers contain, and it ends with
  six of the seven buffers of each of its two stripes still allocated: only the first is freed.\<close>

theorem validator_accepts:
  assumes "raid6_encoder gen need ok" "need 512 = 512" "ok 512" "\<forall>p. avail e p" "0 < h_next h"
  shows "\<exists>h'. validate_implemenataion e gen (raid6_vanilla_gen_syndrome # gs) h = Some (EXIT_SUCCESS, h') \<and>
    validator_leak h (h_mem h')"
  by (rule accepts_encoder [OF assms])

theorem validator_accepts_witness:
  "\<exists>h'. validate_implemenataion \<lparr>avail = \<lambda>_. True, fill = \<lambda>p i. 255\<rparr> (raid6_smp_gen_syndrome 4)
      [raid6_vanilla_gen_syndrome, raid6_dummy_gen_syndrome] \<lparr>h_mem = Map.empty, h_next = 1\<rparr> = Some (EXIT_SUCCESS, h') \<and>
    h_mem h' 3 \<noteq> None"
proof -
  have enc: "raid6_encoder (raid6_smp_gen_syndrome 4) (smp_need 4) (smp_ok 4)" unfolding raid6_encoder_def by blast
  have need: "smp_need 4 512 = 512"
    by (simp add: smp_need_def chunk_end_def chunk_start_def chunk_stop_def upt_rec)
  then have "smp_ok 4 512" by (simp add: smp_ok_def)
  from validator_accepts [OF enc need this, where e = "\<lparr>avail = \<lambda>_. True, fill = \<lambda>p i. 255\<rparr>" and
      h = "\<lparr>h_mem = Map.empty, h_next = 1\<rparr>" and gs = "[raid6_dummy_gen_syndrome]"]
  show ?thesis by (auto simp: validator_leak_def)
qed

lemma rejects_dummy:
  assumes "\<forall>p. avail e p" "0 < h_next h"
  shows "\<exists>h'. validate_implemenataion e raid6_dummy_gen_syndrome (raid6_vanilla_gen_syndrome # gs) h =
    Some (EXIT_FAILURE, h')"
proof -
  define a M where aM: "a = h_next h" "M = validator_mem e h"
  define M1 where M1: "M1 = M(a + 6 \<mapsto> Bytes validator_P, a + 7 \<mapsto> Bytes validator_Q)"
  note first = validator_first [OF assms aM M1]
  let ?z = "replicate 512 0 :: u8 list" and ?ps = "stripe7 (a + 8)"
  have buf: "buf M1 (?ps ! i) = replicate 512 (of_nat i)" if "i < 7" for i
    using first(3) [OF that] stripe7_nth [OF that, of "a + 8"] by (simp add: buf_def)
  have "raid6_dummy_gen_syndrome 7 512 (a + 8) M1 = Some (M1(a + 15 \<mapsto> Bytes ?z, a + 14 \<mapsto> Bytes ?z))"
    using dummy_memory [OF first(2)] buf [of 0] buf [of 5] buf [of 6] stripe7_nth [of 5 "a + 8"] stripe7_nth [of 6 "a + 8"]
    by (simp add: add.commute)
  then have run: "raid6_dummy_gen_syndrome 7 512 (a + 8) M1 = Some (M1(a + 14 \<mapsto> Bytes ?z, a + 15 \<mapsto> Bytes ?z))"
    by (simp add: fun_upd_twist)
  have "validator_P ! 0 = 4" unfolding validator_P_def by (simp add: upt_rec)
  moreover have "?z ! 0 = 0" by (rule nth_replicate) simp
  moreover have "(4 :: u8) \<noteq> 0" by simp
  ultimately have "validator_P \<noteq> ?z" by metis
  then show ?thesis using validate_vanilla [OF assms aM M1, of raid6_dummy_gen_syndrome ?z ?z] run by fastforce
qed

text \<open>The validator returns EXIT_FAILURE for the dummy implementation.\<close>

theorem validator_rejects_dummy:
  assumes "\<forall>p. avail e p" "0 < h_next h"
  shows "\<exists>h'. validate_implemenataion e raid6_dummy_gen_syndrome (raid6_vanilla_gen_syndrome # gs) h =
    Some (EXIT_FAILURE, h')"
  by (rule rejects_dummy [OF assms])

theorem validator_rejects_dummy_witness:
  "\<exists>h'. validate_implemenataion \<lparr>avail = \<lambda>_. True, fill = \<lambda>p i. 255\<rparr> raid6_dummy_gen_syndrome
      [raid6_vanilla_gen_syndrome, raid6_dummy_gen_syndrome] \<lparr>h_mem = Map.empty, h_next = 1\<rparr> = Some (EXIT_FAILURE, h')"
  by (rule validator_rejects_dummy) simp_all

section \<open>Working on an example stripe\<close>

text \<open>The memory \<open>m\<close> holds the example stripe with the array \<open>a\<close> of \<open>n\<close> buffers and is \<open>m0\<close> elsewhere.\<close>

definition example_state :: "ptr \<Rightarrow> nat \<Rightarrow> nat \<Rightarrow> mem \<Rightarrow> mem \<Rightarrow> bool" where
  "example_state a n bytes m0 m \<longleftrightarrow> 0 < a \<and> ptrs_at m a = Some [Suc a..<Suc a + n] \<and>
     (\<forall>p \<in> {Suc a..<Suc a + n}. \<exists>bs. bytes_at m p = Some bs \<and> bytes \<le> length bs) \<and>
     (\<forall>p. p \<notin> {a..<Suc a + n} \<longrightarrow> m p = m0 p)"

lemma example_state_allocated:
  assumes "\<forall>p. avail e p" "0 < h_next h"
  shows "\<exists>h'. allocate_host_example_dpointer e (int bytes) (int n) h = Some (h_next h, h') \<and>
    h_next h' = Suc (h_next h) + n \<and> example_state (h_next h) n bytes (h_mem h) (h_mem h')"
  using allocate_example [OF assms, of bytes n] ptrs_at_example [OF assms(2)] assms(2)
  by (auto simp: example_state_def example_mem_def bytes_at_def obj_at_def simp del: upt_Suc)

lemma example_state_stripe:
  assumes "example_state a n bytes m0 m" "d \<le> n"
  shows "stripe m a [Suc a..<Suc a + d] bytes"
proof -
  have "[Suc a..<Suc a + n] = [Suc a..<Suc a + d] @ [Suc a + d..<Suc a + n]"
    using assms(2) upt_add_eq_append [of "Suc a" "Suc a + d" "n - d"] by simp
  moreover have "\<exists>bs. bytes_at m p = Some bs \<and> bytes \<le> length bs" if "p \<in> set [Suc a..<Suc a + d]" for p
    using assms that unfolding example_state_def by auto
  ultimately show ?thesis
    using assms(1) unfolding stripe_def example_state_def
    by (fastforce simp del: upt_Suc split: option.splits)
qed

lemma example_state_upd:
  assumes "example_state a n bytes m0 m" "p \<in> {Suc a..<Suc a + n}" "bytes \<le> length bs"
  shows "example_state a n bytes m0 (m(p \<mapsto> Bytes bs))"
  using assms unfolding example_state_def by (auto simp del: upt_Suc)

lemma example_state_gen:
  assumes gen: "raid6_generator gen need ok" "need b \<le> bytes" "ok b" and st: "example_state a n bytes m0 m"
    and d: "3 \<le> d" "d \<le> n" "n < 2 ^ 31"
  shows "\<exists>m'. gen (int d) b a m = Some m' \<and> example_state a n bytes m0 m'"
proof -
  let ?ps = "[Suc a..<Suc a + d]"
  have len: "length ?ps = d" by simp
  have s: "stripe m a ?ps bytes" by (rule example_state_stripe [OF st d(2)])
  then obtain m' where m': "gen (int d) b a m = Some m'" and enc: "raid6_encodes ?ps b m m'"
    using raid6_generator.gen_encodes [OF gen(1) stripe_mono [OF s gen(2)] _ _ gen(3)] d unfolding len by auto
  have ix: "?ps ! (d - 2) = Suc a + (d - 2)" "?ps ! (d - 2 + 1) = Suc a + (d - 2 + 1)"
    using d(1) by (simp_all add: nth_upt del: upt_Suc)
  obtain pb qb where up: "m' = m(Suc a + (d - 2) \<mapsto> Bytes pb, Suc a + (d - 2 + 1) \<mapsto> Bytes qb)"
    and l: "length pb = length (buf m (Suc a + (d - 2)))" "length qb = length (buf m (Suc a + (d - 2 + 1)))"
    using enc unfolding raid6_encodes_def Let_def len ix by auto
  have "bytes \<le> length pb" "bytes \<le> length qb"
    using stripe_bytes_at(2) [OF s, of "d - 2"] stripe_bytes_at(2) [OF s, of "d - 2 + 1"] d(1) unfolding ix l by auto
  then have "example_state a n bytes m0 m'"
    unfolding up using st d by (intro example_state_upd) auto
  then show ?thesis using m' by blast
qed

lemma example_state_freed:
  assumes st: "example_state a n bytes m0 m" and fresh: "\<forall>p \<ge> a. m0 p = None"
  shows "deallocate_host_example_dpointer (int n) a m = Some m0"
proof -
  have arr: "ptrs_at m a = Some [Suc a..<Suc a + n]" and a: "0 < a" and out: "\<And>p. p \<notin> {a..<Suc a + n} \<Longrightarrow> m p = m0 p"
    using st by (auto simp: example_state_def)
  have bs: "\<forall>p \<in> {Suc a..<Suc a + n}. \<exists>bs. bytes_at m p = Some bs \<and> bytes \<le> length bs"
    using st unfolding example_state_def by blast
  have live: "m p \<noteq> None" if p: "p \<in> {Suc a + 0..<Suc a + n}" for p
    using bspec [OF bs, of p] p by (auto dest: bytes_at_SomeD)
  let ?m = "\<lambda>p. if p \<in> {Suc a + 0..<Suc a + n} then None else m p"
  have "deallocate_disks a [0..<n] m = Some ?m" by (rule deallocate_disks_from [OF arr]) (use live in auto)
  moreover have "?m a \<noteq> None"
    using arr by (auto simp: ptrs_at_def obj_at_def split: if_splits option.splits)
  then have "c_free ?m a = Some (?m(a := None))" using a by (auto simp: c_free_def split: if_splits)
  moreover have "?m(a := None) = m0" using out fresh by (fastforce simp: fun_eq_iff)
  ultimately show ?thesis by (simp add: deallocate_host_example_dpointer_def)
qed

text \<open>What \<open>allocate_host_example_dpointer\<close> hands out is a stripe, and
  \<open>deallocate_host_example_dpointer\<close> gives all of it back.\<close>

lemma example_round_trip:
  assumes "\<forall>p. avail e p" "heap_fresh h"
  shows "\<exists>h'. allocate_host_example_dpointer e (int bytes) (int n) h = Some (h_next h, h') \<and>
    stripe (h_mem h') (h_next h) [Suc (h_next h)..<Suc (h_next h) + n] bytes \<and>
    deallocate_host_example_dpointer (int n) (h_next h) (h_mem h') = Some (h_mem h)"
  using example_state_allocated [OF assms(1), of h bytes n] example_state_stripe [of "h_next h" n bytes "h_mem h" _ n]
    example_state_freed [of "h_next h" n bytes "h_mem h"] assms(2)
  by (auto simp: heap_fresh_def simp del: upt_Suc)

section \<open>The processor count\<close>

lemma atoi_digits_append:
  "\<forall>c \<in> set xs. is_digit c \<Longrightarrow> atoi_digits (xs @ ys) acc = atoi_digits ys (atoi_digits xs acc)"
  by (induction xs acc rule: atoi_digits.induct) simp_all

lemma atoi_digits_decimal: "atoi_digits (decimal n) 0 = int n"
proof (induction n rule: decimal.induct)
  case (1 n)
  show ?case
  proof (cases "n < 10")
    case True
    then show ?thesis using digit_char by (subst decimal.simps) simp
  next
    case False
    have "int n = int (n div 10) * 10 + int (n mod 10)" by (simp add: zdiv_int zmod_int)
    then show ?thesis
      using False 1 [OF False] digit_char [of "n mod 10"] decimal_digits
      by (subst decimal.simps) (simp add: atoi_digits_append)
  qed
qed

lemma atoi_decimal: "atoi (decimal n @ [CHR 0x0A]) = int n"
proof -
  obtain c cs where d: "decimal n = c # cs" by (cases "decimal n") (auto simp: decimal.simps [of n] split: if_splits)
  have c: "is_digit c" using decimal_digits [of n] by (simp add: d)
  then have "\<not> is_space c" "c \<noteq> CHR ''-''" "c \<noteq> CHR ''+''" by (auto simp: is_digit_def is_space_def)
  moreover have "atoi_digits (c # cs @ [CHR 0x0A]) 0 = int n"
    using atoi_digits_append [OF decimal_digits [of n], of "[CHR 0x0A]" 0] atoi_digits_decimal [of n]
    by (simp add: d is_digit_def)
  ultimately show ?thesis by (simp add: atoi_def d)
qed

lemma atoi_decimal_read:
  assumes "length (decimal n) \<le> 10"
  shows "fgets (CHR ''0'' # CHR ''-'' # decimal n @ [CHR 0x0A]) = Some (CHR ''0'' # CHR ''-'' # decimal n @ [CHR 0x0A])"
    "strtok (CHR ''0'' # CHR ''-'' # decimal n @ [CHR 0x0A]) (CHR ''-'') = Some (''0'', decimal n @ [CHR 0x0A])"
    "strtok (decimal n @ [CHR 0x0A]) (CHR ''-'') = Some (decimal n @ [CHR 0x0A], [])"
proof -
  have no: "c \<noteq> CHR 0x0A" "c \<noteq> CHR ''-''" if "c \<in> set (decimal n)" for c
    using decimal_digits [of n] that by (auto simp: is_digit_def)
  have "takeWhile (\<lambda>c. c \<noteq> CHR 0x0A) (decimal n @ [CHR 0x0A]) = decimal n"
    using no by (subst takeWhile_append2) auto
  then show "fgets (CHR ''0'' # CHR ''-'' # decimal n @ [CHR 0x0A]) = Some (CHR ''0'' # CHR ''-'' # decimal n @ [CHR 0x0A])"
    using assms by (simp add: fgets_def Let_def)
  show "strtok (CHR ''0'' # CHR ''-'' # decimal n @ [CHR 0x0A]) (CHR ''-'') = Some (''0'', decimal n @ [CHR 0x0A])"
    by (simp add: strtok_def)
  have all: "takeWhile (\<lambda>c. c \<noteq> CHR ''-'') (decimal n @ [CHR 0x0A]) = decimal n @ [CHR 0x0A]"
    using no by (simp add: takeWhile_eq_all_conv)
  have "dropWhile (\<lambda>c. c = CHR ''-'') (decimal n @ [CHR 0x0A]) = decimal n @ [CHR 0x0A]"
    using no by (cases "decimal n") auto
  moreover have "dropWhile (\<lambda>c. c \<noteq> CHR ''-'') (decimal n @ [CHR 0x0A]) = []"
    using no by (simp add: dropWhile_eq_Nil_conv)
  ultimately show "strtok (decimal n @ [CHR 0x0A]) (CHR ''-'') = Some (decimal n @ [CHR 0x0A], [])"
    using all by (simp add: strtok_def)
qed

text \<open>From \<open>0-<n>\<close>, the form the kernel prints for processors 0 to n, the daemon computes n + 1
  processors. A machine whose file names a single processor, \<open>0\<close>, is not handled: \<open>atoi\<close> is
  given the null pointer. Without the file the count is 1.\<close>

theorem set_internal_vars_counts:
  assumes "n < 2 ^ 31 - 1"
  shows "set_internal_vars (Some (''0-'' @ decimal n @ [CHR 0x0A])) = Some (int n + 1) \<and>
    set_internal_vars (Some [CHR ''0'', CHR 0x0A]) = None \<and> set_internal_vars None = Some 1"
proof (intro conjI)
  have len: "length (decimal n) \<le> 10" using length_decimal [of n 10] assms by simp
  have cs: "c_string (CHR ''0'' # CHR ''-'' # decimal n @ [CHR 0x0A]) = CHR ''0'' # CHR ''-'' # decimal n @ [CHR 0x0A]"
    using decimal_no_sep by (subst c_string_id) auto
  show "set_internal_vars (Some (''0-'' @ decimal n @ [CHR 0x0A])) = Some (int n + 1)"
    using assms atoi_decimal_read [OF len] cs atoi_decimal [of n] by (simp add: set_internal_vars_def c_int_def)
  show "set_internal_vars (Some [CHR ''0'', CHR 0x0A]) = None"
    by (simp add: set_internal_vars_def fgets_def strtok_def c_string_def)
  show "set_internal_vars None = Some 1" by (simp add: set_internal_vars_def)
qed

theorem set_internal_vars_counts_witness:
  "(15 :: nat) < 2 ^ 31 - 1 \<and> set_internal_vars (Some (''0-'' @ decimal 15 @ [CHR 0x0A])) = Some (int 15 + 1)"
  using set_internal_vars_counts [of 15] by simp

end
