(* ===== verification/Kernel_Calls.thy ===== *)
theory Kernel_Calls
  imports Kernel_Conf
begin

unbundle bit_operations_syntax

text \<open>
  The request path of the kernel module: the \<open>gen_syndrome\<close> stub and the three transports, procfs,
  ioctl and netlink. These functions block on semaphores and wait queues, so each is a small
  program with one constructor per program point; its step function runs from one point to the
  next. \<open>kstep\<close> interleaves any number of callers, daemon requests and netlink messages with
  writes to the configuration file.

  An \<open>env\<close> says whether the kernel service used in a step succeeds and whether a signal is pending:
  \<open>wait_event_interruptible\<close> then returns early, and the code never looks at its result.
\<close>

record env =
  e_ok :: bool
  e_signal :: bool

definition wait_event :: "env \<Rightarrow> bool \<Rightarrow> 'a \<Rightarrow> 'a outcome" where
  "wait_event e c x = (if c \<or> e_signal e then Go x else Block)"

definition copy_snc :: "syndrome_container \<Rightarrow> kstate \<Rightarrow> 'a \<Rightarrow> (kstate \<times> 'a) outcome" where
  "copy_snc snc s x = (case actual_snc s of None \<Rightarrow> Fault | Some _ \<Rightarrow> Go (s\<lparr>actual_snc := Some snc\<rparr>, x))"

section \<open>procfs\<close>

datatype proc_pc = CP_Down | CP_Copy | CP_Flag | CP_Wait | CP_Up | CP_Ret int

fun call_usp_proc_step :: "env \<Rightarrow> syndrome_container \<Rightarrow> kstate \<Rightarrow> proc_pc \<Rightarrow> (kstate \<times> proc_pc) outcome" where
  "call_usp_proc_step e snc s CP_Down =
     (if call_usp_proc_mutex s = 0 then Block
      else Go (s\<lparr>call_usp_proc_mutex := call_usp_proc_mutex s - 1\<rparr>, CP_Copy))"
| "call_usp_proc_step e snc s CP_Copy = copy_snc snc s CP_Flag"
| "call_usp_proc_step e snc s CP_Flag = Go (s\<lparr>procfs_wq_flag := 0\<rparr>, CP_Wait)"
| "call_usp_proc_step e snc s CP_Wait = wait_event e (procfs_wq_flag s = 2) (s, CP_Up)"
| "call_usp_proc_step e snc s CP_Up = Go (s\<lparr>call_usp_proc_mutex := call_usp_proc_mutex s + 1\<rparr>, CP_Ret 0)"
| "call_usp_proc_step e snc s (CP_Ret r) = Block"

datatype proc_read_pc = PR_Down | PR_Wait | PR_Copy | PR_Up u64 | PR_Ret int u64

fun proc_read_step :: "env \<Rightarrow> kstate \<Rightarrow> proc_read_pc \<Rightarrow> (kstate \<times> proc_read_pc) outcome" where
  "proc_read_step e s PR_Down =
     (if proc_read_mutex s = 0 then Block else Go (s\<lparr>proc_read_mutex := proc_read_mutex s - 1\<rparr>, PR_Wait))"
| "proc_read_step e s PR_Wait = wait_event e (procfs_wq_flag s = 0) (s, PR_Copy)"
| "proc_read_step e s PR_Copy = Go (s, PR_Up (snc_addr s))"
| "proc_read_step e s (PR_Up a) = Go (s\<lparr>proc_read_mutex := proc_read_mutex s + 1\<rparr>, PR_Ret 8 a)"
| "proc_read_step e s (PR_Ret r a) = Block"

text \<open>A write of \<open>count\<close> bytes whose first eight are the address \<open>a\<close>.\<close>

datatype proc_write_pc = PW_Down nat u64 | PW_Check nat u64 | PW_Flag nat | PW_Up nat | PW_Ret int

fun proc_write_step :: "env \<Rightarrow> kstate \<Rightarrow> proc_write_pc \<Rightarrow> (kstate \<times> proc_write_pc) outcome" where
  "proc_write_step e s (PW_Down n a) =
     (if proc_write_mutex s = 0 then Block
      else Go (s\<lparr>proc_write_mutex := proc_write_mutex s - 1\<rparr>, PW_Check n a))"
| "proc_write_step e s (PW_Check n a) = Go (s,
     if n < 8 then PW_Ret (- EOVERFLOW)
     else if \<not> e_ok e then PW_Ret (- EFAULT)
     else if a \<noteq> snc_addr s then PW_Ret (- EFAULT)
     else PW_Flag n)"
| "proc_write_step e s (PW_Flag n) = Go (s\<lparr>procfs_wq_flag := 2\<rparr>, PW_Up n)"
| "proc_write_step e s (PW_Up n) =
     Go (s\<lparr>proc_write_mutex := proc_write_mutex s + 1\<rparr>, PW_Ret (size_to_int (of_nat n)))"
| "proc_write_step e s (PW_Ret r) = Block"

section \<open>ioctl\<close>

datatype ioctl_pc = CI_Init | CI_Down | CI_Copy | CI_Flag | CI_Wait | CI_Up | CI_Ret int

fun call_usp_ioctl_step :: "env \<Rightarrow> syndrome_container \<Rightarrow> kstate \<Rightarrow> ioctl_pc \<Rightarrow> (kstate \<times> ioctl_pc) outcome" where
  "call_usp_ioctl_step e snc s CI_Init =
     (if ioctl_init_mutex s = 0 then Block else Go (s\<lparr>ioctl_init_mutex := ioctl_init_mutex s - 1\<rparr>, CI_Down))"
| "call_usp_ioctl_step e snc s CI_Down =
     (if call_usp_ioctl_mutex s = 0 then Block
      else Go (s\<lparr>call_usp_ioctl_mutex := call_usp_ioctl_mutex s - 1\<rparr>, CI_Copy))"
| "call_usp_ioctl_step e snc s CI_Copy = copy_snc snc s CI_Flag"
| "call_usp_ioctl_step e snc s CI_Flag = Go (s\<lparr>ioctl_wq_enter_flag := 0\<rparr>, CI_Wait)"
| "call_usp_ioctl_step e snc s CI_Wait = wait_event e (ioctl_wq_enter_flag s = 1) (s, CI_Up)"
| "call_usp_ioctl_step e snc s CI_Up =
     Go (s\<lparr>call_usp_ioctl_mutex := call_usp_ioctl_mutex s + 1\<rparr>, CI_Ret 0)"
| "call_usp_ioctl_step e snc s (CI_Ret r) = Block"

text \<open>The argument is the string the user pointer refers to; it is copied into five bytes.\<close>

datatype ioctl_callback_pc = IO_Strcpy string | IO_Flag | IO_Up_Init | IO_Up | IO_Down | IO_Wait | IO_Copy
  | IO_Ret int "string option"

fun ioctl_callback_step :: "env \<Rightarrow> kstate \<Rightarrow> ioctl_callback_pc \<Rightarrow> (kstate \<times> ioctl_callback_pc) outcome" where
  "ioctl_callback_step e s (IO_Strcpy arg) = (if 5 < length (c_string arg) + 1 then Fault else Go (s, IO_Flag))"
| "ioctl_callback_step e s IO_Flag = Go (s\<lparr>ioctl_wq_enter_flag := 1\<rparr>, IO_Up_Init)"
| "ioctl_callback_step e s IO_Up_Init = Go (s\<lparr>ioctl_init_mutex := ioctl_init_mutex s + 1\<rparr>, IO_Up)"
| "ioctl_callback_step e s IO_Up = Go (s\<lparr>ioctl_callback_mutex := ioctl_callback_mutex s + 1\<rparr>, IO_Down)"
| "ioctl_callback_step e s IO_Down =
     (if ioctl_callback_mutex s = 0 then Block
      else Go (s\<lparr>ioctl_callback_mutex := ioctl_callback_mutex s - 1\<rparr>, IO_Wait))"
| "ioctl_callback_step e s IO_Wait = wait_event e (ioctl_wq_enter_flag s = 0) (s, IO_Copy)"
| "ioctl_callback_step e s IO_Copy = Go (s, IO_Ret 0 (if e_ok e then Some ''flag'' else None))"
| "ioctl_callback_step e s (IO_Ret r out) = Block"

section \<open>netlink\<close>

text \<open>\<open>nl_recv_pkg\<close> asks for a message and waits until \<open>nl_data_ready\<close> has stored one.\<close>

definition nl_recv_ask :: "kstate \<Rightarrow> 'a \<Rightarrow> (kstate \<times> 'a) outcome" where
  "nl_recv_ask s x = Go (s\<lparr>nl_receive_flag := 0\<rparr>, x)"

definition nl_recv_wait :: "env \<Rightarrow> kstate \<Rightarrow> (skb \<Rightarrow> 'a) \<Rightarrow> (kstate \<times> 'a) outcome" where
  "nl_recv_wait e s f =
     (if nl_receive_flag s = 1 \<or> e_signal e
      then (case skb_global s of None \<Rightarrow> Fault | Some skb \<Rightarrow> Go (s, f skb)) else Block)"

datatype nl_pc = CN_Down | CN_Ask | CN_Wait | CN_Pid skb | CN_Copy | CN_New | CN_Put | CN_Send
  | CN_Ask2 | CN_Wait2 | CN_Check skb | CN_Up | CN_Ret int

fun call_usp_nl_step :: "env \<Rightarrow> syndrome_container \<Rightarrow> kstate \<Rightarrow> nl_pc \<Rightarrow> (kstate \<times> nl_pc) outcome" where
  "call_usp_nl_step e snc s CN_Down =
     (if call_usp_nl_mutex s = 0 then Block else Go (s\<lparr>call_usp_nl_mutex := call_usp_nl_mutex s - 1\<rparr>, CN_Ask))"
| "call_usp_nl_step e snc s CN_Ask = nl_recv_ask s CN_Wait"
| "call_usp_nl_step e snc s CN_Wait = nl_recv_wait e s CN_Pid"
| "call_usp_nl_step e snc s (CN_Pid skb) = Go (s, if PID s \<noteq> skb_pid skb then CN_Ret 1 else CN_Copy)"
| "call_usp_nl_step e snc s CN_Copy = copy_snc snc s CN_New"
| "call_usp_nl_step e snc s CN_New = Go (s, if e_ok e then CN_Put else CN_Ret 1)"
| "call_usp_nl_step e snc s CN_Put = Go (s, if e_ok e then CN_Send else CN_Ret 1)"
| "call_usp_nl_step e snc s CN_Send =
     Go (if e_ok e then s\<lparr>nl_sent := nl_sent s @ [(PID s, snc_addr s)]\<rparr> else s, CN_Ask2)"
| "call_usp_nl_step e snc s CN_Ask2 = nl_recv_ask s CN_Wait2"
| "call_usp_nl_step e snc s CN_Wait2 = nl_recv_wait e s CN_Check"
| "call_usp_nl_step e snc s (CN_Check skb) =
     Go (s, if snc_addr s \<noteq> skb_data skb then CN_Ret (- EFAULT) else CN_Up)"
| "call_usp_nl_step e snc s CN_Up = Go (s\<lparr>call_usp_nl_mutex := call_usp_nl_mutex s + 1\<rparr>, CN_Ret 0)"
| "call_usp_nl_step e snc s (CN_Ret r) = Block"

datatype nl_ready_pc = ND_Wait skb | ND_Copy skb | ND_Flag | ND_Ret

fun nl_data_ready_step :: "env \<Rightarrow> kstate \<Rightarrow> nl_ready_pc \<Rightarrow> (kstate \<times> nl_ready_pc) outcome" where
  "nl_data_ready_step e s (ND_Wait skb) = wait_event e (nl_receive_flag s = 0) (s, ND_Copy skb)"
| "nl_data_ready_step e s (ND_Copy skb) = Go (s\<lparr>skb_global := if e_ok e then Some skb else None\<rparr>, ND_Flag)"
| "nl_data_ready_step e s ND_Flag = Go (s\<lparr>nl_receive_flag := 1\<rparr>, ND_Ret)"
| "nl_data_ready_step e s ND_Ret = Block"

section \<open>The \<open>gen_syndrome\<close> stub\<close>

datatype gen_pc = G_Down int nat ptr | G_Pack int nat ptr | G_Call syndrome_container
  | G_Proc syndrome_container proc_pc | G_Ioctl syndrome_container ioctl_pc | G_Nl syndrome_container nl_pc
  | G_Kill syndrome_container | G_Up | G_Ret

fun raid6_cuda_gen_syndrome_step :: "env \<Rightarrow> kstate \<Rightarrow> gen_pc \<Rightarrow> (kstate \<times> gen_pc) outcome" where
  "raid6_cuda_gen_syndrome_step e s (G_Down disks bytes ptrs) =
     (if gen_syndrome_mutex s = 0 then Block
      else Go (s\<lparr>gen_syndrome_mutex := gen_syndrome_mutex s - 1\<rparr>, G_Pack disks bytes ptrs))"
| "raid6_cuda_gen_syndrome_step e s (G_Pack disks bytes ptrs) =
     (case pack_smc (e_ok e) disks bytes ptrs s of None \<Rightarrow> Fault | Some (snc, s') \<Rightarrow> Go (s', G_Call snc))"
| "raid6_cuda_gen_syndrome_step e s (G_Call snc) =
     (case call_usp s of None \<Rightarrow> Fault
      | Some call_usp_proc \<Rightarrow> Go (s, G_Proc snc CP_Down)
      | Some call_usp_ioctl \<Rightarrow> Go (s, G_Ioctl snc CI_Init)
      | Some call_usp_nl \<Rightarrow> Go (s, G_Nl snc CN_Down))"
| "raid6_cuda_gen_syndrome_step e s (G_Proc snc pc) =
     (case pc of CP_Ret r \<Rightarrow> Go (s, G_Kill snc)
      | _ \<Rightarrow> (case call_usp_proc_step e snc s pc of
          Go (s', pc') \<Rightarrow> Go (s', G_Proc snc pc') | Block \<Rightarrow> Block | Fault \<Rightarrow> Fault))"
| "raid6_cuda_gen_syndrome_step e s (G_Ioctl snc pc) =
     (case pc of CI_Ret r \<Rightarrow> Go (s, G_Kill snc)
      | _ \<Rightarrow> (case call_usp_ioctl_step e snc s pc of
          Go (s', pc') \<Rightarrow> Go (s', G_Ioctl snc pc') | Block \<Rightarrow> Block | Fault \<Rightarrow> Fault))"
| "raid6_cuda_gen_syndrome_step e s (G_Nl snc pc) =
     (case pc of CN_Ret r \<Rightarrow> Go (s, G_Kill snc)
      | _ \<Rightarrow> (case call_usp_nl_step e snc s pc of
          Go (s', pc') \<Rightarrow> Go (s', G_Nl snc pc') | Block \<Rightarrow> Block | Fault \<Rightarrow> Fault))"
| "raid6_cuda_gen_syndrome_step e s (G_Kill snc) =
     (case kill_smc snc s of None \<Rightarrow> Fault | Some s' \<Rightarrow> Go (s', G_Up))"
| "raid6_cuda_gen_syndrome_step e s G_Up =
     Go (s\<lparr>gen_syndrome_mutex := gen_syndrome_mutex s + 1\<rparr>, G_Ret)"
| "raid6_cuda_gen_syndrome_step e s G_Ret = Block"

section \<open>The module at work\<close>

datatype kthread = Gen gen_pc | Proc_Read proc_read_pc | Proc_Write proc_write_pc
  | Ioctl ioctl_callback_pc | Nl_Ready nl_ready_pc

fun kthread_step :: "env \<Rightarrow> kstate \<Rightarrow> kthread \<Rightarrow> (kstate \<times> kthread) outcome" where
  "kthread_step e s (Gen pc) = (case raid6_cuda_gen_syndrome_step e s pc of
     Go (s', pc') \<Rightarrow> Go (s', Gen pc') | Block \<Rightarrow> Block | Fault \<Rightarrow> Fault)"
| "kthread_step e s (Proc_Read pc) = (case proc_read_step e s pc of
     Go (s', pc') \<Rightarrow> Go (s', Proc_Read pc') | Block \<Rightarrow> Block | Fault \<Rightarrow> Fault)"
| "kthread_step e s (Proc_Write pc) = (case proc_write_step e s pc of
     Go (s', pc') \<Rightarrow> Go (s', Proc_Write pc') | Block \<Rightarrow> Block | Fault \<Rightarrow> Fault)"
| "kthread_step e s (Ioctl pc) = (case ioctl_callback_step e s pc of
     Go (s', pc') \<Rightarrow> Go (s', Ioctl pc') | Block \<Rightarrow> Block | Fault \<Rightarrow> Fault)"
| "kthread_step e s (Nl_Ready pc) = (case nl_data_ready_step e s pc of
     Go (s', pc') \<Rightarrow> Go (s', Nl_Ready pc') | Block \<Rightarrow> Block | Fault \<Rightarrow> Fault)"

record ksys =
  k_state :: kstate
  k_threads :: "kthread list"

text \<open>The events of a run: a thread enters the kernel, a thread runs one step, the configuration
  file is written. \<open>kevent\<close> is executable, so that runs can be replayed. A caller of
  \<open>gen_syndrome\<close> passes an array of its own with at least \<open>disks\<close> entries.\<close>

datatype event = Enter kthread | Run nat env | Conf bool string nat

definition caller_ok :: "kstate \<Rightarrow> int \<Rightarrow> ptr \<Rightarrow> bool" where
  "caller_ok s disks ptrs \<longleftrightarrow> ptrs < k_base s \<and> (case ptrs_at (k_mem s) ptrs of
     None \<Rightarrow> False | Some ps \<Rightarrow> 0 < disks \<and> nat disks \<le> length ps)"

fun entry :: "kstate \<Rightarrow> kthread \<Rightarrow> bool" where
  "entry s (Gen (G_Down disks bytes ptrs)) = caller_ok s disks ptrs"
| "entry s (Proc_Read PR_Down) = True"
| "entry s (Proc_Write (PW_Down n a)) = True"
| "entry s (Ioctl (IO_Strcpy arg)) = True"
| "entry s (Nl_Ready (ND_Wait skb)) = True"
| "entry s t = False"

fun kevent :: "event \<Rightarrow> ksys \<Rightarrow> ksys outcome" where
  "kevent (Enter t) k = (if entry (k_state k) t then Go (k\<lparr>k_threads := k_threads k @ [t]\<rparr>) else Block)"
| "kevent (Run i e) k =
     (if i < length (k_threads k) then
        (case kthread_step e (k_state k) (k_threads k ! i) of
           Go (s', t') \<Rightarrow> Go (k\<lparr>k_state := s', k_threads := (k_threads k)[i := t']\<rparr>)
         | Block \<Rightarrow> Block | Fault \<Rightarrow> Fault)
      else Block)"
| "kevent (Conf ok buffer count) k = (case conf_write ok buffer count (k_state k) of
     Go (r, s') \<Rightarrow> Go (k\<lparr>k_state := s'\<rparr>) | Block \<Rightarrow> Block | Fault \<Rightarrow> Fault)"

fun signals :: "event \<Rightarrow> bool" where
  "signals (Run i e) = e_signal e"
| "signals _ = False"

inductive kstep :: "bool \<Rightarrow> ksys \<Rightarrow> ksys \<Rightarrow> bool" for sig where
  step: "kevent ev k = Go k' \<Longrightarrow> (signals ev \<longrightarrow> sig) \<Longrightarrow> kstep sig k k'"

abbreviation kreach :: "bool \<Rightarrow> ksys \<Rightarrow> ksys \<Rightarrow> bool" where
  "kreach sig \<equiv> (kstep sig)\<^sup>*\<^sup>*"

fun kevents :: "event list \<Rightarrow> ksys \<Rightarrow> ksys outcome" where
  "kevents [] k = Go k"
| "kevents (ev # evs) k = (case kevent ev k of Go k' \<Rightarrow> kevents evs k' | Block \<Rightarrow> Block | Fault \<Rightarrow> Fault)"

text \<open>The module after \<open>barracuda_start\<close> with no request under way.\<close>

definition started :: "kstate \<Rightarrow> bool" where
  "started s \<longleftrightarrow> gen_syndrome_mutex s = 0 \<and> configured s = 0 \<and> procfs_wq_flag s = 2 \<and>
     ioctl_wq_enter_flag s = 1 \<and> actual_snc s \<noteq> None \<and> heap_ok s"

section \<open>The invariant\<close>

text \<open>A caller is inside between taking and releasing \<open>gen_syndrome_mutex\<close>.\<close>

fun inside :: "kthread \<Rightarrow> bool" where
  "inside (Gen (G_Down d b p)) = False"
| "inside (Gen G_Ret) = False"
| "inside (Gen pc) = True"
| "inside _ = False"

definition snc_live :: "kstate \<Rightarrow> syndrome_container \<Rightarrow> bool" where
  "snc_live s snc \<longleftrightarrow> sc_disks snc = 0 \<and> sc_ptrs snc = null \<or>
     k_base s \<le> sc_ptrs snc \<and> (case ptrs_at (k_mem s) (sc_ptrs snc) of
       None \<Rightarrow> False | Some ps \<Rightarrow> int (length ps) = sc_disks snc)"

fun nl_published :: "nl_pc \<Rightarrow> bool" where
  "nl_published pc = (case pc of CN_Down \<Rightarrow> False | CN_Ask \<Rightarrow> False | CN_Wait \<Rightarrow> False | CN_Pid _ \<Rightarrow> False
     | CN_Copy \<Rightarrow> False | CN_Ret _ \<Rightarrow> False | _ \<Rightarrow> True)"

fun thread_ok :: "kstate \<Rightarrow> kthread \<Rightarrow> bool" where
  "thread_ok s (Gen (G_Down d b p)) = caller_ok s d p"
| "thread_ok s (Gen (G_Pack d b p)) = caller_ok s d p"
| "thread_ok s (Gen (G_Call snc)) = snc_live s snc"
| "thread_ok s (Gen (G_Proc snc pc)) = (snc_live s snc \<and> call_usp s = Some call_usp_proc \<and>
     (pc = CP_Down \<or> pc = CP_Copy \<or> actual_snc s = Some snc))"
| "thread_ok s (Gen (G_Ioctl snc pc)) = (snc_live s snc \<and> call_usp s = Some call_usp_ioctl \<and>
     (pc = CI_Init \<or> pc = CI_Down \<or> pc = CI_Copy \<or> actual_snc s = Some snc))"
| "thread_ok s (Gen (G_Nl snc pc)) = (snc_live s snc \<and> call_usp s = Some call_usp_nl \<and>
     (nl_published pc \<longrightarrow> actual_snc s = Some snc))"
| "thread_ok s (Gen (G_Kill snc)) = snc_live s snc"
| "thread_ok s _ = True"

fun proc_waiting :: "kthread \<Rightarrow> bool" where
  "proc_waiting (Gen (G_Proc snc CP_Wait)) = True"
| "proc_waiting _ = False"

fun ioctl_waiting :: "kthread \<Rightarrow> bool" where
  "ioctl_waiting (Gen (G_Ioctl snc CI_Wait)) = True"
| "ioctl_waiting _ = False"

definition core_inv :: "kstate \<Rightarrow> bool" where
  "core_inv s \<longleftrightarrow> conf_inv s \<and> heap_ok s \<and> actual_snc s \<noteq> None"

definition flag_inv :: "ksys \<Rightarrow> bool" where
  "flag_inv k \<longleftrightarrow> (procfs_wq_flag (k_state k) \<noteq> 2 \<longrightarrow> (\<exists>t \<in> set (k_threads k). proc_waiting t)) \<and>
     (ioctl_wq_enter_flag (k_state k) \<noteq> 1 \<longrightarrow> (\<exists>t \<in> set (k_threads k). ioctl_waiting t))"

definition kinv :: "bool \<Rightarrow> ksys \<Rightarrow> bool" where
  "kinv sig k \<longleftrightarrow> core_inv (k_state k) \<and>
     gen_syndrome_mutex (k_state k) + length (filter inside (k_threads k)) = nat (configured (k_state k)) \<and>
     (\<forall>t \<in> set (k_threads k). thread_ok (k_state k) t) \<and> (sig \<or> flag_inv k)"

text \<open>What a step leaves alone, by kind of thread.\<close>

definition same_core :: "kstate \<Rightarrow> kstate \<Rightarrow> bool" where
  "same_core s s' \<longleftrightarrow> gen_syndrome_mutex s' = gen_syndrome_mutex s \<and> configured s' = configured s \<and>
     call_usp s' = call_usp s \<and> PID s' = PID s \<and> actual_snc s' = actual_snc s \<and> snc_addr s' = snc_addr s \<and>
     k_mem s' = k_mem s \<and> k_base s' = k_base s \<and> k_next s' = k_next s"

definition below_base :: "kstate \<Rightarrow> kstate \<Rightarrow> bool" where
  "below_base s s' \<longleftrightarrow> k_base s' = k_base s \<and> (\<forall>p < k_base s. k_mem s' p = k_mem s p)"

lemma same_core_inv: "same_core s s' \<Longrightarrow> core_inv s' = core_inv s"
  by (simp add: same_core_def core_inv_def conf_inv_def heap_ok_def)

lemma same_core_thread: "same_core s s' \<Longrightarrow> thread_ok s' t = thread_ok s t"
  by (induction s t rule: thread_ok.induct) (simp_all add: same_core_def caller_ok_def snc_live_def)

lemma below_base_caller:
  assumes "below_base s s'" "caller_ok s d p"
  shows "caller_ok s' d p"
proof -
  have "k_mem s' p = k_mem s p" using assms by (simp add: below_base_def caller_ok_def)
  then have "ptrs_at (k_mem s') p = ptrs_at (k_mem s) p" by (simp add: ptrs_at_def obj_at_def)
  then show ?thesis using assms by (simp add: below_base_def caller_ok_def)
qed

lemma below_base_thread: "below_base s s' \<Longrightarrow> \<not> inside t \<Longrightarrow> thread_ok s t \<Longrightarrow> thread_ok s' t"
  by (induction s t rule: thread_ok.induct) (simp_all add: below_base_caller)

fun is_gen :: "kthread \<Rightarrow> bool" where
  "is_gen (Gen pc) = True"
| "is_gen _ = False"

text \<open>The daemon's requests touch only their own locks and the flags.\<close>

lemma daemon_step:
  assumes "kthread_step e s t = Go (s', t')" "\<not> is_gen t"
  shows "same_core s s' \<and> \<not> is_gen t' \<and>
    (procfs_wq_flag s' = procfs_wq_flag s \<or> procfs_wq_flag s' = 2) \<and>
    (ioctl_wq_enter_flag s' = ioctl_wq_enter_flag s \<or> ioctl_wq_enter_flag s' = 1)"
proof (cases t)
  case (Proc_Read pc)
  then show ?thesis
    using assms by (cases pc) (auto simp: wait_event_def same_core_def split: if_splits)
next
  case (Proc_Write pc)
  then show ?thesis using assms by (cases pc) (auto simp: same_core_def split: if_splits)
next
  case (Ioctl pc)
  then show ?thesis
    using assms by (cases pc) (auto simp: wait_event_def same_core_def split: if_splits)
next
  case (Nl_Ready pc)
  then show ?thesis
    using assms by (cases pc) (auto simp: wait_event_def same_core_def split: if_splits)
qed (use assms in simp)

text \<open>A step of a transport leaves the core alone, except that it may publish the container.\<close>

definition publishes :: "kstate \<Rightarrow> syndrome_container \<Rightarrow> kstate \<Rightarrow> bool" where
  "publishes s snc s' \<longleftrightarrow> actual_snc s \<noteq> None \<and> same_core (s\<lparr>actual_snc := Some snc\<rparr>) s'"

lemma publishes_core:
  assumes "publishes s snc s'"
  shows "core_inv s \<longrightarrow> core_inv s'" "snc_live s x \<longrightarrow> snc_live s' x" "call_usp s' = call_usp s"
    "actual_snc s' = Some snc" "below_base s s'" "configured s' = configured s"
    "gen_syndrome_mutex s' = gen_syndrome_mutex s"
  using assms
  by (simp_all add: publishes_def same_core_def core_inv_def conf_inv_def heap_ok_def snc_live_def below_base_def)

lemma same_core_facts:
  assumes "same_core s s'"
  shows "core_inv s \<longrightarrow> core_inv s'" "snc_live s x \<longrightarrow> snc_live s' x" "call_usp s' = call_usp s"
    "actual_snc s' = actual_snc s" "below_base s s'" "configured s' = configured s"
    "gen_syndrome_mutex s' = gen_syndrome_mutex s"
  using assms
  by (simp_all add: same_core_def core_inv_def conf_inv_def heap_ok_def snc_live_def below_base_def)

text \<open>What the stub relies on in a transport: no step changes more of the core than the published
  container, and past the point where the request counts as published it is the caller's.\<close>

locale usp_transport =
  fixes call_step :: "env \<Rightarrow> syndrome_container \<Rightarrow> kstate \<Rightarrow> 'pc \<Rightarrow> (kstate \<times> 'pc) outcome"
    and published :: "'pc \<Rightarrow> bool"
  assumes call_core: "call_step e snc s pc = Go (s', pc') \<Longrightarrow>
    publishes s snc s' \<or> same_core s s' \<and> (published pc' \<longrightarrow> published pc)"
begin

lemma call_step_ok:
  assumes "call_step e snc s pc = Go (s', pc')" "core_inv s" "snc_live s snc" "published pc \<longrightarrow> actual_snc s = Some snc"
  shows "core_inv s' \<and> snc_live s' snc \<and> call_usp s' = call_usp s \<and> (published pc' \<longrightarrow> actual_snc s' = Some snc) \<and>
    below_base s s' \<and> configured s' = configured s \<and> gen_syndrome_mutex s' = gen_syndrome_mutex s"
  using call_core [OF assms(1)]
proof
  assume "publishes s snc s'"
  then show ?thesis using publishes_core [of s snc s'] assms(2,3) by simp
next
  assume "same_core s s' \<and> (published pc' \<longrightarrow> published pc)"
  then show ?thesis using same_core_facts [of s s'] assms(2-4) by auto
qed

end

interpretation procfs: usp_transport call_usp_proc_step "\<lambda>pc. pc \<noteq> CP_Down \<and> pc \<noteq> CP_Copy"
proof
  show "publishes s snc s' \<or> same_core s s' \<and> (pc' \<noteq> CP_Down \<and> pc' \<noteq> CP_Copy \<longrightarrow> pc \<noteq> CP_Down \<and> pc \<noteq> CP_Copy)"
    if "call_usp_proc_step e snc s pc = Go (s', pc')" for e snc s pc s' pc'
    using that
    by (cases pc) (auto simp: wait_event_def copy_snc_def same_core_def publishes_def split: if_splits option.splits)
qed

interpretation ioctl: usp_transport call_usp_ioctl_step "\<lambda>pc. pc \<noteq> CI_Init \<and> pc \<noteq> CI_Down \<and> pc \<noteq> CI_Copy"
proof
  show "publishes s snc s' \<or> same_core s s' \<and>
      (pc' \<noteq> CI_Init \<and> pc' \<noteq> CI_Down \<and> pc' \<noteq> CI_Copy \<longrightarrow> pc \<noteq> CI_Init \<and> pc \<noteq> CI_Down \<and> pc \<noteq> CI_Copy)"
    if "call_usp_ioctl_step e snc s pc = Go (s', pc')" for e snc s pc s' pc'
    using that
    by (cases pc) (auto simp: wait_event_def copy_snc_def same_core_def publishes_def split: if_splits option.splits)
qed

interpretation netlink: usp_transport call_usp_nl_step nl_published
proof
  show "publishes s snc s' \<or> same_core s s' \<and> (nl_published pc' \<longrightarrow> nl_published pc)"
    if "call_usp_nl_step e snc s pc = Go (s', pc')" for e snc s pc s' pc'
    using that
    by (cases pc) (auto simp: wait_event_def copy_snc_def nl_recv_ask_def nl_recv_wait_def same_core_def
        publishes_def split: if_splits option.splits)
qed

text \<open>One step of a caller that is inside.\<close>

definition gen_step_ok :: "kstate \<Rightarrow> kstate \<Rightarrow> gen_pc \<Rightarrow> bool" where
  "gen_step_ok s s' pc' \<longleftrightarrow> thread_ok s' (Gen pc') \<and> core_inv s' \<and> below_base s s' \<and>
     configured s' = configured s \<and>
     gen_syndrome_mutex s' + (if inside (Gen pc') then 1 else 0) = gen_syndrome_mutex s + 1"

lemma pack_step_ok:
  assumes core: "core_inv s" and ok: "caller_ok s d p"
  shows "\<exists>snc s'. pack_smc b d n p s = Some (snc, s') \<and> gen_step_ok s s' (G_Call snc)"
proof (cases b)
  case True
  obtain ps where ps: "ptrs_at (k_mem s) p = Some ps" "0 < d" "nat d \<le> length ps"
    using ok by (auto simp: caller_ok_def split: option.splits)
  have h: "heap_ok s" using core by (simp add: core_inv_def)
  let ?s = "s\<lparr>k_mem := (k_mem s)(k_next s \<mapsto> Ptrs (take (nat d) ps)), k_next := Suc (k_next s)\<rparr>"
  have "pack_smc b d n p s = Some (\<lparr>sc_disks = d, sc_bytes = n, sc_ptrs = k_next s\<rparr>, ?s)"
    using pack_smc_ok [OF h ps(1), of "nat d" n] ps True by simp
  moreover have "gen_step_ok s ?s (G_Call \<lparr>sc_disks = d, sc_bytes = n, sc_ptrs = k_next s\<rparr>)"
    using core h ps
    by (simp add: gen_step_ok_def snc_live_def core_inv_def conf_inv_def heap_ok_def below_base_def)
  ultimately show ?thesis by blast
next
  case False
  then show ?thesis
    using core by (simp add: pack_smc_def gen_step_ok_def snc_live_def below_base_def)
qed

lemma kill_step_ok:
  assumes core: "core_inv s" and live: "snc_live s snc"
  shows "\<exists>s'. kill_smc snc s = Some s' \<and> gen_step_ok s s' G_Up"
proof (cases "sc_ptrs snc = null")
  case True
  then show ?thesis
    using core by (simp add: kill_smc_def c_free_def gen_step_ok_def below_base_def)
next
  case False
  then have b: "k_base s \<le> sc_ptrs snc" and m: "k_mem s (sc_ptrs snc) \<noteq> None"
    using live by (auto simp: snc_live_def ptrs_at_def obj_at_def split: option.splits)
  then show ?thesis
    using core False
    by (auto simp: kill_smc_def c_free_def gen_step_ok_def below_base_def core_inv_def conf_inv_def heap_ok_def)
qed

lemma gen_inside_step:
  assumes core: "core_inv s" and conf: "call_usp s \<noteq> None" and i: "inside (Gen pc)"
    and ok: "thread_ok s (Gen pc)" and step: "raid6_cuda_gen_syndrome_step e s pc = Go (s', pc')"
  shows "gen_step_ok s s' pc'"
proof (cases pc)
  case (G_Pack d b p)
  then show ?thesis using pack_step_ok [OF core, of d p "e_ok e" b] ok step by auto
next
  case (G_Call snc)
  have "below_base s s" by (simp add: below_base_def)
  then show ?thesis
    using G_Call core ok step by (auto simp: gen_step_ok_def split: option.splits usp.splits)
next
  case (G_Proc snc q)
  show ?thesis
  proof (cases "\<exists>r. q = CP_Ret r")
    case True
    then show ?thesis using G_Proc core ok step by (auto simp: gen_step_ok_def below_base_def)
  next
    case False
    then obtain q' where q': "call_usp_proc_step e snc s q = Go (s', q')" "pc' = G_Proc snc q'"
      using G_Proc step by (auto split: proc_pc.splits outcome.splits)
    then show ?thesis
      using procfs.call_step_ok [OF q'(1) core] ok G_Proc
      by (auto simp: gen_step_ok_def)
  qed
next
  case (G_Ioctl snc q)
  show ?thesis
  proof (cases "\<exists>r. q = CI_Ret r")
    case True
    then show ?thesis using G_Ioctl core ok step by (auto simp: gen_step_ok_def below_base_def)
  next
    case False
    then obtain q' where q': "call_usp_ioctl_step e snc s q = Go (s', q')" "pc' = G_Ioctl snc q'"
      using G_Ioctl step by (auto split: ioctl_pc.splits outcome.splits)
    then show ?thesis
      using ioctl.call_step_ok [OF q'(1) core] ok G_Ioctl
      by (auto simp: gen_step_ok_def)
  qed
next
  case (G_Nl snc q)
  show ?thesis
  proof (cases "\<exists>r. q = CN_Ret r")
    case True
    then show ?thesis using G_Nl core ok step by (auto simp: gen_step_ok_def below_base_def)
  next
    case False
    then obtain q' where q': "call_usp_nl_step e snc s q = Go (s', q')" "pc' = G_Nl snc q'"
      using G_Nl step by (auto split: nl_pc.splits outcome.splits)
    then show ?thesis
      using netlink.call_step_ok [OF q'(1) core] ok G_Nl
      by (auto simp: gen_step_ok_def simp del: nl_published.simps)
  qed
next
  case (G_Kill snc)
  then show ?thesis using kill_step_ok [OF core, of snc] ok step by auto
next
  case G_Up
  then show ?thesis
    using core step by (auto simp: gen_step_ok_def core_inv_def conf_inv_def heap_ok_def below_base_def)
qed (use i in simp_all)

section \<open>Every run\<close>

lemma length_filter_update:
  "i < length xs \<Longrightarrow> length (filter P (xs[i := y])) + (if P (xs ! i) then 1 else 0) =
     length (filter P xs) + (if P y then 1 else 0)"
proof (induction xs arbitrary: i)
  case (Cons x xs)
  then show ?case
  proof (cases i)
    case (Suc j)
    then show ?thesis using Cons.IH [of j] Cons.prems by (cases "P x"; cases "P (xs ! j)"; cases "P y") simp_all
  qed simp
qed simp

lemma filter_unique:
  assumes "length (filter P xs) \<le> 1" "i < length xs" "P (xs ! i)" "j < length xs" "j \<noteq> i"
  shows "\<not> P (xs ! j)"
proof
  assume "P (xs ! j)"
  then have "{i, j} \<subseteq> {k. k < length xs \<and> P (xs ! k)}" using assms by auto
  then have "card {i, j} \<le> card {k. k < length xs \<and> P (xs ! k)}" by (intro card_mono) auto
  then show False using assms(1,5) by (simp add: length_filter_conv_card)
qed

lemma filter_none: "length (filter P xs) = 0 \<Longrightarrow> x \<in> set xs \<Longrightarrow> \<not> P x"
  by (auto simp: filter_empty_conv)

lemma kinv_at_most_one: "kinv sig k \<Longrightarrow> gen_syndrome_mutex (k_state k) + length (filter inside (k_threads k)) \<le> 1"
  by (auto simp: kinv_def core_inv_def conf_inv_def)

text \<open>What a caller's step does to the flags, when no signal interferes.\<close>

lemma gen_flags:
  assumes "raid6_cuda_gen_syndrome_step e s pc = Go (s', pc')" "\<not> e_signal e"
  shows "procfs_wq_flag s' \<noteq> 2 \<longrightarrow> proc_waiting (Gen pc') \<or>
      procfs_wq_flag s' = procfs_wq_flag s \<and> \<not> proc_waiting (Gen pc)"
    and "ioctl_wq_enter_flag s' \<noteq> 1 \<longrightarrow> ioctl_waiting (Gen pc') \<or>
      ioctl_wq_enter_flag s' = ioctl_wq_enter_flag s \<and> \<not> ioctl_waiting (Gen pc)"
proof -
  have "(procfs_wq_flag s' \<noteq> 2 \<longrightarrow> proc_waiting (Gen pc') \<or>
      procfs_wq_flag s' = procfs_wq_flag s \<and> \<not> proc_waiting (Gen pc)) \<and>
    (ioctl_wq_enter_flag s' \<noteq> 1 \<longrightarrow> ioctl_waiting (Gen pc') \<or>
      ioctl_wq_enter_flag s' = ioctl_wq_enter_flag s \<and> \<not> ioctl_waiting (Gen pc))"
  proof (cases pc)
    case (G_Proc snc q)
    then show ?thesis
      using assms by (cases q) (auto simp: wait_event_def copy_snc_def split: if_splits option.splits)
  next
    case (G_Ioctl snc q)
    then show ?thesis
      using assms by (cases q) (auto simp: wait_event_def copy_snc_def split: if_splits option.splits)
  next
    case (G_Nl snc q)
    then show ?thesis
      using assms by (cases q)
        (auto simp: nl_recv_ask_def nl_recv_wait_def copy_snc_def split: if_splits option.splits)
  next
    case (G_Pack d b p)
    then show ?thesis
      using assms by (auto simp: pack_smc_def bind_eq_Some_conv Let_def split: if_splits option.splits)
  next
    case (G_Kill snc)
    then show ?thesis using assms by (auto simp: kill_smc_def bind_eq_Some_conv split: option.splits)
  qed (use assms in \<open>auto split: if_splits option.splits usp.splits\<close>)
  then show "procfs_wq_flag s' \<noteq> 2 \<longrightarrow> proc_waiting (Gen pc') \<or>
      procfs_wq_flag s' = procfs_wq_flag s \<and> \<not> proc_waiting (Gen pc)"
    "ioctl_wq_enter_flag s' \<noteq> 1 \<longrightarrow> ioctl_waiting (Gen pc') \<or>
      ioctl_wq_enter_flag s' = ioctl_wq_enter_flag s \<and> \<not> ioctl_waiting (Gen pc)"
    by blast+
qed

lemma thread_step_flags:
  assumes "kthread_step e s t = Go (s', t')" "\<not> e_signal e"
  shows "procfs_wq_flag s' \<noteq> 2 \<longrightarrow> proc_waiting t' \<or> procfs_wq_flag s' = procfs_wq_flag s \<and> \<not> proc_waiting t"
    and "ioctl_wq_enter_flag s' \<noteq> 1 \<longrightarrow>
      ioctl_waiting t' \<or> ioctl_wq_enter_flag s' = ioctl_wq_enter_flag s \<and> \<not> ioctl_waiting t"
proof -
  have "is_gen t \<Longrightarrow> \<exists>pc pc'. t = Gen pc \<and> t' = Gen pc' \<and> raid6_cuda_gen_syndrome_step e s pc = Go (s', pc')"
    using assms(1) by (cases t) (auto split: outcome.splits)
  moreover have "\<not> is_gen t \<Longrightarrow> \<not> proc_waiting t \<and> \<not> ioctl_waiting t" by (cases t) simp_all
  ultimately show "procfs_wq_flag s' \<noteq> 2 \<longrightarrow> proc_waiting t' \<or> procfs_wq_flag s' = procfs_wq_flag s \<and> \<not> proc_waiting t"
    "ioctl_wq_enter_flag s' \<noteq> 1 \<longrightarrow>
      ioctl_waiting t' \<or> ioctl_wq_enter_flag s' = ioctl_wq_enter_flag s \<and> \<not> ioctl_waiting t"
    using gen_flags [of e s _ s'] daemon_step [OF assms(1)] assms(2) by (cases "is_gen t"; blast)+
qed

lemma waiting_kept:
  assumes "\<exists>t \<in> set ts. P t" "i < length ts" "\<not> P (ts ! i)"
  shows "\<exists>t \<in> set (ts[i := t']). P t"
proof -
  obtain j where "j < length ts" "P (ts ! j)" using assms(1) by (auto simp: in_set_conv_nth)
  moreover from this have "j \<noteq> i" using assms(3) by auto
  ultimately have "j < length (ts[i := t'])" "P (ts[i := t'] ! j)" by simp_all
  then show ?thesis using nth_mem by blast
qed

lemma flag_inv_run:
  assumes inv: "flag_inv k" and i: "i < length (k_threads k)"
    and step: "kthread_step e (k_state k) (k_threads k ! i) = Go (s', t')" "\<not> e_signal e"
  shows "flag_inv (k\<lparr>k_state := s', k_threads := (k_threads k)[i := t']\<rparr>)"
proof -
  have new: "t' \<in> set ((k_threads k)[i := t'])" using i by (simp add: set_update_memI)
  have "procfs_wq_flag s' \<noteq> 2 \<longrightarrow> (\<exists>t \<in> set ((k_threads k)[i := t']). proc_waiting t)"
    using thread_step_flags(1) [OF step] inv new waiting_kept [of "k_threads k" proc_waiting i t'] i
    unfolding flag_inv_def by metis
  moreover have "ioctl_wq_enter_flag s' \<noteq> 1 \<longrightarrow> (\<exists>t \<in> set ((k_threads k)[i := t']). ioctl_waiting t)"
    using thread_step_flags(2) [OF step] inv new waiting_kept [of "k_threads k" ioctl_waiting i t'] i
    unfolding flag_inv_def by metis
  ultimately show ?thesis by (simp add: flag_inv_def)
qed

text \<open>The invariant is kept by every event.\<close>

lemma kinv_enter:
  assumes inv: "kinv sig k" and t: "entry (k_state k) t"
  shows "kinv sig (k\<lparr>k_threads := k_threads k @ [t]\<rparr>)"
proof -
  have "thread_ok (k_state k) t \<and> \<not> inside t"
    using t by (induction "k_state k" t rule: entry.induct) simp_all
  then show ?thesis using inv by (auto simp: kinv_def flag_inv_def)
qed

lemma thread_ok_conf: "thread_ok (s\<lparr>PID := p, conf_mutex := n\<rparr>) t = thread_ok s t"
  by (induction s t rule: thread_ok.induct) (simp_all add: caller_ok_def snc_live_def)

lemma kinv_conf:
  assumes inv: "kinv sig k" and conf: "conf_write ok buffer count (k_state k) = Go (r, s')"
  shows "kinv sig (k\<lparr>k_state := s'\<rparr>)"
proof -
  let ?s = "k_state k"
  have m: "conf_mutex ?s \<noteq> 0" using conf by (auto simp: conf_write_def split: if_splits)
  from conf_write_frame [OF conf m] consider
    f where "s' = choose_connection f ?s" "PID ?s \<noteq> 0" "configured ?s \<noteq> 1"
    | p n where "s' = ?s\<lparr>PID := p, conf_mutex := n\<rparr>" "configured ?s = 1 \<longrightarrow> p = PID ?s" by blast
  then show ?thesis
  proof cases
    case (1 f)
    then have c: "configured ?s = 0" and none: "gen_syndrome_mutex ?s = 0" "length (filter inside (k_threads k)) = 0"
      using inv by (auto simp: kinv_def core_inv_def conf_inv_def)
    have "below_base ?s s'" by (simp add: 1 choose_connection_def below_base_def)
    then have "thread_ok s' t" if "t \<in> set (k_threads k)" for t
      using below_base_thread filter_none [OF none(2) that] inv that by (auto simp: kinv_def)
    moreover have "core_inv s'"
      using inv 1 by (auto simp: kinv_def core_inv_def conf_inv_def heap_ok_def choose_connection_def)
    ultimately show ?thesis
      using inv 1 none by (auto simp: kinv_def flag_inv_def choose_connection_def)
  next
    case (2 p n)
    then show ?thesis
      using inv by (auto simp: kinv_def core_inv_def conf_inv_def heap_ok_def flag_inv_def thread_ok_conf)
  qed
qed

lemma kinv_daemon:
  assumes inv: "kinv sig k" and i: "i < length (k_threads k)" and t: "\<not> is_gen (k_threads k ! i)"
    and step: "kthread_step e (k_state k) (k_threads k ! i) = Go (s', t')"
  shows "kinv True (k\<lparr>k_state := s', k_threads := (k_threads k)[i := t']\<rparr>)"
proof -
  have same: "same_core (k_state k) s'" and t': "\<not> is_gen t'" using daemon_step [OF step t] by simp_all
  have ni: "\<not> inside t \<and> thread_ok s' t" if "\<not> is_gen t" for t using that by (cases t) simp_all
  have "length (filter inside ((k_threads k)[i := t'])) = length (filter inside (k_threads k))"
    using length_filter_update [OF i, of inside t'] ni [OF t] ni [OF t'] by simp
  moreover have "thread_ok s' u" if "u \<in> set ((k_threads k)[i := t'])" for u
    using set_update_subset_insert [of "k_threads k" i t'] that ni [OF t'] inv same_core_thread [OF same]
    by (auto simp: kinv_def)
  ultimately show ?thesis
    using inv same same_core_inv [OF same] by (simp add: kinv_def same_core_def)
qed

lemma kinv_gen:
  assumes inv: "kinv sig k" and i: "i < length (k_threads k)" and t: "k_threads k ! i = Gen pc"
    and step: "raid6_cuda_gen_syndrome_step e (k_state k) pc = Go (s', pc')"
  shows "kinv True (k\<lparr>k_state := s', k_threads := (k_threads k)[i := Gen pc']\<rparr>)"
proof -
  let ?s = "k_state k" and ?ts = "(k_threads k)[i := Gen pc']"
  have core: "core_inv ?s" and oki: "thread_ok ?s (Gen pc)"
    and cnt: "gen_syndrome_mutex ?s + length (filter inside (k_threads k)) = nat (configured ?s)"
    using inv i t [symmetric] by (auto simp: kinv_def)
  have len: "length (filter inside ?ts) + (if inside (Gen pc) then 1 else 0) =
      length (filter inside (k_threads k)) + (if inside (Gen pc') then 1 else 0)"
    using length_filter_update [OF i, of inside "Gen pc'"] t by simp
  have "gen_step_ok ?s s' pc' \<or> (\<exists>d b p. pc = G_Down d b p)"
  proof (cases "inside (Gen pc)")
    case True
    then have "0 < length (filter inside (k_threads k))"
      using i t by (metis filter_none length_greater_0_conv length_0_conv nth_mem)
    then have "configured ?s = 1" using cnt core by (auto simp: core_inv_def conf_inv_def)
    then have "call_usp ?s \<noteq> None" using core by (simp add: core_inv_def conf_inv_def)
    then show ?thesis using gen_inside_step [OF core _ True oki step] by blast
  next
    case False
    then show ?thesis using step by (cases pc) simp_all
  qed
  then show ?thesis
  proof (elim disjE exE)
    fix d b p assume pc: "pc = G_Down d b p"
    have s': "s' = ?s\<lparr>gen_syndrome_mutex := gen_syndrome_mutex ?s - 1\<rparr>" "pc' = G_Pack d b p"
      "gen_syndrome_mutex ?s \<noteq> 0" using step pc by (auto split: if_splits)
    have same: "thread_ok s' u = thread_ok ?s u" for u
      unfolding s' by (induction ?s u rule: thread_ok.induct) (simp_all add: caller_ok_def snc_live_def)
    have "thread_ok s' u" if "u \<in> set ?ts" for u
      using set_update_subset_insert [of "k_threads k" i "Gen pc'"] that inv same oki pc s'(2)
      by (auto simp: kinv_def)
    then show ?thesis
      using core len pc cnt s'
      by (simp add: kinv_def core_inv_def conf_inv_def heap_ok_def)
  next
    assume ok: "gen_step_ok ?s s' pc'"
    show ?thesis
    proof (cases "inside (Gen pc)")
      case True
      have one: "length (filter inside (k_threads k)) \<le> 1" using kinv_at_most_one [OF inv] by simp
      have "thread_ok s' u" if u: "u \<in> set ?ts" for u
      proof -
        obtain j where j: "j < length (k_threads k)" "u = ?ts ! j" using u by (auto simp: in_set_conv_nth)
        show ?thesis
        proof (cases "j = i")
          case True
          then show ?thesis using j ok by (simp add: gen_step_ok_def)
        next
          case False
          have "\<not> inside (k_threads k ! j)"
            by (rule filter_unique [OF one i]) (use True t j(1) False in simp_all)
          then show ?thesis
            using below_base_thread [of ?s s' "k_threads k ! j"] inv ok j False nth_mem [OF j(1)]
            by (auto simp: kinv_def gen_step_ok_def)
        qed
      qed
      then show ?thesis
        using ok cnt len True by (simp add: kinv_def gen_step_ok_def split: if_splits)
    next
      case False
      then have "\<exists>d b p. pc = G_Down d b p" using step by (cases pc) simp_all
      then show ?thesis using False ok step len cnt
        by (auto simp: gen_step_ok_def split: if_splits)
    qed
  qed
qed

lemma kinv_run:
  assumes inv: "kinv sig k" and i: "i < length (k_threads k)"
    and step: "kthread_step e (k_state k) (k_threads k ! i) = Go (s', t')" and sig: "e_signal e \<longrightarrow> sig"
  shows "kinv sig (k\<lparr>k_state := s', k_threads := (k_threads k)[i := t']\<rparr>)"
proof -
  have "kinv True (k\<lparr>k_state := s', k_threads := (k_threads k)[i := t']\<rparr>)"
  proof (cases "is_gen (k_threads k ! i)")
    case False
    then show ?thesis using kinv_daemon [OF inv i _ step] by blast
  next
    case True
    then obtain pc where pc: "k_threads k ! i = Gen pc" by (cases "k_threads k ! i") simp_all
    then obtain pc' where "t' = Gen pc'" "raid6_cuda_gen_syndrome_step e (k_state k) pc = Go (s', pc')"
      using step by (auto split: outcome.splits)
    then show ?thesis using kinv_gen [OF inv i pc] by blast
  qed
  moreover have "sig \<or> flag_inv (k\<lparr>k_state := s', k_threads := (k_threads k)[i := t']\<rparr>)"
    using flag_inv_run [OF _ i step] sig inv by (auto simp: kinv_def)
  ultimately show ?thesis by (simp add: kinv_def)
qed

lemma kinv_kevent: "kevent ev k = Go k' \<Longrightarrow> signals ev \<longrightarrow> sig \<Longrightarrow> kinv sig k \<Longrightarrow> kinv sig k'"
  by (cases ev) (auto split: if_splits outcome.splits intro: kinv_enter kinv_conf kinv_run)

interpretation module_run: invariant_system "kstep sig" "kinv sig" for sig
  by unfold_locales (auto elim!: kstep.cases intro: kinv_kevent)

lemma kinv_reach:
  assumes "started s" "kreach sig \<lparr>k_state = s, k_threads = []\<rparr> k"
  shows "kinv sig k"
  by (rule module_run.inv_steps [OF assms(2)])
    (use assms(1) in \<open>simp add: started_def kinv_def core_inv_def conf_inv_def flag_inv_def\<close>)

lemma kevents_reach:
  assumes "kevents evs k = Go k'" "sig \<or> list_all (\<lambda>ev. \<not> signals ev) evs"
  shows "kreach sig k k'"
  using assms
proof (induction evs arbitrary: k)
  case (Cons ev evs)
  then obtain k1 where "kevent ev k = Go k1" "kevents evs k1 = Go k'" by (auto split: outcome.splits)
  then show ?case
    using Cons by (auto intro: converse_rtranclp_into_rtranclp kstep.step)
qed simp

section \<open>Properties\<close>

text \<open>C6. In every run of the started module, signals included: at most one caller is inside
  \<open>raid6_cuda_gen_syndrome\<close>, and none before the module is configured; so the call through the
  function pointer \<open>call_usp\<close> never goes through a null pointer.\<close>

theorem kernel_one_job_at_a_time:
  assumes "started s" "kreach sig \<lparr>k_state = s, k_threads = []\<rparr> k"
  shows "length (filter inside (k_threads k)) \<le> 1 \<and>
    (filter inside (k_threads k) \<noteq> [] \<longrightarrow>
       gen_syndrome_mutex (k_state k) = 0 \<and> configured (k_state k) = 1 \<and>
       PID (k_state k) \<noteq> 0 \<and> call_usp (k_state k) \<noteq> None)"
proof -
  have inv: "kinv sig k" by (rule kinv_reach [OF assms])
  then have "length (filter inside (k_threads k)) \<le> nat (configured (k_state k))"
    "conf_inv (k_state k)" by (auto simp: kinv_def core_inv_def)
  then show ?thesis
    using kinv_at_most_one [OF inv]
    by (cases "filter inside (k_threads k)") (auto simp: conf_inv_def)
qed

definition sample_started :: kstate where
  "sample_started = (module_init 0x1000 [1 \<mapsto> Ptrs [2, 3, 4], 2 \<mapsto> Bytes [7], 3 \<mapsto> Bytes [8], 4 \<mapsto> Bytes [9]] 5)
     \<lparr>gen_syndrome_mutex := 0, ioctl_init_mutex := 0,
      actual_snc := Some \<lparr>sc_disks = 0, sc_bytes = 0, sc_ptrs = null\<rparr>\<rparr>"

lemma started_sample: "started sample_started"
  by (simp add: started_def sample_started_def module_init_def heap_ok_def)

definition calm :: env where
  "calm = \<lparr>e_ok = True, e_signal = False\<rparr>"

text \<open>The daemon configures the module for procfs and a caller asks for a syndrome, up to the point
  where it waits for the daemon.\<close>

definition submit :: "event list" where
  "submit = [Conf True ''pid=7'' 5, Conf True ''con=PROCFS'' 10, Enter (Gen (G_Down 3 1 1)),
     Run 0 calm, Run 0 calm, Run 0 calm, Run 0 calm, Run 0 calm, Run 0 calm]"

definition idle :: ksys where
  "idle = \<lparr>k_state = sample_started, k_threads = []\<rparr>"

definition submitted :: ksys where
  "submitted = go_or idle (kevents submit idle)"

lemma submitted_run: "kreach False \<lparr>k_state = sample_started, k_threads = []\<rparr> submitted"
proof -
  have "is_go (kevents submit idle)" by code_simp
  then have "kevents submit idle = Go submitted" unfolding submitted_def by (rule is_go_go_or)
  moreover have "list_all (\<lambda>ev. \<not> signals ev) submit" by code_simp
  ultimately show ?thesis unfolding idle_def using kevents_reach by blast
qed

lemma submitted_threads:
  "k_threads submitted = [Gen (G_Proc \<lparr>sc_disks = 3, sc_bytes = 1, sc_ptrs = 5\<rparr> CP_Wait)]"
  by code_simp

theorem kernel_one_job_at_a_time_witness:
  "length (filter inside (k_threads submitted)) = 1 \<and> call_usp (k_state submitted) \<noteq> None"
proof -
  have "filter inside (k_threads submitted) = k_threads submitted" by (simp add: submitted_threads)
  then show ?thesis
    using kernel_one_job_at_a_time [OF started_sample submitted_run] by (simp add: submitted_threads)
qed



text \<open>C19. The procfs and ioctl handshakes, in every run without signals: whenever the daemon can get
  past its wait for work, a caller is waiting and its container is published; the caller goes on
  only after the daemon has reported back.\<close>

theorem daemon_sees_waiting_job:
  assumes "started s" "kreach False \<lparr>k_state = s, k_threads = []\<rparr> k"
  shows "(proc_read_step calm (k_state k) PR_Wait \<noteq> Block \<longrightarrow>
      (\<exists>snc. Gen (G_Proc snc CP_Wait) \<in> set (k_threads k) \<and> actual_snc (k_state k) = Some snc \<and>
        snc_live (k_state k) snc \<and> call_usp_proc_step calm snc (k_state k) CP_Wait = Block)) \<and>
    (ioctl_callback_step calm (k_state k) IO_Wait \<noteq> Block \<longrightarrow>
      (\<exists>snc. Gen (G_Ioctl snc CI_Wait) \<in> set (k_threads k) \<and> actual_snc (k_state k) = Some snc \<and>
        snc_live (k_state k) snc \<and> call_usp_ioctl_step calm snc (k_state k) CI_Wait = Block))"
proof -
  have inv: "kinv False k" by (rule kinv_reach [OF assms])
  have pw: "\<exists>snc. t = Gen (G_Proc snc CP_Wait)" if "proc_waiting t" for t
    using that by (cases t rule: proc_waiting.cases) simp_all
  have iw: "\<exists>snc. t = Gen (G_Ioctl snc CI_Wait)" if "ioctl_waiting t" for t
    using that by (cases t rule: ioctl_waiting.cases) simp_all
  have ok: "thread_ok (k_state k) t" if "t \<in> set (k_threads k)" for t using inv that by (simp add: kinv_def)
  have "\<exists>snc. Gen (G_Proc snc CP_Wait) \<in> set (k_threads k)" if "procfs_wq_flag (k_state k) = 0"
    using inv that pw by (fastforce simp: kinv_def flag_inv_def)
  moreover have "\<exists>snc. Gen (G_Ioctl snc CI_Wait) \<in> set (k_threads k)" if "ioctl_wq_enter_flag (k_state k) = 0"
    using inv that iw by (fastforce simp: kinv_def flag_inv_def)
  ultimately show ?thesis using ok by (fastforce simp: wait_event_def calm_def)
qed

theorem daemon_sees_waiting_job_witness:
  "proc_read_step calm (k_state submitted) PR_Wait \<noteq> Block \<and>
   (\<exists>snc. Gen (G_Proc snc CP_Wait) \<in> set (k_threads submitted) \<and> snc_live (k_state submitted) snc)"
proof -
  have "is_go (proc_read_step calm (k_state submitted) PR_Wait)" by code_simp
  then have "proc_read_step calm (k_state submitted) PR_Wait \<noteq> Block" by auto
  then show ?thesis using daemon_sees_waiting_job [OF started_sample submitted_run] by blast
qed

text \<open>A request completes: from any state in which a caller waits for the daemon over procfs and
  no other report is under way, the daemon's report with the right address lets the caller
  return; its container is freed and the next caller can enter.\<close>

theorem proc_report_completes:
  assumes "k_threads k ! i = Gen (G_Proc snc CP_Wait)" "i < length (k_threads k)"
    and "proc_write_mutex (k_state k) = 1" "snc_live (k_state k) snc" "n = length (k_threads k)"
  shows "\<exists>k'. kevents ([Enter (Proc_Write (PW_Down 8 (snc_addr (k_state k)))), Run n calm, Run n calm, Run n calm,
      Run n calm] @ replicate 5 (Run i calm)) k = Go k' \<and>
    k_threads k' ! i = Gen G_Ret \<and> k_threads k' ! n = Proc_Write (PW_Ret 8) \<and>
    gen_syndrome_mutex (k_state k') = gen_syndrome_mutex (k_state k) + 1 \<and>
    proc_write_mutex (k_state k') = 1 \<and> procfs_wq_flag (k_state k') = 2 \<and>
    (sc_ptrs snc \<noteq> null \<longrightarrow> k_mem (k_state k') (sc_ptrs snc) = None)"
proof -
  have live: "sc_ptrs snc \<noteq> null \<Longrightarrow> k_mem (k_state k) (sc_ptrs snc) \<noteq> None"
    using assms(4) by (auto simp: snc_live_def ptrs_at_def obj_at_def split: option.splits)
  have i: "i \<noteq> n" "n \<noteq> i" using assms(2,5) by auto
  have eight: "size_to_int 8 = 8" using size_to_int_of_nat [of 8] by simp
  show ?thesis
    using assms(1-3) live i
    by (cases "sc_ptrs snc = null")
       (auto simp: assms(5) nth_append calm_def wait_event_def kill_smc_def c_free_def list_update_append
        eval_nat_numeral eight split: option.splits)
qed

theorem proc_report_completes_witness:
  "\<exists>k'. kevents ([Enter (Proc_Write (PW_Down 8 0x1000)), Run 1 calm, Run 1 calm, Run 1 calm, Run 1 calm]
      @ replicate 5 (Run 0 calm)) submitted = Go k' \<and> k_threads k' ! 0 = Gen G_Ret"
proof -
  have s: "proc_write_mutex (k_state submitted) = 1" "snc_addr (k_state submitted) = 0x1000" by code_simp+
  let ?snc = "\<lparr>sc_disks = 3, sc_bytes = 1, sc_ptrs = 5\<rparr> :: syndrome_container"
  have live: "snc_live (k_state submitted) ?snc" by code_simp
  have "\<exists>k'. kevents ([Enter (Proc_Write (PW_Down 8 (snc_addr (k_state submitted)))), Run 1 calm, Run 1 calm,
      Run 1 calm, Run 1 calm] @ replicate 5 (Run 0 calm)) submitted = Go k' \<and>
    k_threads k' ! 0 = Gen G_Ret \<and> k_threads k' ! 1 = Proc_Write (PW_Ret 8) \<and>
    gen_syndrome_mutex (k_state k') = gen_syndrome_mutex (k_state submitted) + 1 \<and>
    proc_write_mutex (k_state k') = 1 \<and> procfs_wq_flag (k_state k') = 2 \<and>
    (sc_ptrs ?snc \<noteq> null \<longrightarrow> k_mem (k_state k') (sc_ptrs ?snc) = None)"
    by (rule proc_report_completes [OF _ _ s(1) live]) (simp_all add: submitted_threads)
  then show ?thesis unfolding s(2) by blast
qed

text \<open>No report can get through any more.\<close>

definition wedged :: "nat \<Rightarrow> syndrome_container \<Rightarrow> ksys \<Rightarrow> bool" where
  "wedged i snc k \<longleftrightarrow> i < length (k_threads k) \<and> k_threads k ! i = Gen (G_Proc snc CP_Wait) \<and>
     procfs_wq_flag (k_state k) = 0 \<and> proc_write_mutex (k_state k) = 0 \<and>
     (\<forall>t \<in> set (k_threads k). case t of Proc_Write (PW_Check n a) \<Rightarrow> False | Proc_Write (PW_Flag n) \<Rightarrow> False
        | Proc_Write (PW_Up n) \<Rightarrow> False | _ \<Rightarrow> True)"

lemma gen_keeps_wedge:
  assumes "raid6_cuda_gen_syndrome_step e s pc = Go (s', pc')"
  shows "proc_write_mutex s' = proc_write_mutex s \<and> (procfs_wq_flag s' = procfs_wq_flag s \<or> procfs_wq_flag s' = 0)"
proof (cases pc)
  case (G_Proc snc q)
  then show ?thesis
    using assms by (cases q) (auto simp: wait_event_def copy_snc_def split: if_splits option.splits)
next
  case (G_Ioctl snc q)
  then show ?thesis
    using assms by (cases q) (auto simp: wait_event_def copy_snc_def split: if_splits option.splits)
next
  case (G_Nl snc q)
  then show ?thesis
    using assms by (cases q)
      (auto simp: nl_recv_ask_def nl_recv_wait_def copy_snc_def split: if_splits option.splits)
next
  case (G_Pack d b p)
  then show ?thesis
    using assms by (auto simp: pack_smc_def bind_eq_Some_conv Let_def split: if_splits option.splits)
next
  case (G_Kill snc)
  then show ?thesis using assms by (auto simp: kill_smc_def bind_eq_Some_conv split: option.splits)
qed (use assms in \<open>auto split: if_splits option.splits usp.splits\<close>)

lemma thread_keeps_wedge:
  assumes "kthread_step e s t = Go (s', t')" "proc_write_mutex s = 0" "procfs_wq_flag s = 0"
    and "case t of Proc_Write (PW_Check n a) \<Rightarrow> False | Proc_Write (PW_Flag n) \<Rightarrow> False
        | Proc_Write (PW_Up n) \<Rightarrow> False | _ \<Rightarrow> True"
  shows "proc_write_mutex s' = 0 \<and> procfs_wq_flag s' = 0 \<and>
    (case t' of Proc_Write (PW_Check n a) \<Rightarrow> False | Proc_Write (PW_Flag n) \<Rightarrow> False
        | Proc_Write (PW_Up n) \<Rightarrow> False | _ \<Rightarrow> True)"
proof (cases t)
  case (Gen pc)
  then obtain pc' where "t' = Gen pc'" "raid6_cuda_gen_syndrome_step e s pc = Go (s', pc')"
    using assms(1) by (auto split: outcome.splits)
  then show ?thesis using gen_keeps_wedge assms(2,3) by fastforce
next
  case (Proc_Read pc)
  then show ?thesis using assms by (cases pc) (auto simp: wait_event_def split: if_splits)
next
  case (Proc_Write pc)
  then show ?thesis using assms by (cases pc) (auto split: if_splits)
next
  case (Ioctl pc)
  then show ?thesis using assms by (cases pc) (auto simp: wait_event_def split: if_splits)
next
  case (Nl_Ready pc)
  then show ?thesis using assms by (cases pc) (auto simp: wait_event_def split: if_splits)
qed

lemma wedged_step:
  assumes w: "wedged i snc k" and ev: "kevent ev k = Go k'" "\<not> signals ev"
  shows "wedged i snc k'"
proof (cases ev)
  case (Enter t)
  have "case t of Proc_Write (PW_Check n a) \<Rightarrow> False | Proc_Write (PW_Flag n) \<Rightarrow> False
        | Proc_Write (PW_Up n) \<Rightarrow> False | _ \<Rightarrow> True" if "entry (k_state k) t"
    using that by (induction "k_state k" t rule: entry.induct) simp_all
  then show ?thesis using w ev Enter by (auto simp: wedged_def nth_append split: if_splits)
next
  case (Conf ok buffer count)
  then obtain r s' where c: "conf_write ok buffer count (k_state k) = Go (r, s')" "k' = k\<lparr>k_state := s'\<rparr>"
    using ev by (auto split: outcome.splits)
  have "conf_mutex (k_state k) \<noteq> 0" using c(1) by (auto simp: conf_write_def split: if_splits)
  from conf_write_frame [OF c(1) this] show ?thesis
    using w c(2) by (auto simp: wedged_def choose_connection_def)
next
  case (Run j e)
  then obtain s' t' where st: "j < length (k_threads k)"
    "kthread_step e (k_state k) (k_threads k ! j) = Go (s', t')"
    "k' = k\<lparr>k_state := s', k_threads := (k_threads k)[j := t']\<rparr>"
    using ev by (auto split: if_splits outcome.splits)
  have "j \<noteq> i" using w st(2) ev(2) Run by (auto simp: wedged_def wait_event_def split: if_splits)
  moreover have "proc_write_mutex s' = 0 \<and> procfs_wq_flag s' = 0 \<and>
    (case t' of Proc_Write (PW_Check n a) \<Rightarrow> False | Proc_Write (PW_Flag n) \<Rightarrow> False
        | Proc_Write (PW_Up n) \<Rightarrow> False | _ \<Rightarrow> True)"
    by (rule thread_keeps_wedge [OF st(2)]) (use w st(1) in \<open>auto simp: wedged_def\<close>)
  ultimately show ?thesis
    using w st set_update_subset_insert [of "k_threads k" j t'] unfolding wedged_def by auto
qed

interpretation wedged_run: invariant_system "kstep False" "wedged i snc" for i snc
  by unfold_locales (auto elim!: kstep.cases intro: wedged_step)

text \<open>A report that is too short or has the wrong address returns an error and leaves
  \<open>proc_write_mutex\<close> locked for good: in every further run without signals the waiting caller
  never returns.\<close>

theorem wrong_report_wedges:
  assumes "k_threads k ! i = Gen (G_Proc snc CP_Wait)" "i < length (k_threads k)"
    and "proc_write_mutex (k_state k) = 1" "procfs_wq_flag (k_state k) = 0"
    and "\<forall>t \<in> set (k_threads k). \<forall>pc. t \<noteq> Proc_Write pc"
    and "n < 8 \<or> a \<noteq> snc_addr (k_state k)" "N = length (k_threads k)"
  shows "\<exists>r k1. kevents [Enter (Proc_Write (PW_Down n a)), Run N calm, Run N calm] k = Go k1 \<and>
    k_threads k1 ! N = Proc_Write (PW_Ret r) \<and> r < 0 \<and>
    (\<forall>k2. kreach False k1 k2 \<longrightarrow> k_threads k2 ! i = Gen (G_Proc snc CP_Wait))"
proof -
  let ?r = "if n < 8 then - EOVERFLOW else - EFAULT"
  let ?k1 = "k\<lparr>k_state := (k_state k)\<lparr>proc_write_mutex := 0\<rparr>, k_threads := k_threads k @ [Proc_Write (PW_Ret ?r)]\<rparr>"
  have run: "kevents [Enter (Proc_Write (PW_Down n a)), Run N calm, Run N calm] k = Go ?k1"
    using assms(3,6) by (auto simp: assms(7) nth_append calm_def list_update_append)
  have "wedged i snc ?k1"
    using assms(1,2,4,5) by (auto simp: wedged_def nth_append split: kthread.splits proc_write_pc.splits)
  then have "wedged i snc k2" if "kreach False ?k1 k2" for k2 using wedged_run.inv_steps [OF that] by blast
  then have "k_threads k2 ! i = Gen (G_Proc snc CP_Wait)" if "kreach False ?k1 k2" for k2
    using that unfolding wedged_def by blast
  then show ?thesis
    using run by (intro exI [of _ ?r] exI [of _ ?k1]) (simp add: assms(7) EOVERFLOW_def EFAULT_def)
qed

theorem wrong_report_wedges_witness:
  "\<exists>k1. kevents [Enter (Proc_Write (PW_Down 8 0)), Run 1 calm, Run 1 calm] submitted = Go k1 \<and>
    (\<forall>k2. kreach False k1 k2 \<longrightarrow> \<not> k_threads k2 ! 0 = Gen G_Ret)"
proof -
  let ?snc = "\<lparr>sc_disks = 3, sc_bytes = 1, sc_ptrs = 5\<rparr> :: syndrome_container"
  have s: "proc_write_mutex (k_state submitted) = 1" "procfs_wq_flag (k_state submitted) = 0"
    "snc_addr (k_state submitted) = 0x1000" by code_simp+
  have "\<exists>r k1. kevents [Enter (Proc_Write (PW_Down 8 0)), Run 1 calm, Run 1 calm] submitted = Go k1 \<and>
    k_threads k1 ! 1 = Proc_Write (PW_Ret r) \<and> r < 0 \<and>
    (\<forall>k2. kreach False k1 k2 \<longrightarrow> k_threads k2 ! 0 = Gen (G_Proc ?snc CP_Wait))"
    by (rule wrong_report_wedges [OF _ _ s(1,2)]) (simp_all add: submitted_threads s(3))
  then show ?thesis by fastforce
qed

text \<open>A signal breaks the handshake: when it interrupts the waiting caller, the caller returns and
  frees its pointer array although no report has come, and the daemon's next read is still told
  that there is work: the container it refers to is the one whose array has been freed.\<close>

theorem signal_leaves_dangling_container:
  "\<exists>k. kevents ([Run 0 \<lparr>e_ok = True, e_signal = True\<rparr>] @ replicate 4 (Run 0 calm) @
      [Enter (Proc_Read PR_Down)] @ replicate 4 (Run 1 calm)) submitted = Go k \<and>
    k_threads k = [Gen G_Ret, Proc_Read (PR_Ret 8 (snc_addr (k_state k)))] \<and>
    (\<exists>snc. actual_snc (k_state k) = Some snc \<and> sc_disks snc = 3 \<and> ptrs_at (k_mem (k_state k)) (sc_ptrs snc) = None)"
proof -
  let ?r = "kevents ([Run 0 \<lparr>e_ok = True, e_signal = True\<rparr>] @ replicate 4 (Run 0 calm) @
      [Enter (Proc_Read PR_Down)] @ replicate 4 (Run 1 calm)) submitted"
  have "is_go ?r" by code_simp
  then have "?r = Go (go_or submitted ?r)" by (rule is_go_go_or)
  moreover have "k_threads (go_or submitted ?r) =
      [Gen G_Ret, Proc_Read (PR_Ret 8 (snc_addr (k_state (go_or submitted ?r))))]" by code_simp
  moreover have "actual_snc (k_state (go_or submitted ?r)) = Some \<lparr>sc_disks = 3, sc_bytes = 1, sc_ptrs = 5\<rparr>"
    by code_simp
  moreover have "ptrs_at (k_mem (k_state (go_or submitted ?r))) 5 = None" by code_simp
  ultimately show ?thesis by (metis syndrome_container.select_convs(1,3))
qed

end
