(* ===== verification/Kernel_Mmap.thy ===== *)
theory Kernel_Mmap
  imports Kernel_State
begin

unbundle bit_operations_syntax

text \<open>
  How the daemon gets at the data of a request: the \<open>mmap\<close> handler of \<open>/dev/barracuda\<close>
  (\<open>mmap_mmap\<close>, \<open>map_mem\<close>, \<open>map_vmem\<close>, \<open>map_kmem\<close>) and the \<open>pread\<close>/\<open>pwrite\<close> handlers
  (\<open>barracuda_read\<close>, \<open>barracuda_write\<close>).

  The memory management of the kernel is a parameter, \<open>mm_api\<close>: the addresses of objects,
  \<open>is_vmalloc_addr\<close>, \<open>vmalloc_to_pfn\<close>, \<open>virt_to_phys\<close> and the return code of
  \<open>remap_pfn_range\<close>. A mapping handler returns its code and the list of ranges it has mapped
  (user address, page frame, length).
\<close>

record vma =
  vm_start :: u64
  vm_end :: u64
  vm_pgoff :: u64

type_synonym mapping = "u64 \<times> u64 \<times> int"

record mm_api =
  snc_object :: u64
  addr_of :: "ptr \<Rightarrow> u64"
  is_vmalloc_addr :: "u64 \<Rightarrow> bool"
  vmalloc_to_pfn :: "u64 \<Rightarrow> u64"
  virt_to_phys :: "u64 \<Rightarrow> u64"
  remap_pfn_range :: "u64 \<Rightarrow> u64 \<Rightarrow> int \<Rightarrow> int"

definition NPAGES :: nat where
  "NPAGES = 16"

definition PAGE_SHIFT :: nat where
  "PAGE_SHIFT = 12"

definition vma_length :: "vma \<Rightarrow> int" where
  "vma_length v = sint (vm_end v - vm_start v)"

function map_vmem_loop :: "mm_api \<Rightarrow> u64 \<Rightarrow> u64 \<Rightarrow> int \<Rightarrow> mapping list \<Rightarrow> int \<times> mapping list" where
  "map_vmem_loop api start data len maps =
     (if 0 < len then
        let pfn = vmalloc_to_pfn api data;
            ret = remap_pfn_range api start pfn (int PAGE_SIZE) in
        if ret < 0 then (ret, maps)
        else map_vmem_loop api (start + of_nat PAGE_SIZE) (data + of_nat PAGE_SIZE) (len - int PAGE_SIZE)
               (maps @ [(start, pfn, int PAGE_SIZE)])
      else (0, maps))"
  by pat_completeness auto
termination
  by (relation "measure (\<lambda>(api, start, data, len, maps). nat len)") (auto simp: PAGE_SIZE_def)

declare map_vmem_loop.simps [simp del]

definition map_vmem :: "mm_api \<Rightarrow> vma \<Rightarrow> u64 \<Rightarrow> int \<times> mapping list" where
  "map_vmem api v data = map_vmem_loop api (vm_start v) data (vma_length v) []"

definition map_kmem :: "mm_api \<Rightarrow> vma \<Rightarrow> u64 \<Rightarrow> int \<times> mapping list" where
  "map_kmem api v data = (let len = vma_length v; start = vm_start v in
     if len > int (NPAGES * PAGE_SIZE) then (- EIO, [])
     else let pfn = drop_bit PAGE_SHIFT (virt_to_phys api data);
              ret = remap_pfn_range api start pfn len in
       if ret < 0 then (ret, []) else (0, [(start, pfn, len)]))"

definition map_mem :: "mm_api \<Rightarrow> vma \<Rightarrow> u64 \<Rightarrow> int \<times> mapping list" where
  "map_mem api v data = (if is_vmalloc_addr api data then map_vmem api v data else map_kmem api v data)"

text \<open>Page offset 0 is the container, offset \<open>i\<close> the disk \<open>i - 1\<close>.\<close>

definition mmap_mmap :: "mm_api \<Rightarrow> kstate \<Rightarrow> vma \<Rightarrow> (int \<times> mapping list) outcome" where
  "mmap_mmap api s v = (let i = vm_pgoff v in
     if i = 0 then Go (map_mem api v (snc_object api))
     else case actual_snc s of None \<Rightarrow> Fault | Some snc \<Rightarrow>
       (case ptr_index (k_mem s) (sc_ptrs snc) (uint (i - 1)) of
          None \<Rightarrow> Fault | Some p \<Rightarrow> Go (map_mem api v (addr_of api p))))"

text \<open>\<open>copied\<close> is the number of bytes that reach their destination, the rest of a failed
  \<open>copy_from_user\<close> is filled with zeros. Both handlers report all bytes as transferred.\<close>

definition snc_disk :: "kstate \<Rightarrow> u64 \<Rightarrow> ptr option" where
  "snc_disk s offset = do {
     snc \<leftarrow> actual_snc s;
     ptr_index (k_mem s) (sc_ptrs snc) (size_to_int offset) }"

definition barracuda_read :: "nat \<Rightarrow> kstate \<Rightarrow> nat \<Rightarrow> u64 \<Rightarrow> (nat \<times> u8 list) option" where
  "barracuda_read copied s to_copy offset = do {
     tmp \<leftarrow> snc_disk s offset;
     data \<leftarrow> read_bytes (k_mem s) tmp 0 (min copied to_copy);
     Some (to_copy, data) }"

definition barracuda_write :: "nat \<Rightarrow> kstate \<Rightarrow> u8 list \<Rightarrow> u64 \<Rightarrow> (nat \<times> kstate) option" where
  "barracuda_write copied s user offset = do {
     tmp \<leftarrow> snc_disk s offset;
     m \<leftarrow> write_bytes (k_mem s) tmp 0 (take copied user @ replicate (length user - copied) 0);
     Some (length user, s\<lparr>k_mem := m\<rparr>) }"

section \<open>Lemmas\<close>

text \<open>The pages of a range.\<close>

definition pages :: "mm_api \<Rightarrow> u64 \<Rightarrow> u64 \<Rightarrow> nat \<Rightarrow> mapping list" where
  "pages api start data n = map (\<lambda>k. (start + of_nat (4096 * k), vmalloc_to_pfn api (data + of_nat (4096 * k)), 4096)) [0..<n]"

lemma pages_Suc:
  "pages api start data (Suc n) =
     (start, vmalloc_to_pfn api data, 4096) # pages api (start + 4096) (data + 4096) n"
proof -
  have "[0..<Suc n] = 0 # map Suc [0..<n]" by (metis map_Suc_upt upt_conv_Cons zero_less_Suc)
  then show ?thesis by (simp add: pages_def add.assoc [symmetric])
qed

definition page_count :: "int \<Rightarrow> nat" where
  "page_count len = nat ((len + 4095) div 4096)"

lemma page_count_step: "0 < len \<Longrightarrow> page_count len = Suc (page_count (len - 4096))"
proof -
  assume "0 < len"
  then show ?thesis
    using div_mult_self1 [of 4096 "len - 4096 + 4095" 1] unfolding page_count_def by simp
qed

lemma map_vmem_loop_ok:
  assumes "\<And>a p. 0 \<le> remap_pfn_range api a p 4096"
  shows "map_vmem_loop api start data len maps = (0, maps @ pages api start data (page_count len))"
proof (induction "page_count len" arbitrary: start data len maps)
  case 0
  then have "\<not> 0 < len" using page_count_step [of len] by auto
  then show ?case using 0 by (subst map_vmem_loop.simps) (simp add: pages_def)
next
  case (Suc n)
  then have "0 < len" by (cases "0 < len") (simp_all add: page_count_def)
  then show ?case
    using Suc.hyps(1) [of "len - 4096"] Suc.hyps(2) page_count_step [of len]
      assms [of start "vmalloc_to_pfn api data"]
    by (subst map_vmem_loop.simps) (simp add: Let_def PAGE_SIZE_def pages_Suc)
qed

text \<open>The first page that cannot be mapped ends the loop; the pages before it stay mapped.\<close>

lemma map_vmem_loop_error:
  assumes "k < page_count len"
    and "\<forall>j < k. 0 \<le> remap_pfn_range api (start + of_nat (4096 * j)) (vmalloc_to_pfn api (data + of_nat (4096 * j))) 4096"
    and "remap_pfn_range api (start + of_nat (4096 * k)) (vmalloc_to_pfn api (data + of_nat (4096 * k))) 4096 < 0"
  shows "map_vmem_loop api start data len maps =
    (remap_pfn_range api (start + of_nat (4096 * k)) (vmalloc_to_pfn api (data + of_nat (4096 * k))) 4096,
     maps @ pages api start data k)"
  using assms
proof (induction k arbitrary: start data len maps)
  case 0
  then have "0 < len" by (cases "0 < len") (simp_all add: page_count_def)
  then show ?case using 0 by (subst map_vmem_loop.simps) (simp add: Let_def PAGE_SIZE_def pages_def)
next
  case (Suc k)
  have len: "0 < len" using Suc.prems(1) by (cases "0 < len") (simp_all add: page_count_def)
  have shift: "x + of_nat (4096 * Suc j) = (x + 4096) + of_nat (4096 * j)" for x :: u64 and j by simp
  have "\<forall>j < k. 0 \<le> remap_pfn_range api (start + of_nat (4096 * Suc j))
      (vmalloc_to_pfn api (data + of_nat (4096 * Suc j))) 4096"
    using Suc.prems(2) by blast
  note IH = Suc.IH [of "len - 4096" "start + 4096" "data + 4096" "maps @ [(start, vmalloc_to_pfn api data, 4096)]",
      folded shift, OF _ this Suc.prems(3)]
  have "0 \<le> remap_pfn_range api start (vmalloc_to_pfn api data) 4096"
    using Suc.prems(2) [rule_format, of 0] by simp
  then show ?case
    using IH Suc.prems(1) page_count_step [OF len] len
    by (subst map_vmem_loop.simps) (simp add: Let_def PAGE_SIZE_def pages_Suc)
qed

lemma snc_disk_Some:
  assumes "actual_snc s = Some snc" "ptrs_at (k_mem s) (sc_ptrs snc) = Some ps" "i < length ps" "i < 2 ^ 31"
  shows "snc_disk s (of_nat i) = Some (ps ! i)"
  using assms size_to_int_of_nat [of i] by (simp add: snc_disk_def ptr_index_def)

section \<open>Properties\<close>

text \<open>Mapping a disk of the published request: at page offset \<open>i + 1\<close> the handler maps the buffer
  of disk \<open>i\<close>. A \<open>vmalloc\<close> buffer is mapped page by page, page \<open>k\<close> of the area to the frame of page
  \<open>k\<close> of the buffer, up to the end of the area; other buffers in one piece if they have at most 16
  pages, and not at all otherwise. An offset past the last disk reads outside the pointer array.\<close>

theorem mmap_maps_disk:
  assumes "actual_snc s = Some snc" "ptrs_at (k_mem s) (sc_ptrs snc) = Some ps"
    and "\<forall>a p n. 0 \<le> remap_pfn_range api a p n" "vm_pgoff v = of_nat (i + 1)" "i < 2 ^ 63"
  shows "mmap_mmap api s v =
    (if length ps \<le> i then Fault
     else let data = addr_of api (ps ! i); len = vma_length v in
       Go (if is_vmalloc_addr api data then (0, pages api (vm_start v) data (page_count len))
           else if len > 65536 then (- EIO, [])
           else (0, [(vm_start v, drop_bit 12 (virt_to_phys api data), len)])))"
proof -
  have w: "unat (of_nat (i + 1) :: u64) = i + 1"
    using assms(5) by (simp add: unsigned_of_nat take_bit_nat_eq_self del: of_nat_add of_nat_Suc)
  have nz: "vm_pgoff v \<noteq> 0" using w unfolding assms(4) by (metis add_is_0 one_neq_zero unat_eq_0)
  have "vm_pgoff v - 1 = of_nat i" unfolding assms(4) by simp
  then have u: "uint (vm_pgoff v - 1) = int i"
    using assms(5) by (simp add: unsigned_of_nat take_bit_nat_eq_self)
  have neg: "\<not> remap_pfn_range api a p n < 0" for a p n using assms(3) by (simp add: not_less)
  show ?thesis
    using assms(1,2) nz
    by (simp add: mmap_mmap_def Let_def u ptr_index_def map_mem_def map_vmem_def map_kmem_def
        map_vmem_loop_ok [OF assms(3) [rule_format]] neg NPAGES_def PAGE_SIZE_def PAGE_SHIFT_def)
qed

definition sample_api :: mm_api where
  "sample_api = \<lparr>snc_object = 0x100000, addr_of = (\<lambda>p. of_nat (0x10000 * p)), is_vmalloc_addr = (\<lambda>a. True),
     vmalloc_to_pfn = (\<lambda>a. drop_bit 12 a), virt_to_phys = (\<lambda>a. a), remap_pfn_range = (\<lambda>a p n. 0)\<rparr>"

definition sample_request :: kstate where
  "sample_request = sample_kstate\<lparr>actual_snc := Some \<lparr>sc_disks = 2, sc_bytes = 1, sc_ptrs = 1\<rparr>\<rparr>"

lemma sample_request_ptrs:
  "actual_snc sample_request = Some \<lparr>sc_disks = 2, sc_bytes = 1, sc_ptrs = 1\<rparr>"
  "ptrs_at (k_mem sample_request) 1 = Some [2, 3]"
  by (simp_all add: sample_request_def sample_kstate_def module_init_def ptrs_at_def obj_at_def)

theorem mmap_maps_disk_witness:
  "mmap_mmap sample_api sample_request \<lparr>vm_start = 0x7000, vm_end = 0x9000, vm_pgoff = 2\<rparr> =
     Go (0, [(0x7000, 0x30, 4096), (0x8000, 0x31, 4096)])"
proof -
  let ?v = "\<lparr>vm_start = 0x7000, vm_end = 0x9000, vm_pgoff = 2\<rparr> :: vma"
  have "vma_length ?v = 8192" by (simp add: vma_length_def)
  moreover have "page_count 8192 = 2" by (simp add: page_count_def)
  moreover have "pages sample_api 0x7000 (addr_of sample_api 3) 2 =
      [(0x7000, 0x30, 4096), (0x8000, 0x31, 4096)]"
    by (simp add: pages_def sample_api_def upt_rec)
  ultimately show ?thesis
    using mmap_maps_disk [OF sample_request_ptrs(1), of "[2, 3]" sample_api ?v 1] sample_request_ptrs(2)
    by (simp add: sample_api_def)
qed

text \<open>Remapping a \<open>vmalloc\<close> buffer stops at the first page the kernel refuses and returns that
  error; the pages before it have been mapped and stay mapped.\<close>

theorem map_vmem_error:
  assumes "k < page_count (vma_length v)"
    and "\<forall>j < k. 0 \<le> remap_pfn_range api (vm_start v + of_nat (4096 * j)) (vmalloc_to_pfn api (data + of_nat (4096 * j))) 4096"
    and "ret = remap_pfn_range api (vm_start v + of_nat (4096 * k)) (vmalloc_to_pfn api (data + of_nat (4096 * k))) 4096"
    and "ret < 0"
  shows "map_vmem api v data = (ret, pages api (vm_start v) data k)"
  using map_vmem_loop_error [OF assms(1,2), of "[]"] assms(3,4) unfolding map_vmem_def by simp

theorem map_vmem_error_witness:
  "map_vmem (sample_api\<lparr>remap_pfn_range := (\<lambda>a p n. if a = 0x8000 then - 12 else 0)\<rparr>)
     \<lparr>vm_start = 0x7000, vm_end = 0xA000, vm_pgoff = 1\<rparr> 0x20000 = (- 12, [(0x7000, 0x20, 4096)])"
proof -
  let ?api = "sample_api\<lparr>remap_pfn_range := (\<lambda>a p n. if a = 0x8000 then - 12 else 0)\<rparr>"
  let ?v = "\<lparr>vm_start = 0x7000, vm_end = 0xA000, vm_pgoff = 1\<rparr> :: vma"
  have "page_count (vma_length ?v) = 3" by (simp add: page_count_def vma_length_def)
  then have "map_vmem ?api ?v 0x20000 = (- 12, pages ?api 0x7000 0x20000 1)"
    using map_vmem_error [of 1 ?v ?api "0x20000" "- 12"] by simp
  then show ?thesis by (simp add: pages_def sample_api_def)
qed

text \<open>C31. The copying interface: what the daemon writes to disk \<open>i\<close> of the published request is what it
  reads back, and no other object changes; but a copy that stops early, of which only \<open>copied\<close>
  bytes arrive, is reported as complete by both handlers.\<close>

theorem pread_after_pwrite:
  assumes "actual_snc s = Some snc" "ptrs_at (k_mem s) (sc_ptrs snc) = Some ps" "i < length ps" "i < 2 ^ 31"
    and "bytes_at (k_mem s) (ps ! i) = Some bs" "length data \<le> length bs"
  shows "\<exists>s'. barracuda_write copied s data (of_nat i) = Some (length data, s') \<and>
    (\<forall>p. p \<noteq> ps ! i \<longrightarrow> k_mem s' p = k_mem s p) \<and>
    barracuda_read n s' (length data) (of_nat i) =
      Some (length data, take (min n (length data)) (take copied data @ replicate (length data - copied) 0))"
proof -
  let ?d = "take copied data @ replicate (length data - copied) 0"
  have l: "length ?d = length data" by simp
  let ?s = "s\<lparr>k_mem := (k_mem s)(ps ! i \<mapsto> Bytes (overwrite bs 0 ?d))\<rparr>"
  have w: "barracuda_write copied s data (of_nat i) = Some (length data, ?s)"
    using snc_disk_Some [OF assms(1-4)] assms(5,6) by (simp add: barracuda_write_def mem_simps)
  have ne: "sc_ptrs snc \<noteq> ps ! i" using ptrs_at_not_bytes [OF assms(2)] assms(5) by auto
  then have d: "snc_disk ?s (of_nat i) = Some (ps ! i)" using snc_disk_Some [of ?s snc ps i] assms by simp
  have "bytes_at (k_mem ?s) (ps ! i) = Some (overwrite bs 0 ?d)" using bytes_at_SomeD [OF assms(5)] by simp
  then have "barracuda_read n ?s (length data) (of_nat i) =
      Some (length data, take (min n (length data)) (overwrite bs 0 ?d))"
    using d assms(6) by (simp add: barracuda_read_def mem_simps)
  moreover have "take (min n (length data)) (overwrite bs 0 ?d) = take (min n (length data)) ?d"
    by (simp add: overwrite_def)
  ultimately show ?thesis using w by auto
qed

theorem pread_after_pwrite_witness:
  "\<exists>s'. barracuda_write 1 sample_request [42] 1 = Some (1, s') \<and> barracuda_read 1 s' 1 1 = Some (1, [42])"
proof -
  have "bytes_at (k_mem sample_request) ([2, 3] ! 1) = Some [8]"
    by (simp add: sample_request_def sample_kstate_def module_init_def bytes_at_def obj_at_def)
  then show ?thesis
    using pread_after_pwrite [OF sample_request_ptrs(1), of "[2, 3]" 1 "[8]" "[42]" 1 1] sample_request_ptrs(2)
    by auto
qed

end
