(* ===== verification/Kernel_Init.thy ===== *)
theory Kernel_Init
  imports Kernel_Calls Kernel_Mmap
begin

text \<open>
  Start and stop of the kernel module (\<open>barracuda_start\<close>, \<open>barracuda_stop\<close>, the two empty
  device handlers and the table \<open>fops\<close> of \<open>raid6cuda.c\<close>), over a record of what the module has
  registered with the kernel. The results of the kernel services are the record \<open>init_env\<close>.
  The progress messages are left out.
\<close>

datatype handler = H_local_dev_open | H_local_dev_release | H_barracuda_read | H_barracuda_write |
  H_mmap_mmap | H_ioctl_callback | H_proc_read | H_proc_write | H_conf_read | H_conf_write | H_nl_data_ready

record file_operations =
  fop_open :: handler
  fop_release :: handler
  fop_read :: handler
  fop_write :: handler
  fop_mmap :: handler
  fop_ioctl :: handler

definition fops :: file_operations where
  "fops = \<lparr>fop_open = H_local_dev_open, fop_release = H_local_dev_release, fop_read = H_barracuda_read,
     fop_write = H_barracuda_write, fop_mmap = H_mmap_mmap, fop_ioctl = H_ioctl_callback\<rparr>"

record proc_entry =
  read_proc :: handler
  write_proc :: handler

text \<open>The module and its registrations: the directory \<open>/proc/barracuda\<close> and its two files, the
  device number, the character device with its table, the netlink socket with its callback.\<close>

record kmodule =
  k_module :: kstate
  proc_directory :: bool
  proc_stub :: "proc_entry option"
  proc_conf :: "proc_entry option"
  mmap_dev :: bool
  mmap_cdev :: "file_operations option"
  nl_sk :: "handler option"

record init_env =
  proc_mkdir_ok :: bool
  stub_ok :: bool
  conf_ok :: bool
  alloc_chrdev_region :: int
  cdev_add :: int
  netlink_ok :: bool
  vmalloc_ok :: bool
  snc_junk :: syndrome_container

definition module_loaded :: "kstate \<Rightarrow> kmodule" where
  "module_loaded s = \<lparr>k_module = s, proc_directory = False, proc_stub = None, proc_conf = None,
     mmap_dev = False, mmap_cdev = None, nl_sk = None\<rparr>"

text \<open>\<open>barracuda_start\<close>, in the order of the code: the two semaphores, the \<open>/proc\<close> entries, the
  device, the socket, the container. The result of the last allocation is not checked.\<close>

definition start_socket :: "init_env \<Rightarrow> kmodule \<Rightarrow> int \<times> kmodule" where
  "start_socket e k =
     (if \<not> netlink_ok e then (- EIO, k)
      else (0, k\<lparr>nl_sk := Some H_nl_data_ready,
                 k_module := (k_module k)\<lparr>actual_snc := if vmalloc_ok e then Some (snc_junk e) else None\<rparr>\<rparr>))"

definition start_device :: "init_env \<Rightarrow> kmodule \<Rightarrow> int \<times> kmodule" where
  "start_device e k =
     (if alloc_chrdev_region e < 0 then (- EIO, k)
      else let k = k\<lparr>mmap_dev := True\<rparr> in
      if cdev_add e < 0 then (- EIO, k\<lparr>mmap_dev := False\<rparr>)
      else start_socket e (k\<lparr>mmap_cdev := Some fops\<rparr>))"

definition start_procfs :: "init_env \<Rightarrow> kmodule \<Rightarrow> int \<times> kmodule" where
  "start_procfs e k =
     (if \<not> proc_mkdir_ok e then (- EIO, k)
      else let k = k\<lparr>proc_directory := True\<rparr> in
      if \<not> stub_ok e then (- EIO, k)
      else let k = k\<lparr>proc_stub := Some \<lparr>read_proc = H_proc_read, write_proc = H_proc_write\<rparr>\<rparr> in
      if \<not> conf_ok e then (- EIO, k)
      else let k = k\<lparr>proc_conf := Some \<lparr>read_proc = H_conf_read, write_proc = H_conf_write\<rparr>\<rparr> in
      start_device e k)"

definition barracuda_start :: "init_env \<Rightarrow> kmodule \<Rightarrow> (int \<times> kmodule) outcome" where
  "barracuda_start e k =
     (let s = k_module k in
      if gen_syndrome_mutex s = 0 then Block
      else let s = s\<lparr>gen_syndrome_mutex := gen_syndrome_mutex s - 1\<rparr> in
      if ioctl_init_mutex s = 0 then Block
      else let s = s\<lparr>ioctl_init_mutex := ioctl_init_mutex s - 1\<rparr> in
      Go (start_procfs e (k\<lparr>k_module := s\<rparr>)))"

text \<open>\<open>barracuda_stop\<close>: removing an entry that is not there only warns; deleting a character device
  that was never initialised is a fault.\<close>

definition barracuda_stop :: "kmodule \<Rightarrow> (int \<times> kmodule) outcome" where
  "barracuda_stop k =
     (let k = k\<lparr>proc_stub := None, proc_conf := None, proc_directory := False\<rparr> in
      if mmap_cdev k = None then Fault
      else let k = k\<lparr>mmap_cdev := None, mmap_dev := False, nl_sk := None,
                   k_module := (k_module k)\<lparr>actual_snc := None\<rparr>\<rparr> in
      Go (0, k))"

definition local_dev_open :: int where
  "local_dev_open = 0"

definition local_dev_release :: int where
  "local_dev_release = 0"

section \<open>Lemmas\<close>

text \<open>What is registered after \<open>barracuda_start\<close>, given the step at which it ended.\<close>

definition services_ok :: "init_env \<Rightarrow> bool" where
  "services_ok e \<longleftrightarrow> proc_mkdir_ok e \<and> stub_ok e \<and> conf_ok e \<and> 0 \<le> alloc_chrdev_region e \<and>
     0 \<le> cdev_add e \<and> netlink_ok e"

definition registered :: "kmodule \<Rightarrow> bool" where
  "registered k \<longleftrightarrow> proc_directory k \<and>
     proc_stub k = Some \<lparr>read_proc = H_proc_read, write_proc = H_proc_write\<rparr> \<and>
     proc_conf k = Some \<lparr>read_proc = H_conf_read, write_proc = H_conf_write\<rparr> \<and>
     mmap_dev k \<and> mmap_cdev k = Some fops \<and> nl_sk k = Some H_nl_data_ready"

definition entries_left :: "kmodule \<Rightarrow> bool" where
  "entries_left k \<longleftrightarrow> proc_directory k \<or> proc_stub k \<noteq> None \<or> proc_conf k \<noteq> None \<or> mmap_dev k \<or> mmap_cdev k \<noteq> None"

lemmas start_defs = barracuda_start_def start_procfs_def start_device_def start_socket_def Let_def

section \<open>Properties\<close>

text \<open>Start of a freshly loaded module, for any behaviour of the kernel services: it returns 0
  exactly when all services succeeded, and then every handler is registered and, the container
  allocated, the module is in the state the request protocol starts from. Otherwise it returns
  \<open>-EIO\<close>, leaves what it registered before the failing service registered (only a device number
  whose device could not be added is given back) and the syndrome semaphore taken.\<close>

theorem barracuda_start_result:
  assumes "heap_ok (module_init addr m n)"
  shows "\<exists>r k. barracuda_start e (module_loaded (module_init addr m n)) = Go (r, k) \<and>
    (r = 0 \<or> r = - EIO) \<and> (r = 0 \<longleftrightarrow> services_ok e) \<and>
    gen_syndrome_mutex (k_module k) = 0 \<and> configured (k_module k) = 0 \<and>
    (r = 0 \<longrightarrow> registered k \<and> (started (k_module k) \<longleftrightarrow> vmalloc_ok e)) \<and>
    (r \<noteq> 0 \<longrightarrow> nl_sk k = None \<and> (entries_left k \<longleftrightarrow> proc_mkdir_ok e) \<and>
      (mmap_dev k \<longleftrightarrow> proc_mkdir_ok e \<and> stub_ok e \<and> conf_ok e \<and> 0 \<le> alloc_chrdev_region e \<and> 0 \<le> cdev_add e))"
proof -
  have ok: "EIO \<noteq> 0" by (simp add: EIO_def)
  show ?thesis
    using assms ok
    by (auto simp: start_defs module_loaded_def module_init_def services_ok_def registered_def
        entries_left_def started_def heap_ok_def not_less)
qed

definition sample_env :: init_env where
  "sample_env = \<lparr>proc_mkdir_ok = True, stub_ok = True, conf_ok = True, alloc_chrdev_region = 0, cdev_add = 0,
     netlink_ok = True, vmalloc_ok = True, snc_junk = \<lparr>sc_disks = 77, sc_bytes = 77, sc_ptrs = 77\<rparr>\<rparr>"

theorem barracuda_start_result_witness:
  "(\<exists>k. barracuda_start sample_env (module_loaded (module_init 0x1000 Map.empty 4)) = Go (0, k) \<and>
     registered k \<and> started (k_module k)) \<and>
   (\<exists>k. barracuda_start (sample_env\<lparr>netlink_ok := False\<rparr>) (module_loaded (module_init 0x1000 Map.empty 4)) =
     Go (- EIO, k) \<and> entries_left k \<and> mmap_dev k)"
proof -
  have h: "heap_ok (module_init 0x1000 Map.empty 4)" by (simp add: heap_ok_def module_init_def)
  have "services_ok sample_env" "\<not> services_ok (sample_env\<lparr>netlink_ok := False\<rparr>)" "vmalloc_ok sample_env"
    by (simp_all add: services_ok_def sample_env_def)
  then show ?thesis
    using barracuda_start_result [OF h, of sample_env]
      barracuda_start_result [OF h, of "sample_env\<lparr>netlink_ok := False\<rparr>"]
    by (auto simp: sample_env_def EIO_def)
qed



end
