(* ===== verification/Kernel_Test.thy ===== *)
theory Kernel_Test
  imports Host_Service Kernel_Init
begin

unbundle bit_operations_syntax

text \<open>
  The test module \<open>raid6cuda_tst.c\<close>: its own copies of the two CPU encoders with their
  tables, the test thread in its two builds (\<open>BENCHMARK\<close> and the sample run), and loading and unloading.

  \<open>call\<close> is the syndrome function the thread runs, on the memory of the kernel (the stub
  \<open>raid6_cuda_gen_syndrome\<close> of \<open>Kernel_Calls\<close>, whose requests are served by the daemon). \<open>jif k\<close> is reading number
  \<open>k\<close> of \<open>jiffies\<close>, \<open>hz\<close> the constant \<open>HZ\<close> of the kernel. The timing loop has no bound of its own;
  \<open>fuel\<close> bounds its passes, \<open>Block\<close> is a loop that is still running.
\<close>

section \<open>The encoders\<close>

definition tst_SHLBYTE :: "u64 \<Rightarrow> u64" where
  "tst_SHLBYTE v = push_bit 1 v AND NBYTES 0xfe"

definition tst_MASK :: "u64 \<Rightarrow> u64" where
  "tst_MASK v = (let vv = v AND NBYTES 0x80 in push_bit 1 vv - drop_bit 7 vv)"

fun tst_vanilla_disks :: "mem \<Rightarrow> ptr \<Rightarrow> nat \<Rightarrow> nat \<Rightarrow> u64 \<Rightarrow> u64 \<Rightarrow> (u64 \<times> u64) option" where
  "tst_vanilla_disks m dptr d 0 wp0 wq0 = Some (wp0, wq0)"
| "tst_vanilla_disks m dptr d (Suc z) wp0 wq0 = do {
     dz \<leftarrow> ptr_index m dptr (int z);
     wd0 \<leftarrow> load64 m dz d;
     let wp0 = wp0 XOR wd0;
     let w20 = tst_MASK wq0;
     let w10 = tst_SHLBYTE wq0;
     let w20 = w20 AND NBYTES 0x1d;
     let w10 = w10 XOR w20;
     let wq0 = w10 XOR wd0;
     tst_vanilla_disks m dptr d z wp0 wq0 }"

function tst_vanilla_loop :: "ptr \<Rightarrow> int \<Rightarrow> ptr \<Rightarrow> ptr \<Rightarrow> nat \<Rightarrow> nat \<Rightarrow> mem \<Rightarrow> mem option" where
  "tst_vanilla_loop dptr z0 p q bytes d m =
     (if d < bytes then do {
        dz0 \<leftarrow> ptr_index m dptr z0;
        wp0 \<leftarrow> load64 m dz0 d;
        (wp0, wq0) \<leftarrow> tst_vanilla_disks m dptr d (nat z0) wp0 wp0;
        m \<leftarrow> store64 m p d wp0;
        m \<leftarrow> store64 m q d wq0;
        d' \<leftarrow> c_incr d NSIZE;
        tst_vanilla_loop dptr z0 p q bytes d' m }
      else Some m)"
  by pat_completeness auto
termination
  by (relation "measure (\<lambda>(dptr, z0, p, q, bytes, d, m). bytes - d)")
     (auto simp: c_incr_def NSIZE_def split: if_splits)

declare tst_vanilla_loop.simps [simp del]

definition tst_raid6_vanilla_gen_syndrome :: syndrome_func where
  "tst_raid6_vanilla_gen_syndrome disks bytes ptrs m = do {
     z0 \<leftarrow> c_int (disks - 3);
     p \<leftarrow> ptr_index m ptrs (z0 + 1);
     q \<leftarrow> ptr_index m ptrs (z0 + 2);
     tst_vanilla_loop ptrs z0 p q bytes 0 m }"

definition tst_gflog :: "u8 list" where
  "tst_gflog = [
   0, 0, 1, 25, 2, 50, 26, 198, 3, 223, 51, 238, 27, 104, 199, 75, 4, 100, 224, 14, 52, 141,
    239, 129, 28, 193, 105, 248, 200, 8, 76, 113, 5, 138, 101, 47, 225, 36, 15, 33, 53, 147,
    142, 218, 240, 18, 130, 69, 29, 181, 194, 125, 106, 39, 249, 185, 201, 154, 9, 120, 77,
    228, 114, 166, 6, 191, 139, 98, 102, 221, 48, 253, 226, 152, 37, 179, 16, 145, 34, 136,
    54, 208, 148, 206, 143, 150, 219, 189, 241, 210, 19, 92, 131, 56, 70, 64, 30, 66, 182,
    163, 195, 72, 126, 110, 107, 58, 40, 84, 250, 133, 186, 61, 202, 94, 155, 159, 10, 21,
    121, 43, 78, 212, 229, 172, 115, 243, 167, 87, 7, 112, 192, 247, 140, 128, 99, 13, 103,
    74, 222, 237, 49, 197, 254, 24, 227, 165, 153, 119, 38, 184, 180, 124, 17, 68, 146, 217,
    35, 32, 137, 46, 55, 63, 209, 91, 149, 188, 207, 205, 144, 135, 151, 178, 220, 252, 190,
    97, 242, 86, 211, 171, 20, 42, 93, 158, 132, 60, 57, 83, 71, 109, 65, 162, 31, 45, 67,
    216, 183, 123, 164, 118, 196, 23, 73, 236, 127, 12, 111, 246, 108, 161, 59, 82, 41, 157,
    85, 170, 251, 96, 134, 177, 187, 204, 62, 90, 203, 89, 95, 176, 156, 169, 160, 81, 11,
    245, 22, 235, 122, 117, 44, 215, 79, 174, 213, 233, 230, 231, 173, 232, 116, 214, 244,
    234, 168, 80, 88]"

definition tst_gfilog :: "u8 list" where
  "tst_gfilog = [
   1, 2, 4, 8, 16, 32, 64, 128, 29, 58, 116, 232, 205, 135, 19, 38, 76, 152, 45, 90, 180, 117,
    234, 201, 143, 3, 6, 12, 24, 48, 96, 192, 157, 39, 78, 156, 37, 74, 148, 53, 106, 212,
    181, 119, 238, 193, 159, 35, 70, 140, 5, 10, 20, 40, 80, 160, 93, 186, 105, 210, 185, 111,
    222, 161, 95, 190, 97, 194, 153, 47, 94, 188, 101, 202, 137, 15, 30, 60, 120, 240, 253,
    231, 211, 187, 107, 214, 177, 127, 254, 225, 223, 163, 91, 182, 113, 226, 217, 175, 67,
    134, 17, 34, 68, 136, 13, 26, 52, 104, 208, 189, 103, 206, 129, 31, 62, 124, 248, 237,
    199, 147, 59, 118, 236, 197, 151, 51, 102, 204, 133, 23, 46, 92, 184, 109, 218, 169, 79,
    158, 33, 66, 132, 21, 42, 84, 168, 77, 154, 41, 82, 164, 85, 170, 73, 146, 57, 114, 228,
    213, 183, 115, 230, 209, 191, 99, 198, 145, 63, 126, 252, 229, 215, 179, 123, 246, 241,
    255, 227, 219, 171, 75, 150, 49, 98, 196, 149, 55, 110, 220, 165, 87, 174, 65, 130, 25,
    50, 100, 200, 141, 7, 14, 28, 56, 112, 224, 221, 167, 83, 166, 81, 162, 89, 178, 121, 242,
    249, 239, 195, 155, 43, 86, 172, 69, 138, 9, 18, 36, 72, 144, 61, 122, 244, 245, 247, 243,
    251, 235, 203, 139, 11, 22, 44, 88, 176, 125, 250, 233, 207, 131, 27, 54, 108, 216, 173,
    71, 142]"

definition tst_mult_gf :: "u8 \<Rightarrow> u8 \<Rightarrow> u8 option" where
  "tst_mult_gf a b = (if a = 0 \<or> b = 0 then Some 0 else do {
     la \<leftarrow> table_at tst_gflog (unat a);
     lb \<leftarrow> table_at tst_gflog (unat b);
     let sum_log = la + lb;
     let sum_log = (if 255 \<le> unat sum_log then sum_log - 255 else sum_log);
     table_at tst_gfilog (unat sum_log) })"

fun tst_mrs_data :: "ptr \<Rightarrow> int \<Rightarrow> nat \<Rightarrow> u8 \<Rightarrow> nat list \<Rightarrow> u8 \<Rightarrow> mem \<Rightarrow> mem option" where
  "tst_mrs_data dptrs j i matrix_pos_y [] matrix_pos_x m = Some m"
| "tst_mrs_data dptrs j i matrix_pos_y (d # ds) matrix_pos_x m = do {
     dd \<leftarrow> ptr_index m dptrs (int d);
     v \<leftarrow> load8 m dd i;
     r \<leftarrow> tst_mult_gf matrix_pos_x v;
     dj \<leftarrow> ptr_index m dptrs j;
     old \<leftarrow> load8 m dj i;
     m \<leftarrow> store8 m dj i (old XOR r);
     matrix_pos_x \<leftarrow> tst_mult_gf matrix_pos_x matrix_pos_y;
     tst_mrs_data dptrs j i matrix_pos_y ds matrix_pos_x m }"

fun tst_mrs_check :: "ptr \<Rightarrow> int \<Rightarrow> nat \<Rightarrow> int list \<Rightarrow> u8 \<Rightarrow> mem \<Rightarrow> mem option" where
  "tst_mrs_check dptrs high_disk i [] matrix_pos_y m = Some m"
| "tst_mrs_check dptrs high_disk i (j # js) matrix_pos_y m = do {
     let matrix_pos_y = matrix_pos_y + 1;
     let matrix_pos_x = matrix_pos_y;
     dj \<leftarrow> ptr_index m dptrs j;
     m \<leftarrow> store8 m dj i 0;
     m \<leftarrow> tst_mrs_data dptrs j i matrix_pos_y [0..<nat high_disk] matrix_pos_x m;
     tst_mrs_check dptrs high_disk i js matrix_pos_y m }"

function tst_mrs_bytes :: "ptr \<Rightarrow> int \<Rightarrow> int \<Rightarrow> nat \<Rightarrow> nat \<Rightarrow> mem \<Rightarrow> mem option" where
  "tst_mrs_bytes dptrs high_disk disks bytes i m =
     (if i < bytes then do {
        m \<leftarrow> tst_mrs_check dptrs high_disk i [high_disk..disks - 1] 0 m;
        i' \<leftarrow> c_incr i 1;
        tst_mrs_bytes dptrs high_disk disks bytes i' m }
      else Some m)"
  by pat_completeness auto
termination
  by (relation "measure (\<lambda>(dptrs, high_disk, disks, bytes, i, m). bytes - i)")
     (auto simp: c_incr_def split: if_splits)

declare tst_mrs_bytes.simps [simp del]

definition tst_multi_rs_soft_gen_syndrome :: syndrome_func where
  "tst_multi_rs_soft_gen_syndrome disks bytes ptrs m = do {
     high_disk \<leftarrow> c_int (disks - 4);
     tst_mrs_bytes ptrs high_disk disks bytes 0 m }"

section \<open>The test thread\<close>

definition BYTES :: nat where
  "BYTES = 512 * 4096"

definition time_after :: "u64 \<Rightarrow> u64 \<Rightarrow> bool" where
  "time_after a b \<longleftrightarrow> sint (b - a) < 0"

text \<open>The loop that runs for at least two seconds: passes left, reading, time, calls.\<close>

fun bench_while :: "nat \<Rightarrow> u64 \<Rightarrow> (nat \<Rightarrow> u64) \<Rightarrow> (mem \<Rightarrow> mem option) \<Rightarrow> nat \<Rightarrow> u64 \<Rightarrow> u64 \<Rightarrow> mem \<Rightarrow>
    (u64 \<times> u64 \<times> nat \<times> mem) outcome" where
  "bench_while fuel hz jif call k jiffie_timer dur m =
     (if jiffie_timer < 2 * hz then case fuel of
        0 \<Rightarrow> Block
      | Suc fuel \<Rightarrow> obind (or_fault (call m)) (\<lambda>m.
          let t1 = jif k; t2 = jif (Suc k);
              jiffie_timer = (if \<not> time_after t1 t2 then jiffie_timer + (t2 - t1) else jiffie_timer + (t1 - t2))
          in bench_while fuel hz jif call (k + 2) jiffie_timer (dur + 1) m)
      else Go (jiffie_timer, dur, k, m))"

declare bench_while.simps [simp del]

text \<open>\<open>KERNELMODE\<close> runs the two encoders of this file instead of the stub.\<close>

definition bench_call :: "bool \<Rightarrow> syndrome_func \<Rightarrow> syndrome_func" where
  "bench_call kernelmode call disks bytes dptrs m =
     (if kernelmode then do {
        m \<leftarrow> tst_raid6_vanilla_gen_syndrome disks bytes dptrs m;
        tst_multi_rs_soft_gen_syndrome disks bytes dptrs m }
      else call disks bytes dptrs m)"

text \<open>One measurement: the line printed, with a flag for the line \<open>nan\<close> before it. Dividing by a
  time below one second is undefined.\<close>

definition bench_one :: "nat \<Rightarrow> alloc \<Rightarrow> u64 \<Rightarrow> (nat \<Rightarrow> u64) \<Rightarrow> syndrome_func \<Rightarrow> nat \<Rightarrow> nat \<Rightarrow> heap \<Rightarrow>
    ((bool \<times> nat \<times> u64) \<times> nat \<times> heap) outcome" where
  "bench_one fuel e hz jif call disks k h =
     (let (dptrs, h) = malloc_ptrs e (int disks) h in
      obind (or_fault (allocate_disks e (int BYTES) dptrs [0..<disks] h)) (\<lambda>h.
      obind (bench_while fuel hz jif (call (int disks) BYTES dptrs) k 0 0 (h_mem h)) (\<lambda>(jiffie_timer, dur, k, m).
      obind (if jiffie_timer \<noteq> 0 then
               if jiffie_timer div hz = 0 then Fault
               else Go (False, disks, dur * of_nat BYTES div (jiffie_timer div hz))
             else Go (True, disks, 0)) (\<lambda>line.
      obind (or_fault (deallocate_disks dptrs [0..<disks] m)) (\<lambda>m.
      obind (or_fault (c_free m dptrs)) (\<lambda>m.
      Go (line, k, h\<lparr>h_mem := m\<rparr>)))))))"

fun bench_runs :: "nat \<Rightarrow> alloc \<Rightarrow> u64 \<Rightarrow> (nat \<Rightarrow> u64) \<Rightarrow> syndrome_func \<Rightarrow> nat list \<Rightarrow> nat \<Rightarrow> heap \<Rightarrow>
    ((bool \<times> nat \<times> u64) list \<times> heap) outcome" where
  "bench_runs fuel e hz jif call [] k h = Go ([], h)"
| "bench_runs fuel e hz jif call (disks # ds) k h =
     obind (bench_one fuel e hz jif call disks k h) (\<lambda>(line, k, h).
     obind (bench_runs fuel e hz jif call ds k h) (\<lambda>(lines, h). Go (line # lines, h)))"

text \<open>\<open>thread_code\<close> with \<open>BENCHMARK\<close>: its result, the lines, the memory, and the semaphore \<open>dont_kill_mutex\<close>.\<close>

definition thread_code :: "nat \<Rightarrow> alloc \<Rightarrow> u64 \<Rightarrow> (nat \<Rightarrow> u64) \<Rightarrow> syndrome_func \<Rightarrow> nat \<Rightarrow> heap \<Rightarrow>
    (int \<times> (bool \<times> nat \<times> u64) list \<times> nat \<times> heap) outcome" where
  "thread_code fuel e hz jif call dont_kill_mutex h =
     obind (bench_runs fuel e hz jif call (concat (map (replicate 10) [5..<65])) 0 h) (\<lambda>(lines, h).
     Go (0, lines, Suc dont_kill_mutex, h))"

definition ENOMEM :: int where
  "ENOMEM = 12"

text \<open>\<open>thread_code\<close> without \<open>BENCHMARK\<close>: seven buffers of two pages, ten bytes each filled with the number of the disk,
  printed before and after the call. The array of pointers is a local variable.\<close>

fun get_pages :: "alloc \<Rightarrow> ptr \<Rightarrow> nat list \<Rightarrow> heap \<Rightarrow> (bool \<times> heap) option" where
  "get_pages e dptrs [] h = Some (True, h)"
| "get_pages e dptrs (i # is) h = (let (p, h) = malloc_bytes e 8192 h in do {
     m \<leftarrow> ptr_assign (h_mem h) dptrs (int i) p;
     if p = null then Some (False, h\<lparr>h_mem := m\<rparr>) else get_pages e dptrs is (h\<lparr>h_mem := m\<rparr>) })"

fun fill_pages :: "ptr \<Rightarrow> nat \<Rightarrow> nat list \<Rightarrow> mem \<Rightarrow> (u8 list list \<times> mem) option" where
  "fill_pages dptrs bytes [] m = Some ([], m)"
| "fill_pages dptrs bytes (i # is) m = do {
     p \<leftarrow> ptr_index m dptrs (int i);
     m \<leftarrow> c_memset m p (of_nat i) bytes;
     out \<leftarrow> read_bytes m p 0 bytes;
     (outs, m) \<leftarrow> fill_pages dptrs bytes is m;
     Some (out # outs, m) }"

fun show_pages :: "ptr \<Rightarrow> nat \<Rightarrow> nat list \<Rightarrow> mem \<Rightarrow> u8 list list option" where
  "show_pages dptrs bytes [] m = Some []"
| "show_pages dptrs bytes (i # is) m = do {
     p \<leftarrow> ptr_index m dptrs (int i);
     out \<leftarrow> read_bytes m p 0 bytes;
     outs \<leftarrow> show_pages dptrs bytes is m;
     Some (out # outs) }"

definition thread_code_sample :: "alloc \<Rightarrow> syndrome_func \<Rightarrow> heap \<Rightarrow> (int \<times> u8 list list \<times> heap) option" where
  "thread_code_sample e call h =
     (let dptrs = h_next h;
          h = \<lparr>h_mem = (h_mem h)(dptrs \<mapsto> Ptrs (replicate 7 null)), h_next = Suc dptrs\<rparr> in do {
        (ok, h) \<leftarrow> get_pages e dptrs [0..<7] h;
        if \<not> ok then Some (- ENOMEM, [], h\<lparr>h_mem := (h_mem h)(dptrs := None)\<rparr>) else do {
        (out, m) \<leftarrow> fill_pages dptrs 10 [0..<7] (h_mem h);
        m \<leftarrow> call 7 10 dptrs m;
        out' \<leftarrow> show_pages dptrs 10 [0..<7] m;
        m \<leftarrow> deallocate_disks dptrs [0..<7] m;
        Some (0, out @ out', h\<lparr>h_mem := m(dptrs := None)\<rparr>) } })"

section \<open>Loading and unloading\<close>

record tst_module =
  t_kernel :: kmodule
  dont_kill_mutex :: nat
  thread_id :: int
  t_signals :: "(int \<times> int) list"

definition mod_init :: "init_env \<Rightarrow> int \<Rightarrow> tst_module \<Rightarrow> (int \<times> tst_module) outcome" where
  "mod_init e kernel_thread t =
     (if dont_kill_mutex t = 0 then Block
      else let t = t\<lparr>dont_kill_mutex := dont_kill_mutex t - 1\<rparr> in
      obind (barracuda_start e (t_kernel t)) (\<lambda>(r, k).
      let t = t\<lparr>t_kernel := k, thread_id := kernel_thread\<rparr> in
      if thread_id t = 0 then Go (- EIO, t) else Go (0, t)))"

definition mod_exit :: "tst_module \<Rightarrow> tst_module outcome" where
  "mod_exit t =
     (if dont_kill_mutex t = 0 then Block
      else let t = t\<lparr>dont_kill_mutex := dont_kill_mutex t - 1\<rparr>;
               t = (if thread_id t \<noteq> 0 then t\<lparr>t_signals := t_signals t @ [(thread_id t, 15)]\<rparr> else t) in
      obind (barracuda_stop (t_kernel t)) (\<lambda>(r, k).
      Go (t\<lparr>t_kernel := k, dont_kill_mutex := Suc (dont_kill_mutex t)\<rparr>)))"

section \<open>Lemmas\<close>

lemma tst_tables [simp]: "tst_gflog = gflog" "tst_gfilog = gfilog"
  by (simp_all only: tst_gflog_def gflog_def tst_gfilog_def gfilog_def)

lemma tst_words [simp]: "tst_SHLBYTE = SHLBYTE" "tst_MASK = MASK"
  by (auto simp: tst_SHLBYTE_def SHLBYTE_def tst_MASK_def MASK_def)

lemma tst_mult_gf_eq [simp]: "tst_mult_gf = mult_gf"
  unfolding fun_eq_iff tst_mult_gf_def mult_gf_def tst_tables by (intro allI refl)

lemma tst_vanilla_disks_eq [simp]: "tst_vanilla_disks m dptr d z wp wq = vanilla_disks m dptr d z wp wq"
  by (induction z arbitrary: wp wq) simp_all

lemma tst_vanilla_loop_eq: "tst_vanilla_loop dptr z0 p q bytes d m = vanilla_loop dptr z0 p q bytes d m"
proof (induction dptr z0 p q bytes d m rule: vanilla_loop.induct)
  case (1 dptr z0 p q bytes d m)
  show ?case
  proof (cases "d < bytes \<and> vanilla_word dptr z0 p q d m \<noteq> None \<and> c_incr d NSIZE \<noteq> None")
    case True
    then show ?thesis
      using 1 by (subst tst_vanilla_loop.simps, subst vanilla_loop.simps)
        (auto simp: vanilla_word_def bind_eq_Some_conv split: Option.bind_splits)
  next
    case False
    then show ?thesis
      by (subst tst_vanilla_loop.simps, subst vanilla_loop.simps)
        (auto simp: vanilla_word_def split: Option.bind_splits)
  qed
qed

lemma tst_mrs_data_eq [simp]: "tst_mrs_data dptrs j i y ds x m = mrs_data dptrs j i y ds x m"
  by (induction ds arbitrary: x m) (auto split: Option.bind_splits)

lemma tst_mrs_check_eq [simp]: "tst_mrs_check dptrs high i js y m = mrs_check dptrs high i js y m"
  by (induction js arbitrary: y m) (auto simp: Let_def split: Option.bind_splits)

lemma tst_mrs_bytes_eq: "tst_mrs_bytes dptrs high disks bytes i m = mrs_bytes dptrs high disks bytes i m"
proof (induction dptrs high disks bytes i m rule: mrs_bytes.induct)
  case (1 dptrs high disks bytes i m)
  then show ?case
    by (subst tst_mrs_bytes.simps, subst mrs_bytes.simps) (auto split: Option.bind_splits)
qed

text \<open>The two encoders of the test module are the daemon's: the same results, faults included, for
  every number of disks, every length and every memory.\<close>

theorem tst_encoders_agree:
  "tst_raid6_vanilla_gen_syndrome = raid6_vanilla_gen_syndrome \<and>
   tst_multi_rs_soft_gen_syndrome = multi_rs_soft_gen_syndrome"
  by (simp add: fun_eq_iff tst_raid6_vanilla_gen_syndrome_def raid6_vanilla_gen_syndrome_def tst_vanilla_loop_eq
      tst_multi_rs_soft_gen_syndrome_def multi_rs_soft_gen_syndrome_def CHECK_SYMBOLS_def tst_mrs_bytes_eq)

section \<open>The benchmark ends\<close>

text \<open>A clock on which a call takes at least one tick and at most a second.\<close>

definition steady :: "u64 \<Rightarrow> (nat \<Rightarrow> u64) \<Rightarrow> bool" where
  "steady hz jif \<longleftrightarrow> 0 < unat hz \<and> unat hz < 2 ^ 60 \<and>
     (\<forall>k. 1 \<le> unat (jif (Suc (2 * k)) - jif (2 * k)) \<and> unat (jif (Suc (2 * k)) - jif (2 * k)) \<le> unat hz)"

lemma unat_add_small: "unat (a :: u64) + unat b < 2 ^ 64 \<Longrightarrow> unat (a + b) = unat a + unat b"
  by (simp add: unat_word_ariths)

lemma unat_double: "unat (hz :: u64) < 2 ^ 60 \<Longrightarrow> unat (2 * hz) = 2 * unat hz"
  by (simp add: unat_word_ariths)

lemma sint_nonneg: "unat (w :: u64) < 2 ^ 63 \<Longrightarrow> 0 \<le> sint w"
proof -
  assume "unat w < 2 ^ 63"
  then have "uint w < 2 ^ 63" by (metis of_nat_less_numeral_power_cancel_iff uint_nat)
  moreover have "0 \<le> uint w" by simp
  ultimately have "signed_take_bit 63 (uint w) = uint w" by (intro signed_take_bit_int_eq_self) linarith+
  then show ?thesis by (simp add: sint_uint)
qed

lemma steady_not_after:
  assumes "steady hz jif"
  shows "\<not> time_after (jif (2 * k)) (jif (Suc (2 * k)))"
proof -
  have "unat (jif (Suc (2 * k)) - jif (2 * k)) < 2 ^ 60" using assms unfolding steady_def by (meson le_less_trans)
  then have "0 \<le> sint (jif (Suc (2 * k)) - jif (2 * k))" by (intro sint_nonneg) simp
  then show ?thesis by (simp add: time_after_def)
qed

lemma bench_while_ends:
  assumes st: "steady hz jif" and call: "\<And>m. P m \<Longrightarrow> \<exists>m'. call m = Some m' \<and> P m'"
    and "P m" "unat jt < 3 * unat hz" "2 * unat hz \<le> unat jt + fuel"
  shows "\<exists>jt' dur' j' m'. bench_while fuel hz jif call (2 * j) jt dur m = Go (jt', dur', 2 * j', m') \<and>
    2 * unat hz \<le> unat jt' \<and> P m'"
  using assms(3-)
proof (induction fuel arbitrary: j jt dur m)
  case 0
  have hz: "unat (2 * hz) = 2 * unat hz" using st by (intro unat_double) (simp add: steady_def)
  then have "\<not> jt < 2 * hz" using 0 by (simp add: word_less_nat_alt)
  then show ?case using 0 by (subst bench_while.simps) auto
next
  case (Suc fuel)
  have hz: "unat (2 * hz) = 2 * unat hz" "unat hz < 2 ^ 60" using st unat_double by (simp_all add: steady_def)
  show ?case
  proof (cases "jt < 2 * hz")
    case True
    obtain m' where m': "call m = Some m'" "P m'" using call Suc.prems(1) by blast
    let ?t = "jif (Suc (2 * j)) - jif (2 * j)"
    have t: "1 \<le> unat ?t" "unat ?t \<le> unat hz" using st by (simp_all add: steady_def)
    have jt: "unat jt < 2 * unat hz" using True hz by (simp add: word_less_nat_alt)
    have sum: "unat (jt + ?t) = unat jt + unat ?t" using jt t hz(2) by (intro unat_add_small) simp
    have "bench_while (Suc fuel) hz jif call (2 * j) jt dur m = bench_while fuel hz jif call (2 * Suc j) (jt + ?t) (dur + 1) m'"
      using True m'(1) steady_not_after [OF st] by (subst bench_while.simps) simp
    moreover have "unat (jt + ?t) < 3 * unat hz" "2 * unat hz \<le> unat (jt + ?t) + fuel"
      using sum jt t Suc.prems(3) by simp_all
    ultimately show ?thesis using Suc.IH [of m' "jt + ?t" "Suc j" "dur + 1"] m'(2) by simp
  next
    case False
    then have "2 * unat hz \<le> unat jt" using hz by (simp add: word_less_nat_alt)
    then show ?thesis using False Suc.prems(1) by (subst bench_while.simps) auto
  qed
qed

lemma bench_one_ends:
  assumes st: "steady hz jif" "2 * unat hz \<le> fuel" and e: "\<forall>p. avail e p" "heap_fresh h"
    and gen: "raid6_generator call need ok" "need BYTES = BYTES" "ok BYTES" and d: "3 \<le> disks" "disks < 2 ^ 31"
  shows "\<exists>t j' h'. bench_one fuel e hz jif call disks (2 * j) h = Go ((False, disks, t), 2 * j', h') \<and>
    h_mem h' = h_mem h \<and> heap_fresh h'"
proof -
  let ?a = "h_next h"
  have pos: "0 < ?a" "\<forall>p \<ge> ?a. h_mem h p = None" using e(2) by (simp_all add: heap_fresh_def)
  obtain h1 where h1: "allocate_host_example_dpointer e (int BYTES) (int disks) h = Some (?a, h1)"
    "h_next h1 = Suc ?a + disks" "example_state ?a disks BYTES (h_mem h) (h_mem h1)"
    using example_state_allocated [OF e(1) pos(1), of BYTES disks] by blast
  obtain h0 where h0: "malloc_ptrs e (int disks) h = (?a, h0)" "allocate_disks e (int BYTES) ?a [0..<disks] h0 = Some h1"
    using h1(1) by (cases "malloc_ptrs e (int disks) h") (auto simp: allocate_host_example_dpointer_def bind_eq_Some_conv)
  have call: "\<exists>m'. call (int disks) BYTES ?a m = Some m' \<and> example_state ?a disks BYTES (h_mem h) m'"
    if "example_state ?a disks BYTES (h_mem h) m" for m
    by (rule example_state_gen [OF gen(1) _ gen(3) that d(1)]) (use gen(2) d in simp_all)
  obtain jt dur j' m where w: "bench_while fuel hz jif (call (int disks) BYTES ?a) (2 * j) 0 0 (h_mem h1) = Go (jt, dur, 2 * j', m)"
    "2 * unat hz \<le> unat jt" "example_state ?a disks BYTES (h_mem h) m"
    using bench_while_ends [where P = "example_state ?a disks BYTES (h_mem h)" and call = "call (int disks) BYTES ?a" and
        jt = 0 and fuel = fuel and j = j and dur = 0, OF st(1) call h1(3)] st by (auto simp: steady_def)
  have hz: "0 < unat hz" using st(1) by (simp add: steady_def)
  have "unat (jt div hz) = unat jt div unat hz" by (simp add: unat_div_distrib)
  also have "\<dots> \<noteq> 0" using w(2) hz by (simp add: div_greater_zero_iff [THEN iffD2] less_imp_neq)
  finally have q: "jt div hz \<noteq> 0" "jt \<noteq> 0" using w(2) hz by auto
  obtain m2 where f: "deallocate_disks ?a [0..<disks] m = Some m2" "c_free m2 ?a = Some (h_mem h)"
    using example_state_freed [OF w(3) pos(2)] by (auto simp: deallocate_host_example_dpointer_def bind_eq_Some_conv)
  have "bench_one fuel e hz jif call disks (2 * j) h =
      Go ((False, disks, dur * of_nat BYTES div (jt div hz)), 2 * j', h1\<lparr>h_mem := h_mem h\<rparr>)"
    using h0 w(1) q f by (simp add: bench_one_def)
  moreover have "heap_fresh (h1\<lparr>h_mem := h_mem h\<rparr>)" using h1(2) pos by (simp add: heap_fresh_def)
  ultimately show ?thesis by force
qed

lemma bench_runs_end:
  assumes st: "steady hz jif" "2 * unat hz \<le> fuel" and e: "\<forall>p. avail e p" "heap_fresh h"
    and gen: "raid6_generator call need ok" "need BYTES = BYTES" "ok BYTES" and d: "\<forall>d \<in> set ds. 3 \<le> d \<and> d < 2 ^ 31"
  shows "\<exists>lines h'. bench_runs fuel e hz jif call ds (2 * j) h = Go (lines, h') \<and> h_mem h' = h_mem h \<and>
    map (\<lambda>(nan, disks, t). (nan, disks)) lines = map (Pair False) ds"
  using d e(2)
proof (induction ds arbitrary: j h)
  case (Cons d ds)
  then have d: "3 \<le> d" "d < 2 ^ 31" by simp_all
  obtain t j' h' where "bench_one fuel e hz jif call d (2 * j) h = Go ((False, d, t), 2 * j', h')"
    "h_mem h' = h_mem h" "heap_fresh h'"
    using bench_one_ends [OF st e(1) Cons.prems(2) gen d] by blast
  then show ?case using Cons.IH [of h' j'] Cons.prems(1) by fastforce
qed simp



text \<open>Loading never reports a failure: it returns 0 whether or not the module could be started and
  whether or not the thread could be created, for the result of \<open>kernel_thread\<close> is a process id or
  a negative error. Unloading waits until the thread has released the semaphore, forever if there
  is no thread; then it removes a module that was started and faults on one that was not.\<close>

theorem tst_module_life_cycle:
  assumes "kernel_thread \<noteq> 0" "dont_kill_mutex t = 1"
    and "t_kernel t = module_loaded (module_init addr m n)"
  shows "\<exists>t'. mod_init e kernel_thread t = Go (0, t') \<and> mod_exit t' = Block \<and>
    (services_ok e \<longrightarrow> (\<exists>t''. mod_exit (t'\<lparr>dont_kill_mutex := Suc (dont_kill_mutex t')\<rparr>) = Go t'' \<and>
       \<not> entries_left (t_kernel t'') \<and> dont_kill_mutex t'' = 1)) \<and>
    (\<not> services_ok e \<and> mmap_cdev (t_kernel t') = None \<longrightarrow> mod_exit (t'\<lparr>dont_kill_mutex := Suc (dont_kill_mutex t')\<rparr>) = Fault)"
proof -
  let ?k = "module_loaded ((module_init addr m n)\<lparr>gen_syndrome_mutex := 0, ioctl_init_mutex := 0\<rparr>)"
  obtain r k where p: "start_procfs e ?k = (r, k)" by fastforce
  then have k: "barracuda_start e (module_loaded (module_init addr m n)) = Go (r, k)"
    by (simp add: barracuda_start_def module_loaded_def module_init_def)
  have ok: "services_ok e \<longrightarrow> mmap_cdev k = Some fops"
    using p by (auto simp: start_procfs_def start_device_def start_socket_def Let_def services_ok_def)
  let ?t = "t\<lparr>dont_kill_mutex := 0, t_kernel := k, thread_id := kernel_thread\<rparr>"
  have "mod_init e kernel_thread t = Go (0, ?t)" using assms k by (simp add: mod_init_def)
  then show ?thesis
    using ok assms(1) by (auto simp: mod_exit_def barracuda_stop_def entries_left_def Let_def)
qed

theorem tst_module_life_cycle_witness:
  "\<exists>t'. mod_init (sample_env\<lparr>proc_mkdir_ok := False\<rparr>) (- 12) \<lparr>t_kernel = module_loaded (module_init 0x1000 Map.empty 4),
      dont_kill_mutex = 1, thread_id = 0, t_signals = []\<rparr> = Go (0, t') \<and> mod_exit t' = Block"
proof -
  let ?t = "\<lparr>t_kernel = module_loaded (module_init 0x1000 Map.empty 4), dont_kill_mutex = 1, thread_id = 0, t_signals = []\<rparr>"
  show ?thesis
    using tst_module_life_cycle [where addr = "0x1000" and m = Map.empty and n = 4 and kernel_thread = "- 12" and t = ?t and e = "sample_env\<lparr>proc_mkdir_ok := False\<rparr>"] by auto
qed

end
