(* ===== verification/User_Marshal.thy ===== *)
theory User_Marshal
  imports Kernel_Calls Kernel_Mmap Smp
begin

unbundle bit_operations_syntax

text \<open>
  How the daemon brings the disks of a request into its address space
  (\<open>barracuda_deamon/userspace_driver.cu\<close>): by mapping them (\<open>get_act_syndrome_block\<close> and
  \<open>unget_act_syndrome_block\<close>, what the program is built with) or by copying them
  (\<open>copy_act_syndrome_block\<close> and \<open>copyback_act_syndrome_block\<close>, with \<open>COPY_MARSHALLING\<close>).

  A shared mapping of a kernel buffer aliases it, so the pointer \<open>mmap\<close> returns is the kernel's
  object; the objects of the daemon have numbers below \<open>k_base\<close>. \<open>maps\<close> lists the mappings that
  are alive, \<open>containers\<close> counts the containers allocated and not freed. \<open>uenv\<close> holds the
  behaviour of the kernel's memory management, the addresses it gives to mappings and whether
  \<open>malloc\<close> of a container succeeds.
\<close>

record uenv =
  u_api :: mm_api
  u_addr :: "nat \<Rightarrow> u64"
  u_malloc :: bool

record daemon =
  keep_going :: bool
  smc_flag :: bool
  global_dptrs :: ptr
  maps :: "ptr list"
  containers :: nat
  u_next :: ptr

definition MAP_FAILED :: ptr where
  "MAP_FAILED = 2 ^ 64 - 1"

definition getpagesize :: u32 where
  "getpagesize = 4096"

text \<open>The system call \<open>mmap\<close> on \<open>/dev/barracuda\<close>: empty and oversized mappings are refused, otherwise
  the handler of the module decides. The result is the object behind the page offset; the
  container's own page has no object, its pointer stands for \<open>actual_snc\<close>.\<close>

definition u_mmap :: "uenv \<Rightarrow> kstate \<Rightarrow> nat \<Rightarrow> u32 \<Rightarrow> ptr outcome" where
  "u_mmap e s len offset =
     (if len = 0 \<or> 2 ^ 47 < int len then Go MAP_FAILED else
      let pg = unat offset div PAGE_SIZE;
          v = \<lparr>vm_start = u_addr e pg, vm_end = u_addr e pg + of_nat (vmalloc_size len), vm_pgoff = of_nat pg\<rparr> in
      obind (mmap_mmap (u_api e) s v) (\<lambda>(r, ranges).
        if r < 0 then Go MAP_FAILED
        else if pg = 0 then Go null
        else or_fault (do { snc \<leftarrow> actual_snc s; ptr_index (k_mem s) (sc_ptrs snc) (int pg - 1) })))"

section \<open>Mapping\<close>

text \<open>The loop over the disks: the result says whether all mappings succeeded.\<close>

fun map_disks :: "uenv \<Rightarrow> nat \<Rightarrow> int list \<Rightarrow> daemon \<Rightarrow> kstate \<Rightarrow> (bool \<times> daemon \<times> kstate) outcome" where
  "map_disks e bytes [] d s = Go (True, d, s)"
| "map_disks e bytes (i # is) d s =
     obind (u_mmap e s bytes (of_int i * getpagesize)) (\<lambda>p.
     obind (or_fault (ptr_assign (k_mem s) (global_dptrs d) (i - 1) p)) (\<lambda>m.
       let s = s\<lparr>k_mem := m\<rparr> in
       if p = MAP_FAILED then Go (False, d, s)
       else map_disks e bytes is (d\<lparr>maps := p # maps d\<rparr>) s))"

text \<open>Mapping the container, once; its size is 24 bytes.\<close>

definition map_container :: "uenv \<Rightarrow> daemon \<Rightarrow> kstate \<Rightarrow> (bool \<times> daemon) outcome" where
  "map_container e d s =
     (if smc_flag d then Go (True, d)
      else obind (u_mmap e s 24 0) (\<lambda>p. if p = MAP_FAILED then Go (False, d) else Go (True, d\<lparr>smc_flag := True\<rparr>)))"

definition new_container :: "uenv \<Rightarrow> syndrome_container \<Rightarrow> daemon \<Rightarrow> (syndrome_container \<times> daemon) outcome" where
  "new_container e c d = (if u_malloc e then Go (c, d\<lparr>containers := containers d + 1\<rparr>) else Fault)"

definition get_act_syndrome_block ::
    "uenv \<Rightarrow> daemon \<Rightarrow> kstate \<Rightarrow> (syndrome_container option \<times> daemon \<times> kstate) outcome" where
  "get_act_syndrome_block e d s =
     obind (map_container e d s) (\<lambda>(ok, d).
     if \<not> ok then Go (None, d, s) else
     obind (or_fault (actual_snc s)) (\<lambda>snc.
     let disks = sc_disks snc; bytes = sc_bytes snc in
     obind (map_disks e bytes [1..disks] d s) (\<lambda>(ok, d, s).
     if \<not> ok then Go (None, d, s) else
     obind (new_container e \<lparr>sc_disks = disks, sc_bytes = bytes, sc_ptrs = global_dptrs d\<rparr> d) (\<lambda>(c, d).
     Go (Some c, d, s)))))"

fun unmap_disks :: "ptr \<Rightarrow> int list \<Rightarrow> daemon \<Rightarrow> kstate \<Rightarrow> daemon outcome" where
  "unmap_disks ptrs [] d s = Go d"
| "unmap_disks ptrs (i # is) d s =
     obind (or_fault (ptr_index (k_mem s) ptrs i)) (\<lambda>p.
       unmap_disks ptrs is (d\<lparr>maps := remove1 p (maps d)\<rparr>) s)"

definition unget_act_syndrome_block :: "syndrome_container \<Rightarrow> daemon \<Rightarrow> kstate \<Rightarrow> daemon outcome" where
  "unget_act_syndrome_block smc d s =
     obind (unmap_disks (sc_ptrs smc) [0..sc_disks smc - 1] d s) (\<lambda>d.
     Go (d\<lparr>containers := containers d - 1\<rparr>))"

section \<open>Copying\<close>

text \<open>\<open>malloc\<close> of a buffer in the daemon; \<open>junk\<close> is what it contains.\<close>

definition u_malloc_bytes :: "nat \<Rightarrow> u8 list \<Rightarrow> daemon \<Rightarrow> kstate \<Rightarrow> ptr \<times> daemon \<times> kstate" where
  "u_malloc_bytes n junk d s =
     (if u_next d < k_base s \<and> k_mem s (u_next d) = None
      then (u_next d, d\<lparr>u_next := u_next d + 1\<rparr>, s\<lparr>k_mem := (k_mem s)(u_next d \<mapsto> Bytes (take n (junk @ replicate n 0)))\<rparr>)
      else (null, d, s))"

fun malloc_disks :: "nat \<Rightarrow> u8 list \<Rightarrow> int list \<Rightarrow> daemon \<Rightarrow> kstate \<Rightarrow> (daemon \<times> kstate) outcome" where
  "malloc_disks bytes junk [] d s = Go (d, s)"
| "malloc_disks bytes junk (i # is) d s =
     (let (p, d, s) = u_malloc_bytes bytes junk d s in
      obind (or_fault (ptr_assign (k_mem s) (global_dptrs d) i p)) (\<lambda>m.
      malloc_disks bytes junk is d (s\<lparr>k_mem := m\<rparr>)))"

text \<open>The system calls \<open>pread\<close> and \<open>pwrite\<close>: the handler copies to or from the buffer of the daemon;
  a null buffer is refused before anything is copied.\<close>

definition u_pread :: "kstate \<Rightarrow> ptr \<Rightarrow> nat \<Rightarrow> int \<Rightarrow> kstate outcome" where
  "u_pread s p bytes offset =
     (if p = null then Go s
      else obind (or_fault (barracuda_read bytes s bytes (of_int offset))) (\<lambda>(n, data).
           obind (or_fault (write_bytes (k_mem s) p 0 data)) (\<lambda>m. Go (s\<lparr>k_mem := m\<rparr>))))"

definition u_pwrite :: "kstate \<Rightarrow> ptr \<Rightarrow> nat \<Rightarrow> int \<Rightarrow> kstate outcome" where
  "u_pwrite s p bytes offset =
     obind (or_fault (read_bytes (k_mem s) p 0 bytes)) (\<lambda>data.
     obind (or_fault (barracuda_write bytes s data (of_int offset))) (\<lambda>(n, s). Go s))"

fun pread_disks :: "ptr \<Rightarrow> nat \<Rightarrow> int list \<Rightarrow> kstate \<Rightarrow> kstate outcome" where
  "pread_disks dptrs bytes [] s = Go s"
| "pread_disks dptrs bytes (i # is) s =
     obind (or_fault (ptr_index (k_mem s) dptrs i)) (\<lambda>p.
     obind (u_pread s p bytes i) (\<lambda>s. pread_disks dptrs bytes is s))"

definition copy_act_syndrome_block ::
    "uenv \<Rightarrow> u8 list \<Rightarrow> daemon \<Rightarrow> kstate \<Rightarrow> (syndrome_container option \<times> daemon \<times> kstate) outcome" where
  "copy_act_syndrome_block e junk d s =
     obind (map_container e d s) (\<lambda>(ok, d).
     if \<not> ok then Go (None, d, s) else
     obind (or_fault (actual_snc s)) (\<lambda>snc.
     let disks = sc_disks snc; bytes = sc_bytes snc in
     obind (malloc_disks bytes junk [0..disks - 1] d s) (\<lambda>(d, s).
     obind (pread_disks (global_dptrs d) bytes [0..disks - 3] s) (\<lambda>s.
     obind (new_container e \<lparr>sc_disks = disks, sc_bytes = bytes, sc_ptrs = global_dptrs d\<rparr> d) (\<lambda>(c, d).
     Go (Some c, d, s))))))"

fun free_disks :: "ptr \<Rightarrow> int list \<Rightarrow> kstate \<Rightarrow> kstate outcome" where
  "free_disks dptrs [] s = Go s"
| "free_disks dptrs (i # is) s =
     obind (or_fault (ptr_index (k_mem s) dptrs i)) (\<lambda>p.
     obind (or_fault (c_free (k_mem s) p)) (\<lambda>m. free_disks dptrs is (s\<lparr>k_mem := m\<rparr>)))"

definition copyback_act_syndrome_block :: "syndrome_container \<Rightarrow> daemon \<Rightarrow> kstate \<Rightarrow> (daemon \<times> kstate) outcome" where
  "copyback_act_syndrome_block smc d s =
     (let disks = sc_disks smc; bytes = sc_bytes smc; dptrs = sc_ptrs smc in
      obind (or_fault (ptr_index (k_mem s) dptrs (disks - 2))) (\<lambda>p.
      obind (u_pwrite s p bytes (disks - 2)) (\<lambda>s.
      obind (or_fault (ptr_index (k_mem s) dptrs (disks - 1))) (\<lambda>q.
      obind (u_pwrite s q bytes (disks - 1)) (\<lambda>s.
      obind (free_disks dptrs [0..disks - 1] s) (\<lambda>s.
      Go (d\<lparr>containers := containers d - 1\<rparr>, s)))))))"

section \<open>Serving a request\<close>

text \<open>The body of the servers' loops between the notification and the report, with the mappings and
  with the copies. A null container is dereferenced.\<close>

definition serve_block ::
    "(int \<Rightarrow> nat \<Rightarrow> ptr \<Rightarrow> mem \<Rightarrow> mem option) \<Rightarrow> uenv \<Rightarrow> daemon \<Rightarrow> kstate \<Rightarrow> (daemon \<times> kstate) outcome" where
  "serve_block gen_syndrome e d s =
     obind (get_act_syndrome_block e d s) (\<lambda>(c, d, s).
     obind (or_fault c) (\<lambda>act_container.
     obind (or_fault (gen_syndrome (sc_disks act_container) (sc_bytes act_container) (sc_ptrs act_container) (k_mem s))) (\<lambda>m.
     let s = s\<lparr>k_mem := m\<rparr> in
     obind (unget_act_syndrome_block act_container d s) (\<lambda>d. Go (d, s)))))"

definition serve_block_copy ::
    "(int \<Rightarrow> nat \<Rightarrow> ptr \<Rightarrow> mem \<Rightarrow> mem option) \<Rightarrow> uenv \<Rightarrow> u8 list \<Rightarrow> daemon \<Rightarrow> kstate \<Rightarrow> (daemon \<times> kstate) outcome" where
  "serve_block_copy gen_syndrome e junk d s =
     obind (copy_act_syndrome_block e junk d s) (\<lambda>(c, d, s).
     obind (or_fault c) (\<lambda>act_container.
     obind (or_fault (gen_syndrome (sc_disks act_container) (sc_bytes act_container) (sc_ptrs act_container) (k_mem s))) (\<lambda>m.
     copyback_act_syndrome_block act_container d (s\<lparr>k_mem := m\<rparr>))))"

section \<open>Lemmas\<close>

lemma obind_or_fault_Some [simp]: "x = Some y \<Longrightarrow> obind (or_fault x) f = f y"
  by simp

text \<open>The kernel side grants every mapping of the request: no page is refused, and a buffer that is
  not from \<open>vmalloc\<close> has at most 16 pages.\<close>

definition mappable :: "uenv \<Rightarrow> ptr list \<Rightarrow> nat \<Rightarrow> bool" where
  "mappable e ps bytes \<longleftrightarrow> (\<forall>a p n. 0 \<le> remap_pfn_range (u_api e) a p n) \<and>
     (\<forall>p \<in> set ps. is_vmalloc_addr (u_api e) (addr_of (u_api e) p) \<or> bytes \<le> 65536)"

text \<open>A published request with the disks \<open>ps\<close>, and a daemon whose pointer array holds them.\<close>

definition request_ok :: "daemon \<Rightarrow> kstate \<Rightarrow> ptr list \<Rightarrow> nat \<Rightarrow> bool" where
  "request_ok d s ps bytes \<longleftrightarrow> 0 < bytes \<and> bytes \<le> 2 ^ 47 \<and> MAP_FAILED \<notin> set ps \<and> length ps \<le> 255 \<and>
     (case actual_snc s of None \<Rightarrow> False | Some snc \<Rightarrow>
        sc_disks snc = int (length ps) \<and> sc_bytes snc = bytes \<and> sc_ptrs snc \<noteq> global_dptrs d \<and>
        ptrs_at (k_mem s) (sc_ptrs snc) = Some ps) \<and>
     (case ptrs_at (k_mem s) (global_dptrs d) of None \<Rightarrow> False | Some gs \<Rightarrow> length gs = 255)"

lemma vmalloc_size_bounds: "n \<le> vmalloc_size n" "vmalloc_size n \<le> n + 4095"
proof -
  have "n + 4095 = 4096 * ((n + 4095) div 4096) + (n + 4095) mod 4096" by simp
  moreover have "(n + 4095) mod 4096 < 4096" by simp
  ultimately show "n \<le> vmalloc_size n" "vmalloc_size n \<le> n + 4095"
    unfolding vmalloc_size_def PAGE_SIZE_def by linarith+
qed

lemma vma_length_alloc:
  assumes "n \<le> 2 ^ 47"
  shows "vma_length \<lparr>vm_start = a, vm_end = a + of_nat (vmalloc_size n), vm_pgoff = o'\<rparr> = int (vmalloc_size n)"
proof -
  have "int (vmalloc_size n) < 2 ^ 63" using vmalloc_size_bounds(2) [of n] assms by simp
  then have "sint (of_nat (vmalloc_size n) :: u64) = int (vmalloc_size n)"
    by (simp add: signed_of_nat signed_take_bit_int_eq_self_iff)
  then show ?thesis by (simp add: vma_length_def)
qed

lemma map_mem_ok:
  assumes "\<forall>a p n. 0 \<le> remap_pfn_range api a p n" "is_vmalloc_addr api data \<or> vma_length v \<le> 65536"
  shows "fst (map_mem api v data) = 0"
  using assms map_vmem_loop_ok [OF assms(1) [rule_format]]
  by (auto simp: map_mem_def map_vmem_def map_kmem_def Let_def NPAGES_def PAGE_SIZE_def not_less leD)

lemma page_offset:
  assumes "i \<le> 255"
  shows "unat (of_int (int i) * getpagesize) div PAGE_SIZE = i"
proof -
  have "of_int (int i) * getpagesize = (of_nat (i * 4096) :: u32)" by (simp add: getpagesize_def)
  moreover have "i * 4096 < 2 ^ 32" using assms by simp
  then have "unat (of_nat (i * 4096) :: u32) = i * 4096" by (simp add: unsigned_of_nat take_bit_nat_eq_self del: of_nat_mult)
  ultimately show ?thesis by (simp add: PAGE_SIZE_def)
qed

lemma u_mmap_ok:
  assumes m: "mappable e ps bytes" and b: "0 < bytes" "bytes \<le> 2 ^ 47"
    and s: "actual_snc s = Some snc" "ptrs_at (k_mem s) (sc_ptrs snc) = Some ps"
    and i: "i < length ps" "length ps \<le> 255"
  shows "u_mmap e s bytes (of_int (int (Suc i)) * getpagesize) = Go (ps ! i)"
proof -
  let ?v = "\<lparr>vm_start = u_addr e (Suc i), vm_end = u_addr e (Suc i) + of_nat (vmalloc_size bytes),
     vm_pgoff = of_nat (Suc i)\<rparr>"
  have pg: "unat (of_int (int (Suc i)) * getpagesize) div PAGE_SIZE = Suc i"
    by (rule page_offset) (use i in simp)
  have "i < 2 ^ 63" using i by simp
  then have w: "of_nat (Suc i) \<noteq> (0 :: u64)" "uint (of_nat (Suc i) - 1 :: u64) = int i"
    by (simp_all add: unsigned_of_nat take_bit_nat_eq_self word_of_nat_eq_0_iff nat_dvd_not_less del: of_nat_Suc)
       (simp add: unsigned_of_nat take_bit_nat_eq_self)
  have "fst (map_mem (u_api e) ?v (addr_of (u_api e) (ps ! i))) = 0"
  proof (rule map_mem_ok)
    have "bytes \<le> 65536 \<Longrightarrow> vmalloc_size bytes \<le> 65536"
      unfolding vmalloc_size_def PAGE_SIZE_def by simp
    then show "is_vmalloc_addr (u_api e) (addr_of (u_api e) (ps ! i)) \<or> vma_length ?v \<le> 65536"
      using m i(1) by (auto simp: mappable_def vma_length_alloc [OF b(2)])
  qed (use m in \<open>simp add: mappable_def\<close>)
  moreover have "nat (int (Suc i) - 1) = i" by simp
  ultimately show ?thesis
    using b s i(1) w unfolding u_mmap_def pg
    by (auto simp: Let_def mmap_mmap_def ptr_index_def split: prod.splits simp del: of_nat_Suc)
qed

lemma map_container_ok:
  assumes "mappable e ps bytes"
  shows "map_container e d s = Go (True, d\<lparr>smc_flag := True\<rparr>)"
proof -
  have sz: "vmalloc_size 24 = 4096" by (simp add: vmalloc_size_def PAGE_SIZE_def)
  have "fst (map_mem (u_api e) \<lparr>vm_start = u_addr e 0, vm_end = u_addr e 0 + of_nat (vmalloc_size 24),
      vm_pgoff = of_nat 0\<rparr> (snc_object (u_api e))) = 0"
    by (rule map_mem_ok, use assms in \<open>simp add: mappable_def\<close>) (subst vma_length_alloc, simp_all add: sz)
  then show ?thesis
    by (cases d)
       (auto simp: map_container_def u_mmap_def Let_def mmap_mmap_def MAP_FAILED_def split: prod.splits)
qed

lemma upto_from: "j < n \<Longrightarrow> [int j..int n - 1] = int j # [int (Suc j)..int n - 1]"
  by (subst upto_rec1) (simp_all add: add.commute)

lemma upto_from_1: "j < n \<Longrightarrow> [int j + 1..int n] = int (Suc j) # [int (Suc j) + 1..int n]"
  by (subst upto_rec1) (simp_all add: add.commute)

lemma ptr_assign_at:
  assumes "ptrs_at m g = Some gs" "i < length gs"
  shows "ptr_assign m g (int i) p = Some (m(g \<mapsto> Ptrs (gs[i := p])))"
  using assms by (simp add: ptr_assign_def)

lemma ptrs_at_nonnull: "ptrs_at m g = Some gs \<Longrightarrow> g \<noteq> null \<and> m g = Some (Ptrs gs)"
  by (auto simp: ptrs_at_def obj_at_def split: if_splits option.splits obj.splits)

text \<open>From disk \<open>j\<close> on, the loop stores the remaining disks into the array and maps them.\<close>

lemma map_disks_from:
  assumes "mappable e ps bytes" "0 < bytes" "bytes \<le> 2 ^ 47" "length ps \<le> 255" "MAP_FAILED \<notin> set ps"
    and "actual_snc s = Some snc" "ptrs_at (k_mem s) (sc_ptrs snc) = Some ps" "sc_ptrs snc \<noteq> global_dptrs d"
    and "ptrs_at (k_mem s) (global_dptrs d) = Some gs" "length gs = 255" "j \<le> length ps"
  shows "map_disks e bytes [int j + 1..int (length ps)] d s =
    Go (True, d\<lparr>maps := rev (drop j ps) @ maps d\<rparr>,
        s\<lparr>k_mem := (k_mem s)(global_dptrs d \<mapsto> Ptrs (take j gs @ drop j ps @ drop (length ps) gs))\<rparr>)"
  using assms(6-)
proof (induction "length ps - j" arbitrary: j d s gs)
  case 0
  then have j: "j = length ps" by simp
  have "k_mem s (global_dptrs d) = Some (Ptrs gs)" using ptrs_at_nonnull [OF 0(5)] by simp
  then have "(k_mem s)(global_dptrs d \<mapsto> Ptrs gs) = k_mem s" by (simp add: fun_upd_idem)
  then show ?case by (simp add: j)
next
  case (Suc k)
  then have j: "j < length ps" by simp
  let ?g = "global_dptrs d" and ?p = "ps ! j"
  let ?s = "s\<lparr>k_mem := (k_mem s)(?g \<mapsto> Ptrs (gs[j := ?p]))\<rparr>" and ?d = "d\<lparr>maps := ?p # maps d\<rparr>"
  have g: "?g \<noteq> null" using ptrs_at_nonnull [OF Suc.prems(4)] by simp
  have mm: "u_mmap e s bytes (of_int (int (Suc j)) * getpagesize) = Go ?p"
    by (rule u_mmap_ok [OF assms(1-3) Suc.prems(1,2) j assms(4)])
  have as: "ptr_assign (k_mem s) ?g (int j) ?p = Some (k_mem ?s)"
    using ptr_assign_at [OF Suc.prems(4), of j ?p] Suc.prems(5) j assms(4) by simp
  have "?p \<noteq> MAP_FAILED" using assms(5) j by (metis nth_mem)
  then have step: "map_disks e bytes [int j + 1..int (length ps)] d s =
      map_disks e bytes [int (Suc j) + 1..int (length ps)] ?d ?s"
    unfolding upto_from_1 [OF j] map_disks.simps mm using as by simp
  have "map_disks e bytes [int (Suc j) + 1..int (length ps)] ?d ?s =
    Go (True, ?d\<lparr>maps := rev (drop (Suc j) ps) @ maps ?d\<rparr>,
        ?s\<lparr>k_mem := (k_mem ?s)(?g \<mapsto> Ptrs (take (Suc j) (gs[j := ?p]) @ drop (Suc j) ps @ drop (length ps) (gs[j := ?p])))\<rparr>)"
    using Suc.hyps(1) [of "Suc j" ?s ?d "gs[j := ?p]"] Suc.hyps(2) Suc.prems g j by simp
  moreover have "take (Suc j) (gs[j := ?p]) @ drop (Suc j) ps @ drop (length ps) (gs[j := ?p]) =
      take j gs @ drop j ps @ drop (length ps) gs"
    using j Suc.prems(5) assms(4) by (simp add: take_Suc_conv_app_nth Cons_nth_drop_Suc [symmetric])
  moreover have "rev (drop (Suc j) ps) @ ?p # maps d = rev (drop j ps) @ maps d"
    using j by (simp add: Cons_nth_drop_Suc [symmetric])
  ultimately show ?case unfolding step by simp
qed

text \<open>The memory while a request is served: the array of the daemon holds the disks of the request.\<close>

definition mapped_mem :: "daemon \<Rightarrow> kstate \<Rightarrow> ptr list \<Rightarrow> mem" where
  "mapped_mem d s ps = (case ptrs_at (k_mem s) (global_dptrs d) of
     None \<Rightarrow> k_mem s | Some gs \<Rightarrow> (k_mem s)(global_dptrs d \<mapsto> Ptrs (ps @ drop (length ps) gs)))"

lemma request_okE:
  assumes "request_ok d s ps bytes"
  obtains snc gs where "0 < bytes" "bytes \<le> 2 ^ 47" "MAP_FAILED \<notin> set ps" "length ps \<le> 255"
    "actual_snc s = Some snc" "sc_disks snc = int (length ps)" "sc_bytes snc = bytes" "sc_ptrs snc \<noteq> global_dptrs d"
    "ptrs_at (k_mem s) (sc_ptrs snc) = Some ps" "ptrs_at (k_mem s) (global_dptrs d) = Some gs" "length gs = 255"
  using assms unfolding request_ok_def by (auto split: option.splits)

lemma get_act_ok:
  assumes "mappable e ps bytes" "request_ok d s ps bytes" "u_malloc e"
  shows "get_act_syndrome_block e d s =
    Go (Some \<lparr>sc_disks = int (length ps), sc_bytes = bytes, sc_ptrs = global_dptrs d\<rparr>,
        d\<lparr>smc_flag := True, maps := rev ps @ maps d, containers := containers d + 1\<rparr>,
        s\<lparr>k_mem := mapped_mem d s ps\<rparr>)"
proof -
  obtain snc gs where r: "0 < bytes" "bytes \<le> 2 ^ 47" "MAP_FAILED \<notin> set ps" "length ps \<le> 255"
    "actual_snc s = Some snc" "sc_disks snc = int (length ps)" "sc_bytes snc = bytes" "sc_ptrs snc \<noteq> global_dptrs d"
    "ptrs_at (k_mem s) (sc_ptrs snc) = Some ps" "ptrs_at (k_mem s) (global_dptrs d) = Some gs" "length gs = 255"
    using request_okE [OF assms(2)] by blast
  have "map_disks e bytes [1..int (length ps)] (d\<lparr>smc_flag := True\<rparr>) s =
      Go (True, d\<lparr>smc_flag := True, maps := rev ps @ maps d\<rparr>, s\<lparr>k_mem := mapped_mem d s ps\<rparr>)"
    using map_disks_from [OF assms(1) r(1,2,4,3,5,9), of "d\<lparr>smc_flag := True\<rparr>" gs 0] r
    by (simp add: mapped_mem_def)
  then show ?thesis
    using map_container_ok [OF assms(1)] r assms(3)
    by (simp add: get_act_syndrome_block_def Let_def new_container_def)
qed

lemma unmap_disks_from:
  assumes "ptrs_at (k_mem s) ptrs = Some (ps @ rest)" "j \<le> length ps"
  shows "unmap_disks ptrs [int j..int (length ps) - 1] d s = Go (d\<lparr>maps := fold remove1 (drop j ps) (maps d)\<rparr>)"
  using assms(2)
proof (induction "length ps - j" arbitrary: j d)
  case (Suc k)
  then have j: "j < length ps" by simp
  have "ptr_index (k_mem s) ptrs (int j) = Some (ps ! j)"
    using assms(1) j by (simp add: ptr_index_def nth_append)
  then show ?case
    using Suc.hyps(1) [of "Suc j" "d\<lparr>maps := remove1 (ps ! j) (maps d)\<rparr>"] Suc.hyps(2) j
    unfolding upto_from [OF j] by (simp add: Cons_nth_drop_Suc [symmetric])
qed simp

lemma fold_remove1_rev: "distinct ps \<Longrightarrow> fold remove1 ps (rev ps @ xs) = xs"
  by (induction ps) (simp_all add: remove1_append)

lemma unget_act_ok:
  assumes "ptrs_at (k_mem s) g = Some (ps @ rest)" "distinct ps"
  shows "unget_act_syndrome_block \<lparr>sc_disks = int (length ps), sc_bytes = bytes, sc_ptrs = g\<rparr>
     (d\<lparr>maps := rev ps @ xs, containers := n + 1\<rparr>) s = Go (d\<lparr>maps := xs, containers := n\<rparr>)"
  using unmap_disks_from [OF assms(1), of 0] fold_remove1_rev [OF assms(2)]
  by (simp add: unget_act_syndrome_block_def)

lemma mapped_stripe:
  assumes "request_ok d s ps bytes" "distinct ps"
    and "\<forall>p \<in> set ps. case bytes_at (k_mem s) p of None \<Rightarrow> False | Some bs \<Rightarrow> n \<le> length bs"
  shows "stripe (mapped_mem d s ps) (global_dptrs d) ps n"
proof -
  obtain gs where g: "ptrs_at (k_mem s) (global_dptrs d) = Some gs" using request_okE [OF assms(1)] by blast
  then have "global_dptrs d \<noteq> null" "global_dptrs d \<notin> set ps"
    using ptrs_at_nonnull [OF g] assms(3) ptrs_at_not_bytes [OF g] by auto
  then show ?thesis
    using assms(2,3) g by (auto simp: stripe_def mapped_mem_def split: option.splits)
qed

text \<open>What serving a request means for the memory: every column of the stripe is a codeword over the
  data as it was, and only the two check disks and the array of the daemon have changed.\<close>

definition request_served :: "daemon \<Rightarrow> kstate \<Rightarrow> ptr list \<Rightarrow> nat \<Rightarrow> kstate \<Rightarrow> bool" where
  "request_served d s ps bytes s' \<longleftrightarrow> s' = s\<lparr>k_mem := k_mem s'\<rparr> \<and>
     (\<forall>i < bytes. column (k_mem s') ps (length ps) i = codeword (column (k_mem s) ps (length ps - 2) i)) \<and>
     (\<forall>p. p \<noteq> ps ! (length ps - 2) \<and> p \<noteq> ps ! (length ps - 1) \<and> p \<noteq> global_dptrs d \<longrightarrow> k_mem s' p = k_mem s p)"

lemma mapped_mem_buf:
  assumes "request_ok d s ps bytes" "bytes_at (k_mem s) p \<noteq> None"
  shows "buf (mapped_mem d s ps) p = buf (k_mem s) p"
proof -
  obtain gs where g: "ptrs_at (k_mem s) (global_dptrs d) = Some gs" using request_okE [OF assms(1)] by blast
  then have "p \<noteq> global_dptrs d" using ptrs_at_not_bytes [OF g] assms(2) by auto
  then show ?thesis using g by (simp add: mapped_mem_def buf_def)
qed

context raid6_generator
begin

lemma serve_block_ok:
  assumes e: "mappable e ps bytes" "u_malloc e" and r: "request_ok d s ps bytes" "distinct ps" "3 \<le> length ps" "ok bytes"
    and b: "\<forall>p \<in> set ps. case bytes_at (k_mem s) p of None \<Rightarrow> False | Some bs \<Rightarrow> need bytes \<le> length bs"
  shows "\<exists>s'. serve_block gen e d s = Go (d\<lparr>smc_flag := True\<rparr>, s') \<and> request_served d s ps bytes s'"
proof -
  let ?m = "mapped_mem d s ps" and ?g = "global_dptrs d" and ?k = "length ps - 2"
  have "length ps \<le> 255" using r(1) by (simp add: request_ok_def)
  then have l: "length ps < 2 ^ 31" by simp
  have st: "stripe ?m ?g ps (need bytes)" by (rule mapped_stripe [OF r(1,2) b])
  obtain m' where m': "gen (int (length ps)) bytes ?g ?m = Some m'" "raid6_encodes ps bytes ?m m'"
    using gen_encodes [OF st r(3) l r(4)] by blast
  obtain gs where g: "ptrs_at (k_mem s) ?g = Some gs" using request_okE [OF r(1)] by blast
  have st': "stripe m' ?g ps (need bytes)" by (rule raid6_encodes_stripe [OF st m'(2) r(3)])
  then obtain rest where "ptrs_at m' ?g = Some (ps @ rest)" by (auto simp: stripe_def)
  then have un: "unget_act_syndrome_block \<lparr>sc_disks = int (length ps), sc_bytes = bytes, sc_ptrs = ?g\<rparr>
     (d\<lparr>smc_flag := True, maps := rev ps @ maps d, containers := containers d + 1\<rparr>) (s\<lparr>k_mem := m'\<rparr>)
       = Go (d\<lparr>smc_flag := True, maps := maps d, containers := containers d\<rparr>)"
    using unget_act_ok [where s = "s\<lparr>k_mem := m'\<rparr>" and d = "d\<lparr>smc_flag := True\<rparr>" and xs = "maps d" and n = "containers d"] r(2) by simp
  have serve: "serve_block gen e d s = Go (d\<lparr>smc_flag := True\<rparr>, s\<lparr>k_mem := m'\<rparr>)"
    using un m'(1) by (simp add: serve_block_def get_act_ok [OF e(1) r(1) e(2)] Let_def)
  have live: "bytes_at (k_mem s) p \<noteq> None" if "p \<in> set ps" for p using b that by (auto split: option.splits)
  have "column ?m ps ?k i = column (k_mem s) ps ?k i" for i
    using mapped_mem_buf [OF r(1) live] by (intro column_cong) simp
  then have col: "column m' ps (length ps) i = codeword (column (k_mem s) ps ?k i)" if "i < bytes" for i
    using gen_column [OF st r(3) l r(4) m'(1) that] by simp
  have "m' p = k_mem s p" if "p \<noteq> ps ! ?k" "p \<noteq> ps ! (length ps - 1)" "p \<noteq> ?g" for p
  proof -
    have "?k + 1 = length ps - 1" using r(3) by simp
    then show ?thesis using m'(2) that g by (auto simp: raid6_encodes_def Let_def mapped_mem_def)
  qed
  then show ?thesis using serve col by (auto simp: request_served_def)
qed

end

section \<open>The copying version\<close>

text \<open>The buffers of the daemon are the objects from \<open>b\<close> on; what the loops make of the memory.\<close>

definition alloc_mem :: "mem \<Rightarrow> ptr \<Rightarrow> ptr list \<Rightarrow> ptr \<Rightarrow> nat \<Rightarrow> nat \<Rightarrow> u8 list \<Rightarrow> mem" where
  "alloc_mem m g gs b j n J = (\<lambda>p. if p \<in> {b + j..<b + n} then Some (Bytes J)
     else if p = g then Some (Ptrs (take j gs @ map ((+) b) [j..<n] @ drop n gs)) else m p)"

lemma malloc_disks_from:
  assumes "length gs = 255" "n \<le> 255" "0 < b" "b + n \<le> k_base s" "j \<le> n" "u_next d = b + j"
    and "\<forall>i \<in> {j..<n}. k_mem s (b + i) = None" "ptrs_at (k_mem s) (global_dptrs d) = Some gs"
  shows "malloc_disks bytes junk [int j..int n - 1] d s = Go (d\<lparr>u_next := b + n\<rparr>,
    s\<lparr>k_mem := alloc_mem (k_mem s) (global_dptrs d) gs b j n (take bytes (junk @ replicate bytes 0))\<rparr>)"
  using assms
proof (induction "n - j" arbitrary: j d s gs)
  case 0
  then have j: "j = n" by simp
  have "k_mem s (global_dptrs d) = Some (Ptrs gs)" using ptrs_at_nonnull [OF 0(9)] by simp
  then have "alloc_mem (k_mem s) (global_dptrs d) gs b n n J = k_mem s" for J
    by (auto simp: alloc_mem_def fun_eq_iff)
  then show ?case using 0 by (simp add: j)
next
  case (Suc k)
  then have j: "j < n" by simp
  let ?g = "global_dptrs d" and ?J = "take bytes (junk @ replicate bytes 0)" and ?gs = "gs[j := b + j]"
  let ?s = "s\<lparr>k_mem := (k_mem s)(b + j \<mapsto> Bytes ?J, ?g \<mapsto> Ptrs ?gs)\<rparr>"
  have g: "?g \<noteq> null" "k_mem s ?g = Some (Ptrs gs)" using ptrs_at_nonnull [OF Suc.prems(8)] by simp_all
  have free: "k_mem s (b + j) = None" using Suc.prems(7) j by simp
  have ne: "?g \<noteq> b + j" using g(2) free by auto
  have p1: "ptrs_at ((k_mem s)(b + j \<mapsto> Bytes ?J)) ?g = Some gs" using Suc.prems(8) ne by simp
  have "u_malloc_bytes bytes junk d s = (b + j, d\<lparr>u_next := b + Suc j\<rparr>, s\<lparr>k_mem := (k_mem s)(b + j \<mapsto> Bytes ?J)\<rparr>)"
    using Suc.prems(4,6) free j by (simp add: u_malloc_bytes_def)
  then have step: "malloc_disks bytes junk [int j..int n - 1] d s =
      malloc_disks bytes junk [int (Suc j)..int n - 1] (d\<lparr>u_next := b + Suc j\<rparr>) ?s"
    using ptr_assign_at [OF p1, of j] Suc.prems(1,2) j unfolding upto_from [OF j] by simp
  have "b + i \<noteq> ?g" if "i \<in> {j..<n}" for i using bspec [OF Suc.prems(7) that] g(2) by auto
  then have "\<forall>i \<in> {Suc j..<n}. k_mem ?s (b + i) = None" using Suc.prems(7) by auto
  moreover have "ptrs_at (k_mem ?s) ?g = Some ?gs" using g by simp
  ultimately have "malloc_disks bytes junk [int (Suc j)..int n - 1] (d\<lparr>u_next := b + Suc j\<rparr>) ?s =
      Go (d\<lparr>u_next := b + n\<rparr>, ?s\<lparr>k_mem := alloc_mem (k_mem ?s) ?g ?gs b (Suc j) n ?J\<rparr>)"
    using Suc.hyps(1) [of "Suc j" ?gs ?s "d\<lparr>u_next := b + Suc j\<rparr>"] Suc.hyps(2) Suc.prems(1-5) j by simp
  moreover have "take (Suc j) ?gs @ map ((+) b) [Suc j..<n] @ drop n ?gs = take j gs @ map ((+) b) [j..<n] @ drop n gs"
    using j Suc.prems(1,2) by (simp add: take_Suc_conv_app_nth upt_conv_Cons)
  then have "alloc_mem (k_mem ?s) ?g ?gs b (Suc j) n ?J = alloc_mem (k_mem s) ?g gs b j n ?J"
    using j ne by (auto simp: alloc_mem_def fun_eq_iff)
  ultimately show ?case unfolding step by simp
qed

definition pread_mem :: "mem \<Rightarrow> ptr list \<Rightarrow> ptr \<Rightarrow> nat \<Rightarrow> nat \<Rightarrow> nat \<Rightarrow> mem" where
  "pread_mem m ps b j h bytes = (\<lambda>p. if p \<in> {b + j..<b + h} then Some (Bytes (take bytes (buf m (ps ! (p - b))))) else m p)"

lemma pread_disks_from:
  assumes "length ps \<le> 255" "0 < b" "h \<le> length ps" "j \<le> h"
    and "actual_snc s = Some snc" "ptrs_at (k_mem s) (sc_ptrs snc) = Some ps"
    and "\<forall>p \<in> set ps. p \<notin> {b..<b + h} \<and> (case bytes_at (k_mem s) p of None \<Rightarrow> False | Some bs \<Rightarrow> bytes \<le> length bs)"
    and "ptrs_at (k_mem s) g = Some (map ((+) b) [0..<h] @ rest)"
    and "\<forall>i \<in> {j..<h}. \<exists>J. k_mem s (b + i) = Some (Bytes J) \<and> length J = bytes"
  shows "pread_disks g bytes [int j..int h - 1] s = Go (s\<lparr>k_mem := pread_mem (k_mem s) ps b j h bytes\<rparr>)"
  using assms
proof (induction "h - j" arbitrary: j s)
  case 0
  then have "pread_mem (k_mem s) ps b j h bytes = k_mem s" by (auto simp: pread_mem_def fun_eq_iff)
  then show ?case using 0 by simp
next
  case (Suc k)
  then have j: "j < h" "j < length ps" by simp_all
  obtain J where J: "k_mem s (b + j) = Some (Bytes J)" "length J = bytes" using bspec [OF Suc.prems(9), of j] j by auto
  obtain bs where bs: "bytes_at (k_mem s) (ps ! j) = Some bs" "bytes \<le> length bs"
    using Suc.prems(7) j(2) by (force split: option.splits)
  let ?s = "s\<lparr>k_mem := (k_mem s)(b + j \<mapsto> Bytes (take bytes bs))\<rparr>"
  have bj: "bytes_at (k_mem s) (b + j) = Some J" using J(1) Suc.prems(2) by (simp add: bytes_at_def obj_at_def)
  have ix: "ptr_index (k_mem s) g (int j) = Some (b + j)"
    using Suc.prems(8) j(1) by (simp add: ptr_index_def nth_append)
  have "snc_disk s (of_nat j) = Some (ps ! j)"
    by (rule snc_disk_Some [OF Suc.prems(5,6) j(2)]) (use Suc.prems(1) j in simp)
  then have "barracuda_read bytes s bytes (of_nat j) = Some (bytes, take bytes bs)"
    using bs by (simp add: barracuda_read_def read_bytes_def)
  moreover have "write_bytes (k_mem s) (b + j) 0 (take bytes bs) = Some ((k_mem s)(b + j \<mapsto> Bytes (take bytes bs)))"
    using bj J(2) bs(2) by (simp add: write_bytes_def overwrite_def)
  ultimately have step: "pread_disks g bytes [int j..int h - 1] s = pread_disks g bytes [int (Suc j)..int h - 1] ?s"
    unfolding upto_from [OF j(1)] using Suc.prems(2) ix by (simp add: u_pread_def)
  have nps: "b + j \<notin> set ps" using Suc.prems(7) j by auto
  have ng: "b + j \<noteq> g" "b + j \<noteq> sc_ptrs snc"
    using bytes_at_not_ptrs [OF bj] Suc.prems(6,8) by auto
  have "pread_disks g bytes [int (Suc j)..int h - 1] ?s = Go (?s\<lparr>k_mem := pread_mem (k_mem ?s) ps b (Suc j) h bytes\<rparr>)"
  proof (rule Suc.hyps(1))
    show "\<forall>p \<in> set ps. p \<notin> {b..<b + h} \<and> (case bytes_at (k_mem ?s) p of None \<Rightarrow> False | Some bs \<Rightarrow> bytes \<le> length bs)"
      using Suc.prems(7) nps by auto
    show "ptrs_at (k_mem ?s) g = Some (map ((+) b) [0..<h] @ rest)" using Suc.prems(8) ng by simp
    show "\<forall>i \<in> {Suc j..<h}. \<exists>J. k_mem ?s (b + i) = Some (Bytes J) \<and> length J = bytes" using Suc.prems(9) by auto
  qed (use Suc.hyps(2) Suc.prems ng j in simp_all)
  moreover have "pread_mem (k_mem ?s) ps b (Suc j) h bytes = pread_mem (k_mem s) ps b j h bytes"
  proof
    fix p
    have "ps ! i \<noteq> b + j" if "i < h" for i using nps that Suc.prems(3) by (metis less_le_trans nth_mem)
    then show "pread_mem (k_mem ?s) ps b (Suc j) h bytes p = pread_mem (k_mem s) ps b j h bytes p"
      using Suc.prems(2) bs(1) j by (auto simp: pread_mem_def buf_def le_less_Suc_eq Suc_le_eq)
  qed
  ultimately show ?case unfolding step by simp
qed

lemma free_disks_from:
  assumes "0 < b" "j \<le> n" "ptrs_at (k_mem s) g = Some (map ((+) b) [0..<n] @ rest)" "g \<notin> {b..<b + n}"
    and "\<forall>i \<in> {j..<n}. k_mem s (b + i) \<noteq> None"
  shows "free_disks g [int j..int n - 1] s = Go (s\<lparr>k_mem := \<lambda>p. if p \<in> {b + j..<b + n} then None else k_mem s p\<rparr>)"
  using assms
proof (induction "n - j" arbitrary: j s)
  case (Suc k)
  then have j: "j < n" by simp
  let ?s = "s\<lparr>k_mem := (k_mem s)(b + j := None)\<rparr>"
  have "ptr_index (k_mem s) g (int j) = Some (b + j)"
    using Suc.prems(3) j by (simp add: ptr_index_def nth_append)
  moreover have "c_free (k_mem s) (b + j) = Some ((k_mem s)(b + j := None))"
    using Suc.prems(1) bspec [OF Suc.prems(5), of j] j by (auto simp: c_free_def)
  ultimately have step: "free_disks g [int j..int n - 1] s = free_disks g [int (Suc j)..int n - 1] ?s"
    unfolding upto_from [OF j] by simp
  have "b + j \<noteq> g" using Suc.prems(4) j by auto
  then have "ptrs_at (k_mem ?s) g = ptrs_at (k_mem s) g" by (simp add: ptrs_at_def obj_at_def)
  then have "free_disks g [int (Suc j)..int n - 1] ?s =
      Go (?s\<lparr>k_mem := \<lambda>p. if p \<in> {b + Suc j..<b + n} then None else k_mem ?s p\<rparr>)"
    using Suc.hyps(1) [of "Suc j" ?s] Suc.hyps(2) Suc.prems j by simp
  moreover have "(\<lambda>p. if p \<in> {b + Suc j..<b + n} then None else k_mem ?s p) =
      (\<lambda>p. if p \<in> {b + j..<b + n} then None else k_mem s p)" using j by (auto simp: fun_eq_iff)
  ultimately show ?case unfolding step by simp
qed simp

lemma free_disks_all:
  assumes "0 < b" "ptrs_at m g = Some (map ((+) b) [0..<n] @ rest)" "g \<notin> {b..<b + n}" "\<forall>i \<in> {0..<n}. m (b + i) \<noteq> None"
  shows "free_disks g [0..int n - 1] (s\<lparr>k_mem := m\<rparr>) = Go (s\<lparr>k_mem := \<lambda>p. if p \<in> {b..<b + n} then None else m p\<rparr>)"
  using free_disks_from [of b 0 n "s\<lparr>k_mem := m\<rparr>" g rest] assms by (simp cong: if_cong)

text \<open>The copied stripe, and the columns of it.\<close>

definition copied_mem :: "daemon \<Rightarrow> kstate \<Rightarrow> ptr list \<Rightarrow> nat \<Rightarrow> u8 list \<Rightarrow> mem" where
  "copied_mem d s ps bytes junk = (case ptrs_at (k_mem s) (global_dptrs d) of None \<Rightarrow> k_mem s | Some gs \<Rightarrow>
     pread_mem (alloc_mem (k_mem s) (global_dptrs d) gs (u_next d) 0 (length ps) (take bytes (junk @ replicate bytes 0)))
       ps (u_next d) 0 (length ps - 2) bytes)"

abbreviation copies :: "daemon \<Rightarrow> ptr list \<Rightarrow> ptr list" where
  "copies d ps \<equiv> map ((+) (u_next d)) [0..<length ps]"

text \<open>Room for the copies, and buffers long enough to be read.\<close>

definition copyable :: "daemon \<Rightarrow> kstate \<Rightarrow> ptr list \<Rightarrow> nat \<Rightarrow> bool" where
  "copyable d s ps bytes \<longleftrightarrow> 0 < u_next d \<and> u_next d + length ps \<le> k_base s \<and>
     (\<forall>i \<in> {0..<length ps}. k_mem s (u_next d + i) = None) \<and>
     (\<forall>p \<in> set ps. case bytes_at (k_mem s) p of None \<Rightarrow> False | Some bs \<Rightarrow> bytes \<le> length bs)"

lemma copyable_outside:
  assumes "copyable d s ps bytes" "k_mem s p \<noteq> None"
  shows "p \<notin> {u_next d..<u_next d + length ps}"
proof
  assume "p \<in> {u_next d..<u_next d + length ps}"
  then have "p - u_next d \<in> {0..<length ps}" "u_next d + (p - u_next d) = p" by auto
  then show False using assms unfolding copyable_def by metis
qed

lemma copyable_disk:
  assumes "copyable d s ps bytes" "p \<in> set ps"
  shows "\<exists>bs. bytes_at (k_mem s) p = Some bs \<and> bytes \<le> length bs"
proof -
  have "\<forall>p \<in> set ps. case bytes_at (k_mem s) p of None \<Rightarrow> False | Some bs \<Rightarrow> bytes \<le> length bs"
    using assms(1) unfolding copyable_def by (elim conjE)
  from bspec [OF this assms(2)] show ?thesis by (simp split: option.splits)
qed

lemma copied_mem_at:
  assumes "copyable d s ps bytes" "ptrs_at (k_mem s) (global_dptrs d) = Some gs" "length ps \<le> 255" "length gs = 255"
  shows "ptrs_at (copied_mem d s ps bytes junk) (global_dptrs d) = Some (copies d ps @ drop (length ps) gs)"
    "p \<notin> {u_next d..<u_next d + length ps} \<Longrightarrow> p \<noteq> global_dptrs d \<Longrightarrow> copied_mem d s ps bytes junk p = k_mem s p"
    "i < length ps \<Longrightarrow> \<exists>J. copied_mem d s ps bytes junk (u_next d + i) = Some (Bytes J) \<and> length J = bytes"
    "i < length ps - 2 \<Longrightarrow> copied_mem d s ps bytes junk (u_next d + i) = Some (Bytes (take bytes (buf (k_mem s) (ps ! i))))"
proof -
  let ?b = "u_next d" and ?g = "global_dptrs d" and ?J = "take bytes (junk @ replicate bytes 0)"
  let ?m = "alloc_mem (k_mem s) ?g gs ?b 0 (length ps) ?J"
  have g: "?g \<noteq> null" "k_mem s ?g = Some (Ptrs gs)" using ptrs_at_nonnull [OF assms(2)] by simp_all
  have gout: "?g \<notin> {?b..<?b + length ps}" by (rule copyable_outside [OF assms(1)]) (simp add: g)
  have ps: "\<exists>bs. bytes_at (k_mem s) p = Some bs \<and> bytes \<le> length bs" if "p \<in> set ps" for p
    using copyable_disk [OF assms(1) that] .
  have buf: "buf ?m (ps ! i) = buf (k_mem s) (ps ! i)" if i: "i < length ps" for i
  proof -
    obtain bs where bs: "bytes_at (k_mem s) (ps ! i) = Some bs" using ps [OF nth_mem [OF i]] by auto
    then have "ps ! i \<notin> {?b..<?b + length ps}" by (intro copyable_outside [OF assms(1)]) (auto dest: bytes_at_SomeD)
    moreover have "ps ! i \<noteq> ?g" using bs ptrs_at_not_bytes [OF assms(2)] by auto
    ultimately have "?m (ps ! i) = k_mem s (ps ! i)" unfolding alloc_mem_def by auto
    then show ?thesis by (simp add: buf_def bytes_at_def obj_at_def)
  qed
  have c: "copied_mem d s ps bytes junk = pread_mem ?m ps ?b 0 (length ps - 2) bytes"
    using assms(2) by (simp add: copied_mem_def)
  show "ptrs_at (copied_mem d s ps bytes junk) ?g = Some (copies d ps @ drop (length ps) gs)"
    using gout g unfolding c by (simp add: pread_mem_def alloc_mem_def ptrs_at_def obj_at_def) auto
  show "copied_mem d s ps bytes junk p = k_mem s p" if "p \<notin> {?b..<?b + length ps}" "p \<noteq> ?g"
    using that unfolding c by (auto simp: pread_mem_def alloc_mem_def)
  show *: "copied_mem d s ps bytes junk (?b + i) = Some (Bytes (take bytes (buf (k_mem s) (ps ! i))))" if "i < length ps - 2" for i
  proof -
    have "?b + i \<in> {?b + 0..<?b + (length ps - 2)}" "i < length ps" using that by auto
    then show ?thesis using buf [of i] unfolding c pread_mem_def by (simp only: if_True) simp
  qed
  show "\<exists>J. copied_mem d s ps bytes junk (?b + i) = Some (Bytes J) \<and> length J = bytes" if i: "i < length ps"
  proof (cases "i < length ps - 2")
    case True
    obtain bs where "bytes_at (k_mem s) (ps ! i) = Some bs" "bytes \<le> length bs" using ps [OF nth_mem [OF i]] by auto
    then show ?thesis using * [OF True] by (simp add: buf_def)
  next
    case False
    then show ?thesis using i unfolding c by (simp add: pread_mem_def alloc_mem_def)
  qed
qed

lemma copy_act_ok:
  assumes "mappable e ps bytes" "u_malloc e" "request_ok d s ps bytes" "copyable d s ps bytes"
  shows "copy_act_syndrome_block e junk d s =
    Go (Some \<lparr>sc_disks = int (length ps), sc_bytes = bytes, sc_ptrs = global_dptrs d\<rparr>,
        d\<lparr>smc_flag := True, u_next := u_next d + length ps, containers := containers d + 1\<rparr>,
        s\<lparr>k_mem := copied_mem d s ps bytes junk\<rparr>)"
proof -
  obtain snc gs where r: "length ps \<le> 255" "actual_snc s = Some snc" "sc_disks snc = int (length ps)"
    "sc_bytes snc = bytes" "sc_ptrs snc \<noteq> global_dptrs d" "ptrs_at (k_mem s) (sc_ptrs snc) = Some ps"
    "ptrs_at (k_mem s) (global_dptrs d) = Some gs" "length gs = 255"
    using request_okE [OF assms(3)] by blast
  have c: "0 < u_next d" "u_next d + length ps \<le> k_base s" "\<forall>i \<in> {0..<length ps}. k_mem s (u_next d + i) = None"
    using assms(4) unfolding copyable_def by blast+
  let ?J = "take bytes (junk @ replicate bytes 0)" and ?d = "d\<lparr>smc_flag := True\<rparr>" and ?b = "u_next d"
  let ?m = "alloc_mem (k_mem s) (global_dptrs d) gs ?b 0 (length ps) ?J" and ?h = "length ps - 2"
  have mal: "malloc_disks bytes junk [0..int (length ps) - 1] ?d s = Go (?d\<lparr>u_next := ?b + length ps\<rparr>, s\<lparr>k_mem := ?m\<rparr>)"
    using malloc_disks_from [OF r(8,1) c(1,2), of 0 ?d bytes junk] c(3) r(7) by simp
  have out: "?m p = k_mem s p" if "k_mem s p \<noteq> None" "p \<noteq> global_dptrs d" for p
    using copyable_outside [OF assms(4) that(1)] that(2) unfolding alloc_mem_def by auto
  have snc: "ptrs_at ?m (sc_ptrs snc) = Some ps"
    using out [of "sc_ptrs snc"] r(5) ptrs_at_nonnull [OF r(6)] by (simp add: ptrs_at_def obj_at_def)
  have ps: "p \<notin> {?b..<?b + ?h} \<and> (case bytes_at ?m p of None \<Rightarrow> False | Some bs \<Rightarrow> bytes \<le> length bs)"
    if p: "p \<in> set ps" for p
  proof -
    obtain bs where bs: "bytes_at (k_mem s) p = Some bs" "bytes \<le> length bs" using copyable_disk [OF assms(4) p] by auto
    then have "p \<noteq> global_dptrs d" "k_mem s p = Some (Bytes bs)" "p \<noteq> null"
      using ptrs_at_not_bytes [OF r(7)] bytes_at_SomeD by auto
    then show ?thesis
      using out [of p] copyable_outside [OF assms(4), of p] bs(2) by (auto simp: bytes_at_def obj_at_def)
  qed
  have gout: "global_dptrs d \<notin> {?b..<?b + length ps}"
    by (rule copyable_outside [OF assms(4)]) (use ptrs_at_nonnull [OF r(7)] in simp)
  have split: "[0..<length ps] = [0..<?h] @ [?h..<length ps]" using upt_add_eq_append [of 0 ?h "length ps - ?h"] by simp
  have g: "ptrs_at ?m (global_dptrs d) = Some (map ((+) ?b) [0..<?h] @ map ((+) ?b) [?h..<length ps] @ drop (length ps) gs)"
    using gout ptrs_at_nonnull [OF r(7)] unfolding alloc_mem_def ptrs_at_def obj_at_def split by auto
  have "pread_disks (global_dptrs d) bytes [int 0..int ?h - 1] (s\<lparr>k_mem := ?m\<rparr>) =
      Go (s\<lparr>k_mem := ?m\<rparr>\<lparr>k_mem := pread_mem (k_mem (s\<lparr>k_mem := ?m\<rparr>)) ps ?b 0 ?h bytes\<rparr>)"
  proof (rule pread_disks_from [OF r(1) c(1)])
    show "\<forall>i \<in> {0..<?h}. \<exists>J. k_mem (s\<lparr>k_mem := ?m\<rparr>) (?b + i) = Some (Bytes J) \<and> length J = bytes"
      by (auto simp: alloc_mem_def)
  qed (use r(2) snc g ps in auto)
  moreover have "int ?h - 1 = int (length ps) - 3 \<or> [int 0..int ?h - 1] = [] \<and> [0..int (length ps) - 3] = []"
    by (cases "2 \<le> length ps") auto
  then have "[int 0..int ?h - 1] = [0..int (length ps) - 3]" by auto
  ultimately have "pread_disks (global_dptrs d) bytes [0..int (length ps) - 3] (s\<lparr>k_mem := ?m\<rparr>) =
      Go (s\<lparr>k_mem := copied_mem d s ps bytes junk\<rparr>)"
    using r(7) by (simp add: copied_mem_def)
  then show ?thesis
    using map_container_ok [OF assms(1)] r mal assms(2)
    by (simp add: copy_act_syndrome_block_def Let_def new_container_def)
qed

lemma u_pwrite_ok:
  assumes "actual_snc s = Some snc" "ptrs_at (k_mem s) (sc_ptrs snc) = Some ps" "i < length ps" "length ps \<le> 255"
    and "bytes_at (k_mem s) p = Some pb" "length pb = bytes" "bytes_at (k_mem s) (ps ! i) = Some bs" "bytes \<le> length bs"
  shows "u_pwrite s p bytes (int i) = Go (s\<lparr>k_mem := (k_mem s)(ps ! i \<mapsto> Bytes (overwrite bs 0 pb))\<rparr>)"
proof -
  have "snc_disk s (of_nat i) = Some (ps ! i)" by (rule snc_disk_Some [OF assms(1-3)]) (use assms(3,4) in simp)
  then show ?thesis
    using assms(5-8) by (simp add: u_pwrite_def barracuda_write_def read_bytes_def write_bytes_def)
qed

text \<open>The memory after the check disks have been written back.\<close>

definition copyback_mem :: "mem \<Rightarrow> ptr list \<Rightarrow> u8 list \<Rightarrow> u8 list \<Rightarrow> mem" where
  "copyback_mem m ps pb qb = m(ps ! (length ps - 2) \<mapsto> Bytes (overwrite (buf m (ps ! (length ps - 2))) 0 pb),
     ps ! (length ps - 1) \<mapsto> Bytes (overwrite (buf m (ps ! (length ps - 1))) 0 qb))"

text \<open>A column of the stripe after the copy back is a codeword if the two buffers hold its check bytes.\<close>

lemma copyback_column:
  assumes "distinct ps" "3 \<le> length ps"
    and "\<And>z. z < length ps \<Longrightarrow> bytes \<le> length (buf m (ps ! z))" "\<And>z. z < length ps \<Longrightarrow> ps ! z \<noteq> null"
      "\<And>z. z < length ps \<Longrightarrow> ps ! z \<noteq> g"
    and "length pb = bytes" "length qb = bytes" "\<And>p. p \<noteq> g \<Longrightarrow> m' p = copyback_mem m ps pb qb p" "i < bytes"
    and "pb ! i = xor_list (column m ps (length ps - 2) i)" "qb ! i = q_byte (column m ps (length ps - 2) i)"
  shows "column m' ps (length ps) i = codeword (column m ps (length ps - 2) i)"
proof (rule nth_equalityI)
  let ?n = "length ps"
  show "length (column m' ps ?n i) = length (codeword (column m ps (?n - 2) i))"
    using assms(2) by (simp add: column_def codeword_def)
  fix z assume "z < length (column m' ps ?n i)"
  then have z: "z < ?n" by (simp add: column_def)
  have neq: "ps ! z = ps ! y \<longleftrightarrow> z = y" if "y < ?n" for y using assms(1) z that by (simp add: nth_eq_iff_index_eq)
  have y: "?n - 2 < ?n" "?n - 1 < ?n" using assms(2) by auto
  have "m' (ps ! z) = copyback_mem m ps pb qb (ps ! z)" using assms(5,8) z by simp
  then have "buf m' (ps ! z) = (if z = ?n - 1 then overwrite (buf m (ps ! z)) 0 qb
      else if z = ?n - 2 then overwrite (buf m (ps ! z)) 0 pb else buf m (ps ! z))"
    using assms(4) [OF z] neq [OF y(1)] neq [OF y(2)]
    by (auto simp: buf_def bytes_at_def obj_at_def copyback_mem_def)
  moreover have "column m' ps ?n i ! z = buf m' (ps ! z) ! i" using z by (simp add: column_def)
  ultimately show "column m' ps ?n i ! z = codeword (column m ps (?n - 2) i) ! z"
    using z assms(2,6,7,9,10,11)
    by (auto simp: codeword_def nth_append overwrite_def column_def nth_Cons split: nat.splits)
qed

text \<open>The memory after the encoder has written the copies of the two check disks: the rest of the
  kernel's memory is as it was, and the daemon's pointer array points to the copies.\<close>

lemma encoded_copies:
  assumes r: "request_ok d s ps bytes" "copyable d s ps bytes" "2 \<le> length ps"
    and m: "m = (copied_mem d s ps bytes junk)
      (u_next d + (length ps - 2) \<mapsto> Bytes pb, u_next d + (length ps - 1) \<mapsto> Bytes qb)"
  obtains snc gs where "actual_snc s = Some snc" "ptrs_at m (sc_ptrs snc) = Some ps"
    "ptrs_at m (global_dptrs d) = Some (copies d ps @ gs)" "global_dptrs d \<notin> {u_next d..<u_next d + length ps}"
    "bytes_at m (u_next d + (length ps - 2)) = Some pb" "bytes_at m (u_next d + (length ps - 1)) = Some qb"
    "\<forall>i \<in> {0..<length ps}. m (u_next d + i) \<noteq> None"
    "\<And>p. p \<notin> {u_next d..<u_next d + length ps} \<Longrightarrow> p \<noteq> global_dptrs d \<Longrightarrow> m p = k_mem s p"
    "\<And>p. p \<in> set ps \<Longrightarrow> bytes_at m p = Some (buf (k_mem s) p) \<and> bytes \<le> length (buf (k_mem s) p) \<and>
      p \<noteq> null \<and> p \<noteq> global_dptrs d \<and> p \<notin> {u_next d..<u_next d + length ps} \<and> p \<noteq> sc_ptrs snc"
proof -
  let ?b = "u_next d" and ?g = "global_dptrs d" and ?n = "length ps" and ?R = "{u_next d..<u_next d + length ps}"
  obtain snc gs where q: "length ps \<le> 255" "actual_snc s = Some snc" "sc_ptrs snc \<noteq> ?g"
    "ptrs_at (k_mem s) (sc_ptrs snc) = Some ps" "ptrs_at (k_mem s) ?g = Some gs" "length gs = 255"
    using request_okE [OF r(1)] by blast
  note at = copied_mem_at [OF r(2) q(5,1,6), where junk = junk]
  have b: "0 < ?b" using r(2) by (simp add: copyable_def)
  have gout: "?g \<notin> ?R" by (rule copyable_outside [OF r(2)]) (use ptrs_at_nonnull [OF q(5)] in simp)
  have inR: "?b + (?n - 2) \<in> ?R" "?b + (?n - 1) \<in> ?R" "?b + (?n - 2) \<noteq> ?b + (?n - 1)" using r(3) by auto
  have out: "m p = k_mem s p" if "p \<notin> ?R" "p \<noteq> ?g" for p
    using at(2) [OF that] that(1) inR unfolding m by (auto simp del: atLeastLessThan_iff)
  have same: "m p = k_mem s p" if "k_mem s p \<noteq> None" "p \<noteq> ?g" for p
    using copyable_outside [OF r(2) that(1)] that(2) by (rule out)
  have mg: "ptrs_at m ?g = Some (copies d ps @ drop ?n gs)"
    using at(1) gout inR unfolding m by (auto simp del: atLeastLessThan_iff)
  have snc: "ptrs_at m (sc_ptrs snc) = Some ps"
    using same [of "sc_ptrs snc"] q(3) ptrs_at_nonnull [OF q(4)] by (simp add: ptrs_at_def obj_at_def)
  have "m (?b + i) \<noteq> None" if "i < ?n" for i using at(3) [OF that] unfolding m by (auto simp: fun_upd_def)
  then have live: "\<forall>i \<in> {0..<?n}. m (?b + i) \<noteq> None" by simp
  have up: "bytes_at m (?b + (?n - 2)) = Some pb" "bytes_at m (?b + (?n - 1)) = Some qb"
    using b inR(3) unfolding m by auto
  show thesis
  proof (rule that [OF q(2) snc mg gout up live out])
    fix p assume p: "p \<in> set ps"
    obtain bs where bs: "bytes_at (k_mem s) p = Some bs" "bytes \<le> length bs" using copyable_disk [OF r(2) p] by auto
    then have "k_mem s p = Some (Bytes bs)" "p \<noteq> null" "p \<noteq> ?g" "p \<noteq> sc_ptrs snc"
      using bytes_at_SomeD [OF bs(1)] ptrs_at_not_bytes [OF q(5)] ptrs_at_not_bytes [OF q(4)] by auto
    then show "bytes_at m p = Some (buf (k_mem s) p) \<and> bytes \<le> length (buf (k_mem s) p) \<and> p \<noteq> null \<and> p \<noteq> ?g \<and> p \<notin> ?R \<and> p \<noteq> sc_ptrs snc"
      using same [of p] bs copyable_outside [OF r(2), of p] by (simp add: bytes_at_def obj_at_def buf_def)
  qed
qed

lemma copyback_act_ok:
  assumes r: "request_ok d s ps bytes" "copyable d s ps bytes" "distinct ps" "2 \<le> length ps"
    and l: "length pb = bytes" "length qb = bytes"
    and m: "m = (copied_mem d s ps bytes junk)
      (u_next d + (length ps - 2) \<mapsto> Bytes pb, u_next d + (length ps - 1) \<mapsto> Bytes qb)"
  shows "\<exists>m'. copyback_act_syndrome_block \<lparr>sc_disks = int (length ps), sc_bytes = bytes, sc_ptrs = global_dptrs d\<rparr> d'
      (s\<lparr>k_mem := m\<rparr>) = Go (d'\<lparr>containers := containers d' - 1\<rparr>, s\<lparr>k_mem := m'\<rparr>) \<and>
    (\<forall>p. p \<noteq> global_dptrs d \<longrightarrow> m' p = copyback_mem (k_mem s) ps pb qb p)"
proof -
  let ?b = "u_next d" and ?g = "global_dptrs d" and ?n = "length ps" and ?R = "{u_next d..<u_next d + length ps}"
  let ?P = "ps ! (?n - 2)" and ?Q = "ps ! (?n - 1)"
  obtain snc gs where c: "actual_snc s = Some snc" "ptrs_at m (sc_ptrs snc) = Some ps"
    "ptrs_at m ?g = Some (copies d ps @ gs)" "?g \<notin> ?R"
    "bytes_at m (?b + (?n - 2)) = Some pb" "bytes_at m (?b + (?n - 1)) = Some qb" "\<forall>i \<in> {0..<?n}. m (?b + i) \<noteq> None"
    and out: "\<And>p. p \<notin> ?R \<Longrightarrow> p \<noteq> ?g \<Longrightarrow> m p = k_mem s p"
    and disk: "\<And>p. p \<in> set ps \<Longrightarrow> bytes_at m p = Some (buf (k_mem s) p) \<and> bytes \<le> length (buf (k_mem s) p) \<and>
      p \<noteq> null \<and> p \<noteq> ?g \<and> p \<notin> ?R \<and> p \<noteq> sc_ptrs snc"
    by (rule encoded_copies [OF r(1,2,4) m]) blast
  have n: "?n \<le> 255" using request_okE [OF r(1)] by blast
  have PQ: "?P \<in> set ps" "?Q \<in> set ps" "?P \<noteq> ?Q" "?b + (?n - 1) \<in> ?R" using r(3,4) by (auto simp: nth_eq_iff_index_eq)
  note P = disk [OF PQ(1)] and Q = disk [OF PQ(2)]
  let ?m1 = "m(?P \<mapsto> Bytes (overwrite (buf (k_mem s) ?P) 0 pb))"
  let ?m2 = "?m1(?Q \<mapsto> Bytes (overwrite (buf (k_mem s) ?Q) 0 qb))"
  have lt: "?n - 2 < ?n" "?n - 1 < ?n" and i2: "int ?n - 2 = int (?n - 2)" "int ?n - 1 = int (?n - 1)" using r(4) by auto
  have iP: "ptr_index m ?g (int ?n - 2) = Some (?b + (?n - 2))"
    using c(3) r(4) lt by (simp add: ptr_index_def nth_append nat_diff_distrib)
  have iQ: "ptr_index ?m1 ?g (int ?n - 1) = Some (?b + (?n - 1))"
    using c(3) r(4) P lt by (cases "ps = []") (simp_all add: ptr_index_def nth_append nat_diff_distrib)
  have w1: "u_pwrite (s\<lparr>k_mem := m\<rparr>) (?b + (?n - 2)) bytes (int ?n - 2) = Go (s\<lparr>k_mem := ?m1\<rparr>)"
    using u_pwrite_ok [of "s\<lparr>k_mem := m\<rparr>" snc ps "?n - 2" "?b + (?n - 2)" pb bytes] n c(1,2,5) l(1) P lt unfolding i2 by simp
  have "ptrs_at ?m1 (sc_ptrs snc) = Some ps" "bytes_at ?m1 (?b + (?n - 1)) = Some qb" "bytes_at ?m1 ?Q = Some (buf (k_mem s) ?Q)"
    using c(2,6) P Q PQ(3,4) by auto
  then have w2: "u_pwrite (s\<lparr>k_mem := ?m1\<rparr>) (?b + (?n - 1)) bytes (int ?n - 1) = Go (s\<lparr>k_mem := ?m2\<rparr>)"
    using u_pwrite_ok [of "s\<lparr>k_mem := ?m1\<rparr>" snc ps "?n - 1" "?b + (?n - 1)" qb bytes] n c(1) l(2) Q lt unfolding i2 by simp
  let ?m3 = "\<lambda>p. if p \<in> ?R then None else ?m2 p"
  have "\<forall>i \<in> {0..<?n}. ?m2 (?b + i) \<noteq> None" "ptrs_at ?m2 ?g = Some (copies d ps @ gs)" "0 < ?b"
    using c(3,7) P Q r(2) by (auto simp: copyable_def)
  then have "free_disks ?g [0..int ?n - 1] (s\<lparr>k_mem := ?m2\<rparr>) = Go (s\<lparr>k_mem := ?m3\<rparr>)"
    using free_disks_all [OF _ _ c(4), of ?m2] by blast
  then have run: "copyback_act_syndrome_block \<lparr>sc_disks = int ?n, sc_bytes = bytes, sc_ptrs = ?g\<rparr> d' (s\<lparr>k_mem := m\<rparr>) =
      Go (d'\<lparr>containers := containers d' - 1\<rparr>, s\<lparr>k_mem := ?m3\<rparr>)"
    using iP iQ w1 w2 by (simp add: copyback_act_syndrome_block_def Let_def)
  have "k_mem s p = None" if "p \<in> ?R" for p using copyable_outside [OF r(2), of p] that by blast
  then have "?m3 p = copyback_mem (k_mem s) ps pb qb p" if "p \<noteq> ?g" for p
    using out [of p] that P Q by (cases "p \<in> ?R") (auto simp: copyback_mem_def simp del: atLeastLessThan_iff)
  then show ?thesis using run by blast
qed

context raid6_generator
begin

lemma serve_block_copy_ok:
  assumes e: "mappable e ps bytes" "u_malloc e" and r: "request_ok d s ps bytes" "distinct ps" "3 \<le> length ps" "ok bytes"
    and c: "copyable d s ps bytes" "need bytes = bytes"
  shows "\<exists>s'. serve_block_copy gen e junk d s =
      Go (d\<lparr>smc_flag := True, u_next := u_next d + length ps\<rparr>, s') \<and> request_served d s ps bytes s'"
proof -
  let ?m = "copied_mem d s ps bytes junk" and ?g = "global_dptrs d" and ?n = "length ps" and ?us = "copies d ps"
  obtain gs where q: "length ps \<le> 255" "ptrs_at (k_mem s) ?g = Some gs" "length gs = 255"
    using request_okE [OF r(1)] by blast
  note at = copied_mem_at [OF c(1) q(2,1,3), where junk = junk]
  have b: "0 < u_next d" using c(1) by (simp add: copyable_def)
  have us: "\<exists>J. bytes_at ?m (u_next d + i) = Some J \<and> length J = bytes" if "i < ?n" for i
    using at(3) [OF that] b by (auto simp: bytes_at_def obj_at_def)
  have "case bytes_at ?m p of None \<Rightarrow> False | Some bs \<Rightarrow> bytes \<le> length bs" if p: "p \<in> set ?us" for p
  proof -
    have "p = u_next d + (p - u_next d)" "p - u_next d < ?n" using p by auto
    then show ?thesis using us [of "p - u_next d"] by auto
  qed
  then have st: "stripe ?m ?g ?us (need bytes)" using at(1) c(2) by (auto simp: stripe_def distinct_map)
  have l: "length ?us < 2 ^ 31" "3 \<le> length ?us" "length ?us = ?n" using q(1) r(3) by simp_all
  obtain m' where m': "gen (int (length ?us)) bytes ?g ?m = Some m'" "raid6_encodes ?us bytes ?m m'"
    using gen_encodes [OF st l(2,1) r(4)] by blast
  obtain pb qb where pq: "m' = ?m(u_next d + (?n - 2) \<mapsto> Bytes pb, u_next d + (?n - 1) \<mapsto> Bytes qb)"
    "length pb = bytes" "length qb = bytes"
    "\<forall>i < bytes. pb ! i = xor_list (column ?m ?us (?n - 2) i) \<and> qb ! i = q_byte (column ?m ?us (?n - 2) i)"
  proof -
    have k: "?us ! (?n - 2) = u_next d + (?n - 2)" "?us ! (?n - 2 + 1) = u_next d + (?n - 1)" "?n - 2 < ?n" "?n - 1 < ?n"
      using r(3) by auto
    have "length (buf ?m (u_next d + (?n - 2))) = bytes" "length (buf ?m (u_next d + (?n - 1))) = bytes"
      using us [OF k(3)] us [OF k(4)] by (auto simp: buf_def)
    then show ?thesis using m'(2) that unfolding raid6_encodes_def Let_def l(3) k(1,2) by auto
  qed
  have disk: "bytes \<le> length (buf (k_mem s) (ps ! z))" "ps ! z \<noteq> null" "ps ! z \<noteq> ?g" if z: "z < ?n" for z
    using copyable_disk [OF c(1) nth_mem [OF z]] ptrs_at_not_bytes [OF q(2)] by (auto simp: buf_def dest: bytes_at_SomeD)
  have col: "column ?m ?us (?n - 2) i = column (k_mem s) ps (?n - 2) i" if "i < bytes" for i
  proof -
    have "buf ?m (?us ! z) ! i = buf (k_mem s) (ps ! z) ! i" if "z < ?n - 2" for z
      using at(4) [OF that] b \<open>i < bytes\<close> that by (simp add: buf_def bytes_at_def obj_at_def)
    then show ?thesis unfolding column_def by simp
  qed
  have cb: "\<exists>m''. copyback_act_syndrome_block \<lparr>sc_disks = int ?n, sc_bytes = bytes, sc_ptrs = ?g\<rparr>
      (d\<lparr>smc_flag := True, u_next := u_next d + ?n, containers := containers d + 1\<rparr>) (s\<lparr>k_mem := m'\<rparr>) =
      Go (d\<lparr>smc_flag := True, u_next := u_next d + ?n, containers := containers d\<rparr>, s\<lparr>k_mem := m''\<rparr>) \<and>
    (\<forall>p. p \<noteq> ?g \<longrightarrow> m'' p = copyback_mem (k_mem s) ps pb qb p)"
    using copyback_act_ok [OF r(1) c(1) r(2) _ pq(2,3,1), of "d\<lparr>smc_flag := True, u_next := u_next d + ?n, containers := containers d + 1\<rparr>"]
      r(3) by simp
  then obtain m'' where m'': "copyback_act_syndrome_block \<lparr>sc_disks = int ?n, sc_bytes = bytes, sc_ptrs = ?g\<rparr>
      (d\<lparr>smc_flag := True, u_next := u_next d + ?n, containers := containers d + 1\<rparr>) (s\<lparr>k_mem := m'\<rparr>) =
      Go (d\<lparr>smc_flag := True, u_next := u_next d + ?n, containers := containers d\<rparr>, s\<lparr>k_mem := m''\<rparr>)"
    "\<And>p. p \<noteq> ?g \<Longrightarrow> m'' p = copyback_mem (k_mem s) ps pb qb p" by blast
  have run: "serve_block_copy gen e junk d s = Go (d\<lparr>smc_flag := True, u_next := u_next d + ?n\<rparr>, s\<lparr>k_mem := m''\<rparr>)"
    using m'(1) m''(1) l(3) by (simp add: serve_block_copy_def copy_act_ok [OF e r(1) c(1)])
  have "column m'' ps ?n i = codeword (column (k_mem s) ps (?n - 2) i)" if "i < bytes" for i
    using copyback_column [OF r(2,3) disk pq(2,3) _ that] m''(2) pq(4) col [OF that] that by simp
  then show ?thesis using run m''(2) by (auto simp: request_served_def copyback_mem_def)
qed

end

section \<open>Properties\<close>


definition sample_uenv :: uenv where
  "sample_uenv = \<lparr>u_api = sample_api, u_addr = (\<lambda>n. of_nat (0x100000 * n)), u_malloc = True\<rparr>"

definition sample_daemon :: daemon where
  "sample_daemon = \<lparr>keep_going = True, smc_flag = False, global_dptrs = 6, maps = [], containers = 0, u_next = 10\<rparr>"

definition sample_job :: kstate where
  "sample_job = (module_init 0x1000 (sample_mem(6 \<mapsto> Ptrs (replicate 255 null))) 20)
     \<lparr>actual_snc := Some \<lparr>sc_disks = 4, sc_bytes = 16, sc_ptrs = 1\<rparr>\<rparr>"

lemma sample_job_ok:
  "request_ok sample_daemon sample_job [2, 3, 4, 5] 16" "mappable sample_uenv [2, 3, 4, 5] 16" "u_malloc sample_uenv"
  "\<forall>p \<in> set [2, 3, 4, 5]. case bytes_at (k_mem sample_job) p of None \<Rightarrow> False | Some bs \<Rightarrow> 16 \<le> length bs"
  "copyable sample_daemon sample_job [2, 3, 4, 5] 16"
  by (simp_all add: request_ok_def sample_job_def module_init_def sample_daemon_def sample_mem_def MAP_FAILED_def
      ptrs_at_def obj_at_def mappable_def sample_uenv_def sample_api_def bytes_at_def copyable_def)


text \<open>C20. The build with \<open>COPY_MARSHALLING\<close> computes the same: on a request whose size needs no padding,
  copying the data disks to the daemon, encoding the copies and copying the two check disks back
  leaves the caller's buffers with the same bytes as mapping them, whatever the new buffers
  contained; and the copies are freed.\<close>

theorem copy_marshalling_equivalent:
  assumes "raid6_encoder gen need ok" "mappable e ps bytes" "u_malloc e" "request_ok d s ps bytes"
    and "distinct ps" "3 \<le> length ps" "ok bytes" "need bytes = bytes" "copyable d s ps bytes"
  shows "\<exists>d1 s1 d2 s2. serve_block gen e d s = Go (d1, s1) \<and> serve_block_copy gen e junk d s = Go (d2, s2) \<and>
    (\<forall>i < bytes. column (k_mem s1) ps (length ps) i = column (k_mem s2) ps (length ps) i) \<and>
    (\<forall>i \<in> {u_next d..<u_next d + length ps}. k_mem s2 i = None) \<and> containers d2 = containers d1"
proof -
  have g: "raid6_generator gen need ok" by (rule raid6_encoder_generator [OF assms(1)])
  have b: "\<forall>p \<in> set ps. case bytes_at (k_mem s) p of None \<Rightarrow> False | Some bs \<Rightarrow> need bytes \<le> length bs"
    using assms(9) unfolding copyable_def assms(8) by (elim conjE)
  obtain s1 where s1: "serve_block gen e d s = Go (d\<lparr>smc_flag := True\<rparr>, s1)" "request_served d s ps bytes s1"
    using raid6_generator.serve_block_ok [OF g assms(2-7) b] by blast
  obtain s2 where s2: "serve_block_copy gen e junk d s = Go (d\<lparr>smc_flag := True, u_next := u_next d + length ps\<rparr>, s2)"
    "request_served d s ps bytes s2"
    using raid6_generator.serve_block_copy_ok [OF g assms(2-7,9,8)] by blast
  have live: "k_mem s p \<noteq> None" if p: "p = ps ! (length ps - 2) \<or> p = ps ! (length ps - 1) \<or> p = global_dptrs d" for p
  proof -
    have "p \<in> set ps \<or> p = global_dptrs d" using p assms(6) by auto
    then show ?thesis
      using copyable_disk [OF assms(9), of p] request_okE [OF assms(4)] ptrs_at_nonnull [of "k_mem s" p]
      by (metis bytes_at_SomeD option.distinct(1))
  qed
  have "k_mem s2 i = None" if i: "i \<in> {u_next d..<u_next d + length ps}" for i
  proof -
    have "k_mem s i = None" using copyable_outside [OF assms(9), of i] i by blast
    then show ?thesis using s2(2) live [of i] unfolding request_served_def by metis
  qed
  then show ?thesis using s1 s2 by (auto simp: request_served_def)
qed

theorem copy_marshalling_equivalent_witness:
  "\<exists>d1 s1 d2 s2. serve_block raid6_vanilla_gen_syndrome sample_uenv sample_daemon sample_job = Go (d1, s1) \<and>
     serve_block_copy raid6_vanilla_gen_syndrome sample_uenv [7] sample_daemon sample_job = Go (d2, s2) \<and>
     column (k_mem s1) [2, 3, 4, 5] 4 0 = column (k_mem s2) [2, 3, 4, 5] 4 0"
proof -
  let ?ps = "[2, 3, 4, 5 :: ptr]"
  have "raid6_encoder raid6_vanilla_gen_syndrome vanilla_need vanilla_ok" by (simp add: raid6_encoder_def)
  moreover have "vanilla_need 16 = 16" "vanilla_ok 16" by (simp_all add: vanilla_need_def vanilla_ok_def)
  moreover have "distinct ?ps" "3 \<le> length ?ps" by simp_all
  ultimately have "\<exists>d1 s1 d2 s2. serve_block raid6_vanilla_gen_syndrome sample_uenv sample_daemon sample_job = Go (d1, s1) \<and>
     serve_block_copy raid6_vanilla_gen_syndrome sample_uenv [7] sample_daemon sample_job = Go (d2, s2) \<and>
     (\<forall>i < 16. column (k_mem s1) ?ps (length ?ps) i = column (k_mem s2) ?ps (length ?ps) i) \<and>
     (\<forall>i \<in> {u_next sample_daemon..<u_next sample_daemon + length ?ps}. k_mem s2 i = None) \<and> containers d2 = containers d1"
    by (intro copy_marshalling_equivalent [OF _ sample_job_ok(2,3,1)] sample_job_ok(5))
  moreover have "length ?ps = 4" "(0 :: nat) < 16" by simp_all
  ultimately show ?thesis by metis
qed

end
