(* ===== verification/User_Server.thy ===== *)
theory User_Server
  imports User_Marshal
begin

unbundle bit_operations_syntax

text \<open>
  The daemon of \<open>barracuda_deamon/userspace_driver.cu\<close>: netlink packets, signal handlers, the three
  servers, and the start-up in \<open>userspace_driver_main\<close>.

  A server is a program over the running module \<open>ksys\<close>: one constructor per program point, and a
  step function. A system call that enters a handler of the module adds a thread to \<open>ksys\<close>; the
  server goes on when that thread has returned. \<open>fread\<close> and \<open>fwrite\<close> on \<open>/proc/barracuda/stub\<close> are one
  call of the handler each; the buffering of the C library is not modelled. \<open>ustep\<close> interleaves the
  server with the module and with signals.
\<close>

section \<open>Netlink packets\<close>

record nlmsghdr =
  nlmsg_len :: nat
  nlmsg_pid :: u32
  nlmsg_flags :: u16
  nlmsg_type :: u16
  nlmsg_data :: "u8 list"

record msghdr =
  msg_name :: "u32 option"
  msg_iov :: "nlmsghdr option"

definition MAX_PAYLOAD :: nat where
  "MAX_PAYLOAD = 1024"

definition NL_COMMAND :: u16 where
  "NL_COMMAND = 0x11"

text \<open>\<open>NLMSG_SPACE\<close>: the header of 16 bytes and the payload, aligned to four.\<close>

definition NLMSG_SPACE :: "nat \<Rightarrow> nat" where
  "NLMSG_SPACE n = 4 * ((n + 16 + 3) div 4)"

text \<open>The flags are \<open>NLM_F_REQUEST | NLM_F_ECHO\<close>; the destination is the kernel, process 0.\<close>

definition gen_message_container :: "u32 \<Rightarrow> msghdr" where
  "gen_message_container pid = \<lparr>msg_name = Some 0, msg_iov = Some
     \<lparr>nlmsg_len = NLMSG_SPACE MAX_PAYLOAD, nlmsg_pid = pid, nlmsg_flags = 1 OR 8, nlmsg_type = NL_COMMAND,
      nlmsg_data = replicate MAX_PAYLOAD 0\<rparr>\<rparr>"

definition destroy_message_container :: "msghdr \<Rightarrow> msghdr option" where
  "destroy_message_container msg = do {
     iov \<leftarrow> msg_iov msg;
     name \<leftarrow> msg_name msg;
     Some \<lparr>msg_name = None, msg_iov = None\<rparr> }"

text \<open>\<open>strcpy\<close>: up to and including the first zero byte of the source.\<close>

definition c_strcpy :: "u8 list \<Rightarrow> u8 list \<Rightarrow> u8 list option" where
  "c_strcpy dst src = (let x = takeWhile (\<lambda>b. b \<noteq> 0) src in
     if length x < length src \<and> length x < length dst then Some (overwrite dst 0 (x @ [0])) else None)"

definition add_payload :: "msghdr \<Rightarrow> u8 list \<Rightarrow> msghdr option" where
  "add_payload msg payload = do {
     nlh \<leftarrow> msg_iov msg;
     data \<leftarrow> c_strcpy (nlmsg_data nlh) payload;
     Some (msg\<lparr>msg_iov := Some (nlh\<lparr>nlmsg_data := data\<rparr>)\<rparr>) }"

definition get_payload :: "msghdr \<Rightarrow> u8 list \<Rightarrow> u8 list option" where
  "get_payload msg payload = do {
     nlh \<leftarrow> msg_iov msg;
     c_strcpy payload (nlmsg_data nlh) }"

text \<open>\<open>recvmsg\<close> stores the payload of the packet; \<open>sendmsg\<close> hands the module the sender and the
  first eight bytes of the payload.\<close>

definition recvmsg :: "msghdr \<Rightarrow> u8 list \<Rightarrow> msghdr option" where
  "recvmsg msg packet = do {
     nlh \<leftarrow> msg_iov msg;
     Some (msg\<lparr>msg_iov := Some (nlh\<lparr>nlmsg_data := overwrite (nlmsg_data nlh) 0 packet\<rparr>)\<rparr>) }"

definition sendmsg :: "msghdr \<Rightarrow> skb option" where
  "sendmsg msg = do {
     nlh \<leftarrow> msg_iov msg;
     Some \<lparr>skb_pid = nlmsg_pid nlh, skb_data = word_of_bytes (take 8 (nlmsg_data nlh))\<rparr> }"

definition init_string :: "u8 list" where
  "init_string = [105, 110, 105, 116, 0]"

section \<open>Signals\<close>

definition SIGKILL :: int where
  "SIGKILL = 9"

definition SIGALRM :: int where
  "SIGALRM = 14"

definition SIGTERM :: int where
  "SIGTERM = 15"

text \<open>\<open>kill_handler\<close> only logs and registers itself again.\<close>

definition kill_handler :: "int \<Rightarrow> daemon \<Rightarrow> daemon" where
  "kill_handler signum d = (if signum = SIGKILL \<or> signum = SIGTERM then d else d)"

definition alarm_handler :: "bool \<Rightarrow> int \<Rightarrow> daemon \<Rightarrow> daemon option" where
  "alarm_handler fopen_ok signum d =
     (if signum = SIGALRM then
        if \<not> fopen_ok then Some d
        else do {
          (n, page) \<leftarrow> conf_read (replicate PAGE_SIZE (CHR 0x00));
          flag \<leftarrow> (case page of [] \<Rightarrow> None | c # cs \<Rightarrow> Some c);
          Some (if flag = CHR ''n'' then d\<lparr>keep_going := False\<rparr> else d) }
      else Some d)"

section \<open>The servers\<close>

datatype server_pc = S_Loop | S_Call nat | S_Recv | S_Get | S_Gen syndrome_container | S_Unget syndrome_container
  | S_Report | S_Reported nat | S_Ret int

record usys =
  u_sys :: ksys
  u_daemon :: daemon
  u_buffer :: u64
  u_payload :: "u8 list"
  u_server :: msghdr
  u_client :: msghdr
  u_read :: nat
  u_pc :: server_pc

type_synonym gen_syndrome = "int \<Rightarrow> nat \<Rightarrow> ptr \<Rightarrow> mem \<Rightarrow> mem option"

text \<open>A system call into the module; \<open>pc\<close> receives the number of the thread that runs the handler.\<close>

definition enter_call :: "kthread \<Rightarrow> (nat \<Rightarrow> server_pc) \<Rightarrow> usys \<Rightarrow> usys outcome" where
  "enter_call t pc u = obind (kevent (Enter t) (u_sys u)) (\<lambda>k.
     Go (u\<lparr>u_sys := k, u_pc := pc (length (k_threads (u_sys u)))\<rparr>))"

definition set_state :: "kstate \<Rightarrow> usys \<Rightarrow> usys" where
  "set_state s u = u\<lparr>u_sys := (u_sys u)\<lparr>k_state := s\<rparr>\<rparr>"

text \<open>The part the three loops share: get the container, run the encoder on it, give it back. A null
  container is dereferenced.\<close>

definition step_get :: "uenv \<Rightarrow> usys \<Rightarrow> usys outcome" where
  "step_get e u = obind (get_act_syndrome_block e (u_daemon u) (k_state (u_sys u))) (\<lambda>(c, d, s).
     obind (or_fault c) (\<lambda>act_container.
     Go (set_state s u\<lparr>u_daemon := d, u_pc := S_Gen act_container\<rparr>)))"

definition step_gen :: "gen_syndrome \<Rightarrow> syndrome_container \<Rightarrow> usys \<Rightarrow> usys outcome" where
  "step_gen gen_syndrome c u = (let s = k_state (u_sys u) in
     obind (or_fault (gen_syndrome (sc_disks c) (sc_bytes c) (sc_ptrs c) (k_mem s))) (\<lambda>m.
     Go (set_state (s\<lparr>k_mem := m\<rparr>) u\<lparr>u_pc := S_Unget c\<rparr>)))"

definition step_unget :: "server_pc \<Rightarrow> syndrome_container \<Rightarrow> usys \<Rightarrow> usys outcome" where
  "step_unget pc c u = obind (unget_act_syndrome_block c (u_daemon u) (k_state (u_sys u))) (\<lambda>d.
     Go (u\<lparr>u_daemon := d, u_pc := pc\<rparr>))"

text \<open>\<open>server_procfs\<close>: the report writes the ten bytes of the buffer, the address first; its result is
  not looked at.\<close>

fun server_procfs_step :: "gen_syndrome \<Rightarrow> uenv \<Rightarrow> usys \<Rightarrow> server_pc \<Rightarrow> usys outcome" where
  "server_procfs_step gen e u S_Loop =
     (if keep_going (u_daemon u) then enter_call (Proc_Read PR_Down) S_Call u else Go (u\<lparr>u_pc := S_Ret 0\<rparr>))"
| "server_procfs_step gen e u (S_Call i) = (case k_threads (u_sys u) ! i of
     Proc_Read (PR_Ret r a) \<Rightarrow> Go (u\<lparr>u_buffer := a, u_pc := S_Get\<rparr>) | _ \<Rightarrow> Block)"
| "server_procfs_step gen e u S_Get = step_get e u"
| "server_procfs_step gen e u (S_Gen c) = step_gen gen c u"
| "server_procfs_step gen e u (S_Unget c) = step_unget S_Report c u"
| "server_procfs_step gen e u S_Report = enter_call (Proc_Write (PW_Down 10 (u_buffer u))) S_Reported u"
| "server_procfs_step gen e u (S_Reported i) = (case k_threads (u_sys u) ! i of
     Proc_Write (PW_Ret r) \<Rightarrow> Go (u\<lparr>u_pc := S_Loop\<rparr>) | _ \<Rightarrow> Block)"
| "server_procfs_step gen e u _ = Block"

text \<open>\<open>server_ioctl_callback\<close>: one ioctl both reports the last job and waits for the next.\<close>

fun server_ioctl_callback_step :: "gen_syndrome \<Rightarrow> uenv \<Rightarrow> usys \<Rightarrow> server_pc \<Rightarrow> usys outcome" where
  "server_ioctl_callback_step gen e u S_Loop =
     (if keep_going (u_daemon u) then enter_call (Ioctl (IO_Strcpy ''flag'')) S_Call u else Go (u\<lparr>u_pc := S_Ret 0\<rparr>))"
| "server_ioctl_callback_step gen e u (S_Call i) = (case k_threads (u_sys u) ! i of
     Ioctl (IO_Ret r out) \<Rightarrow> Go (u\<lparr>u_pc := S_Get\<rparr>) | _ \<Rightarrow> Block)"
| "server_ioctl_callback_step gen e u S_Get = step_get e u"
| "server_ioctl_callback_step gen e u (S_Gen c) = step_gen gen c u"
| "server_ioctl_callback_step gen e u (S_Unget c) = step_unget S_Loop c u"
| "server_ioctl_callback_step gen e u _ = Block"

text \<open>\<open>server_netlink\<close>: \<open>u_read\<close> counts the packets already received from the module.\<close>

definition nl_init :: "usys \<Rightarrow> (msghdr \<times> skb) option" where
  "nl_init u = do {
     msg \<leftarrow> add_payload (u_server u) init_string;
     packet \<leftarrow> sendmsg msg;
     Some (msg, packet) }"

definition nl_receive :: "usys \<Rightarrow> u64 \<Rightarrow> (msghdr \<times> u8 list) option" where
  "nl_receive u a = do {
     msg \<leftarrow> recvmsg (u_client u) (bytes_of_word a);
     buffer \<leftarrow> get_payload msg (u_payload u);
     Some (msg, buffer) }"

definition nl_reply :: "usys \<Rightarrow> (msghdr \<times> skb) option" where
  "nl_reply u = do {
     msg \<leftarrow> add_payload (u_server u) (u_payload u);
     packet \<leftarrow> sendmsg msg;
     Some (msg, packet) }"

fun server_netlink_step :: "gen_syndrome \<Rightarrow> uenv \<Rightarrow> usys \<Rightarrow> server_pc \<Rightarrow> usys outcome" where
  "server_netlink_step gen e u S_Loop =
     (if keep_going (u_daemon u) then
        obind (or_fault (nl_init u)) (\<lambda>(msg, packet).
        enter_call (Nl_Ready (ND_Wait packet)) S_Call (u\<lparr>u_server := msg\<rparr>))
      else obind (or_fault (do {
        s \<leftarrow> destroy_message_container (u_server u);
        c \<leftarrow> destroy_message_container (u_client u);
        Some (u\<lparr>u_server := s, u_client := c, u_pc := S_Ret 0\<rparr>) })) Go)"
| "server_netlink_step gen e u (S_Call i) = (case k_threads (u_sys u) ! i of
     Nl_Ready ND_Ret \<Rightarrow> Go (u\<lparr>u_pc := S_Recv\<rparr>) | _ \<Rightarrow> Block)"
| "server_netlink_step gen e u S_Recv =
     (if u_read u < length (nl_sent (k_state (u_sys u))) then
        obind (or_fault (nl_receive u (snd (nl_sent (k_state (u_sys u)) ! u_read u)))) (\<lambda>(msg, buffer).
        Go (u\<lparr>u_client := msg, u_payload := buffer, u_read := u_read u + 1, u_pc := S_Get\<rparr>))
      else Block)"
| "server_netlink_step gen e u S_Get = step_get e u"
| "server_netlink_step gen e u (S_Gen c) = step_gen gen c u"
| "server_netlink_step gen e u (S_Unget c) = step_unget S_Report c u"
| "server_netlink_step gen e u S_Report =
     obind (or_fault (nl_reply u)) (\<lambda>(msg, packet).
     enter_call (Nl_Ready (ND_Wait packet)) S_Reported (u\<lparr>u_server := msg\<rparr>))"
| "server_netlink_step gen e u (S_Reported i) = (case k_threads (u_sys u) ! i of
     Nl_Ready ND_Ret \<Rightarrow> Go (u\<lparr>u_pc := S_Loop\<rparr>) | _ \<Rightarrow> Block)"
| "server_netlink_step gen e u _ = Block"

text \<open>The whole system: a step of the module, a step of the server, a signal.\<close>

datatype uevent = U_Kernel event | U_Server | U_Signal bool int

fun ustep :: "(usys \<Rightarrow> server_pc \<Rightarrow> usys outcome) \<Rightarrow> uevent \<Rightarrow> usys \<Rightarrow> usys outcome" where
  "ustep server (U_Kernel ev) u = obind (kevent ev (u_sys u)) (\<lambda>k. Go (u\<lparr>u_sys := k\<rparr>))"
| "ustep server U_Server u = server u (u_pc u)"
| "ustep server (U_Signal ok signum) u = obind (or_fault (alarm_handler ok signum (u_daemon u))) (\<lambda>d.
     Go (u\<lparr>u_daemon := kill_handler signum d\<rparr>))"

fun usteps :: "(usys \<Rightarrow> server_pc \<Rightarrow> usys outcome) \<Rightarrow> uevent list \<Rightarrow> usys \<Rightarrow> usys outcome" where
  "usteps server [] u = Go u"
| "usteps server (ev # evs) u = obind (ustep server ev u) (usteps server evs)"

section \<open>Start-up\<close>

text \<open>What \<open>userspace_driver_main\<close> touches: the pid file \<open>/tmp/baracuda_pid\<close>, the module, the signals
  that are caught, the device and the array of disk pointers. \<open>drv_env\<close> has the process id and the
  results of the calls to \<open>fopen\<close> and \<open>open\<close>; \<open>SIGKILL\<close> cannot be caught, \<open>signal\<close> refuses it.\<close>

record world =
  w_pidfile :: "nat option"
  w_kernel :: kstate
  w_signals :: "int list"
  w_fd :: bool
  w_dptrs :: bool

record drv_env =
  drv_pid :: nat
  pidfile_ok :: bool
  conf_pid_ok :: bool
  conf_con_ok :: bool
  dev_ok :: bool

text \<open>\<open>fwrite\<close> and \<open>fclose\<close> on \<open>/proc/barracuda/conf\<close>: one write of the string.\<close>

definition write_conf :: "string \<Rightarrow> world \<Rightarrow> world outcome" where
  "write_conf str w = obind (conf_write True str (length str) (w_kernel w)) (\<lambda>(r, s). Go (w\<lparr>w_kernel := s\<rparr>))"

definition connection_string :: "int \<Rightarrow> string option" where
  "connection_string c_mode =
     (if c_mode = 1 then Some ''con=NL'' else if c_mode = 2 then Some ''con=IOCTL''
      else if c_mode = 3 then Some ''con=PROCFS'' else None)"

text \<open>Up to the call of the server: \<open>None\<close> goes on, \<open>Some r\<close> is an early return.\<close>

definition driver_startup :: "drv_env \<Rightarrow> int \<Rightarrow> world \<Rightarrow> (int option \<times> world) outcome" where
  "driver_startup e c_mode w =
     (let w = w\<lparr>w_dptrs := True\<rparr> in
      if w_pidfile w \<noteq> None then Go (Some EXIT_FAILURE, w)
      else if \<not> pidfile_ok e then Go (Some EXIT_FAILURE, w)
      else let w = w\<lparr>w_pidfile := Some (drv_pid e)\<rparr> in
      if \<not> conf_pid_ok e then Go (Some EXIT_FAILURE, w)
      else obind (write_conf (''pid='' @ decimal (drv_pid e)) w) (\<lambda>w.
      if \<not> conf_con_ok e then Go (Some EXIT_FAILURE, w)
      else case connection_string c_mode of
        None \<Rightarrow> Go (Some EXIT_FAILURE, w)
      | Some str \<Rightarrow> obind (write_conf str w) (\<lambda>w.
          let w = w\<lparr>w_signals := [SIGALRM, SIGTERM]\<rparr> in
          if \<not> dev_ok e then Go (Some (- 1), w)
          else Go (None, w\<lparr>w_fd := True\<rparr>))))"

definition driver_cleanup :: "world \<Rightarrow> world" where
  "driver_cleanup w = w\<lparr>w_fd := False, w_pidfile := None, w_dptrs := False\<rparr>"

text \<open>\<open>server\<close> is the chosen server, run until it returns.\<close>

definition userspace_driver_main ::
    "drv_env \<Rightarrow> int \<Rightarrow> (int \<Rightarrow> world \<Rightarrow> world outcome) \<Rightarrow> world \<Rightarrow> (int \<times> world) outcome" where
  "userspace_driver_main e c_mode server w =
     obind (driver_startup e c_mode w) (\<lambda>(r, w).
     case r of Some r \<Rightarrow> Go (r, w)
     | None \<Rightarrow> obind (server c_mode w) (\<lambda>w. Go (0, driver_cleanup w)))"

section \<open>Lemmas\<close>

lemma usteps_append: "usteps server (xs @ ys) u = obind (usteps server xs u) (usteps server ys)"
proof (induction xs arbitrary: u)
  case (Cons x xs)
  then show ?case by (cases "ustep server x u") simp_all
qed simp

lemma obind_Go: "obind x f = Go y \<longleftrightarrow> (\<exists>z. x = Go z \<and> f z = Go y)"
  by (cases x) simp_all

lemma or_fault_Go: "or_fault x = Go y \<longleftrightarrow> x = Some y"
  by (cases x) simp_all

text \<open>What the three servers have in common: between the notification and the report they get the
  container, run the encoder on it and give it back. These three steps are \<open>serve_block\<close>.\<close>

locale request_server =
  fixes server :: "usys \<Rightarrow> server_pc \<Rightarrow> usys outcome" and generator :: gen_syndrome and ue :: uenv and report :: server_pc
  assumes at_get: "server u S_Get = step_get ue u"
    and at_gen: "server u (S_Gen c) = step_gen generator c u"
    and at_unget: "server u (S_Unget c) = step_unget report c u"
begin

lemma serve_steps:
  assumes "serve_block generator ue (u_daemon u) (k_state (u_sys u)) = Go (d', s')" "u_pc u = S_Get"
  shows "usteps server (replicate 3 U_Server) u = Go (set_state s' u\<lparr>u_daemon := d', u_pc := report\<rparr>)"
proof -
  obtain c d1 s1 m where 1: "get_act_syndrome_block ue (u_daemon u) (k_state (u_sys u)) = Go (Some c, d1, s1)"
    and 2: "generator (sc_disks c) (sc_bytes c) (sc_ptrs c) (k_mem s1) = Some m"
    and 3: "unget_act_syndrome_block c d1 (s1\<lparr>k_mem := m\<rparr>) = Go d'" "s' = s1\<lparr>k_mem := m\<rparr>"
    using assms(1) by (auto simp: serve_block_def obind_Go or_fault_Go Let_def)
  show ?thesis
    using 1 2 3 assms(2)
    by (simp add: eval_nat_numeral at_get at_gen at_unget step_get_def step_gen_def step_unget_def set_state_def)
qed

text \<open>On a published request with an encoder of the contract they leave the stripe encoded and the
  container's pointer array in place, so that the caller can free it.\<close>

lemma serves_request:
  assumes enc: "raid6_encoder generator need ok" "mappable ue ps bytes" "u_malloc ue"
    and r: "request_ok (u_daemon u) (k_state (u_sys u)) ps bytes" "actual_snc (k_state (u_sys u)) = Some snc" "u_pc u = S_Get"
    and ps: "distinct ps" "3 \<le> length ps" "ok bytes"
      "\<forall>p \<in> set ps. case bytes_at (k_mem (k_state (u_sys u))) p of None \<Rightarrow> False | Some bs \<Rightarrow> need bytes \<le> length bs"
  shows "\<exists>m'. usteps server (replicate 3 U_Server) u =
      Go (set_state ((k_state (u_sys u))\<lparr>k_mem := m'\<rparr>) u\<lparr>u_daemon := (u_daemon u)\<lparr>smc_flag := True\<rparr>, u_pc := report\<rparr>) \<and>
    m' (sc_ptrs snc) = Some (Ptrs ps) \<and> sc_ptrs snc \<noteq> null \<and>
    (\<forall>j < bytes. column (m'(sc_ptrs snc := None)) ps (length ps) j =
       codeword (column (k_mem (k_state (u_sys u))) ps (length ps - 2) j)) \<and>
    (\<forall>p. p \<notin> {ps ! (length ps - 2), ps ! (length ps - 1), global_dptrs (u_daemon u)} \<longrightarrow>
       m' p = k_mem (k_state (u_sys u)) p)"
proof -
  let ?s = "k_state (u_sys u)" and ?d = "u_daemon u"
  have arr: "ptrs_at (k_mem ?s) (sc_ptrs snc) = Some ps" "sc_ptrs snc \<noteq> global_dptrs ?d"
    using request_okE [OF r(1)] r(2) by (metis option.inject)+
  obtain s' where s': "serve_block generator ue ?d ?s = Go (?d\<lparr>smc_flag := True\<rparr>, s')" "request_served ?d ?s ps bytes s'"
    using raid6_generator.serve_block_ok [OF raid6_encoder_generator [OF enc(1)] enc(2,3) r(1) ps] by blast
  obtain m' where m': "s' = ?s\<lparr>k_mem := m'\<rparr>" using s'(2) by (auto simp: request_served_def)
  have live: "bytes_at (k_mem ?s) p \<noteq> None" if "p \<in> set ps" for p using ps(4) that by (auto split: option.splits)
  have notdisk: "sc_ptrs snc \<noteq> ps ! z" if "z < length ps" for z
    using live [OF nth_mem [OF that]] ptrs_at_not_bytes [OF arr(1)] by auto
  have arr': "m' (sc_ptrs snc) = Some (Ptrs ps)" "sc_ptrs snc \<noteq> null"
    using s'(2) m' arr(2) ptrs_at_nonnull [OF arr(1)] notdisk [of "length ps - 2"] notdisk [of "length ps - 1"] ps(2)
    unfolding request_served_def by auto
  have "buf (m'(sc_ptrs snc := None)) (ps ! z) = buf m' (ps ! z)" if "z < length ps" for z
    using notdisk [OF that] by (simp add: buf_def bytes_at_def obj_at_def)
  then have "column (m'(sc_ptrs snc := None)) ps (length ps) j = column m' ps (length ps) j" for j
    by (intro column_cong)
  then show ?thesis
    using serve_steps [OF s'(1) r(3)] s'(2) m' arr' unfolding request_served_def by (intro exI [of _ m']) auto
qed

end

interpretation procfs_server: request_server "server_procfs_step gen e" gen e S_Report for gen e
  by unfold_locales simp_all

interpretation ioctl_server: request_server "server_ioctl_callback_step gen e" gen e S_Loop for gen e
  by unfold_locales simp_all

interpretation netlink_server: request_server "server_netlink_step gen e" gen e S_Report for gen e
  by unfold_locales simp_all

section \<open>Properties\<close>

definition transport :: "int \<Rightarrow> usp" where
  "transport c_mode = (if c_mode = 1 then call_usp_nl else if c_mode = 2 then call_usp_ioctl else call_usp_proc)"

definition drv_ok :: "drv_env \<Rightarrow> bool" where
  "drv_ok e \<longleftrightarrow> pidfile_ok e \<and> conf_pid_ok e \<and> conf_con_ok e \<and> dev_ok e \<and> 0 < drv_pid e \<and> drv_pid e < 2 ^ 31"

text \<open>The first start of a daemon on a started module.\<close>

definition fresh :: "world \<Rightarrow> bool" where
  "fresh w \<longleftrightarrow> w_pidfile w = None \<and> conf_mutex (w_kernel w) = 1 \<and> configured (w_kernel w) = 0 \<and> PID (w_kernel w) = 0"

lemma write_pid:
  assumes "conf_mutex (w_kernel w) = 1" "configured (w_kernel w) = 0" "PID (w_kernel w) = 0" "n < 2 ^ 32"
  shows "write_conf (''pid='' @ decimal n) w = Go (w\<lparr>w_kernel := (w_kernel w)\<lparr>PID := of_nat n\<rparr>\<rparr>)"
proof -
  have "length (''pid='' @ decimal n) = 4 + length (decimal n)" by simp
  then show ?thesis unfolding write_conf_def using conf_pid [OF assms] by (simp only: obind.simps prod.case)
qed

lemma write_con:
  assumes "conf_mutex (w_kernel w) = 1" "configured (w_kernel w) = 0" "PID (w_kernel w) \<noteq> 0"
    and "connection_string c_mode = Some str"
  shows "write_conf str w = Go (w\<lparr>w_kernel := choose_connection (transport c_mode) (w_kernel w)\<rparr>)"
proof -
  obtain name where str: "str = ''con='' @ name"
    "(name, transport c_mode) \<in> {(''NL'', call_usp_nl), (''PROCFS'', call_usp_proc), (''IOCTL'', call_usp_ioctl)}"
    using assms(4) by (auto simp: connection_string_def transport_def split: if_splits)
  have "length (''con='' @ name) = 4 + length name" by simp
  then show ?thesis
    unfolding write_conf_def str(1) using conf_connect [OF assms(1-3) str(2)] by (simp only: obind.simps prod.case)
qed

lemma startup_configures:
  assumes "fresh w" "drv_ok e"
  shows "\<exists>r w'. driver_startup e c_mode w = Go (r, w') \<and> w_pidfile w' = Some (drv_pid e) \<and>
    PID (w_kernel w') = of_nat (drv_pid e) \<and>
    (c_mode \<in> {1, 2, 3} \<longrightarrow> r = None \<and> w_fd w' \<and> configured (w_kernel w') = 1 \<and>
       call_usp (w_kernel w') = Some (transport c_mode) \<and>
       gen_syndrome_mutex (w_kernel w') = gen_syndrome_mutex (w_kernel w) + 1 \<and> conf_mutex (w_kernel w') = 1) \<and>
    (c_mode \<notin> {1, 2, 3} \<longrightarrow> r = Some EXIT_FAILURE \<and> configured (w_kernel w') = 0)"
proof -
  have e: "0 < drv_pid e" "drv_pid e < 2 ^ 32" using assms(2) by (simp_all add: drv_ok_def)
  have nz: "(of_nat (drv_pid e) :: u32) \<noteq> 0" using e by (simp add: word_of_nat_eq_0_iff nat_dvd_not_less)
  let ?w = "w\<lparr>w_dptrs := True, w_pidfile := Some (drv_pid e)\<rparr>"
  let ?v = "?w\<lparr>w_kernel := (w_kernel w)\<lparr>PID := of_nat (drv_pid e)\<rparr>\<rparr>"
  have pid: "write_conf (''pid='' @ decimal (drv_pid e)) ?w = Go ?v"
    using write_pid [of ?w "drv_pid e"] assms(1) e(2) by (simp add: fresh_def)
  have con: "write_conf str ?v = Go (?v\<lparr>w_kernel := choose_connection (transport c_mode) (w_kernel ?v)\<rparr>)"
    if "connection_string c_mode = Some str" for str
    by (rule write_con) (use assms(1) nz that in \<open>simp_all add: fresh_def\<close>)
  have start: "driver_startup e c_mode w = (case connection_string c_mode of None \<Rightarrow> Go (Some EXIT_FAILURE, ?v)
      | Some str \<Rightarrow> Go (None, ?v\<lparr>w_kernel := choose_connection (transport c_mode) (w_kernel ?v),
          w_signals := [SIGALRM, SIGTERM], w_fd := True\<rparr>))"
    using assms con pid by (auto simp: driver_startup_def Let_def drv_ok_def fresh_def split: option.splits)
  have "c_mode \<in> {1, 2, 3} \<longleftrightarrow> connection_string c_mode \<noteq> None" by (simp add: connection_string_def)
  then show ?thesis
    unfolding start using assms(1)
    by (cases "connection_string c_mode") (auto simp: fresh_def choose_connection_def)
qed

text \<open>The first start of the daemon on a started module: with a connection mode of 1, 2 or 3 it
  stores its process id in the pid file and in the module, selects the transport, releases the
  syndrome function and is ready to serve; any other mode is refused, but only after the pid
  file has been written and the module told the process id, and neither is undone.\<close>

theorem driver_startup_configures:
  assumes "fresh w" "drv_ok e"
  shows "\<exists>r w'. driver_startup e c_mode w = Go (r, w') \<and> w_pidfile w' = Some (drv_pid e) \<and>
    PID (w_kernel w') = of_nat (drv_pid e) \<and>
    (c_mode \<in> {1, 2, 3} \<longrightarrow> r = None \<and> w_fd w' \<and> configured (w_kernel w') = 1 \<and>
       call_usp (w_kernel w') = Some (transport c_mode) \<and>
       gen_syndrome_mutex (w_kernel w') = gen_syndrome_mutex (w_kernel w) + 1 \<and> conf_mutex (w_kernel w') = 1) \<and>
    (c_mode \<notin> {1, 2, 3} \<longrightarrow> r = Some EXIT_FAILURE \<and> configured (w_kernel w') = 0)"
  by (rule startup_configures [OF assms])

definition sample_world :: world where
  "sample_world = \<lparr>w_pidfile = None, w_kernel = sample_started, w_signals = [], w_fd = False, w_dptrs = False\<rparr>"

definition sample_drv :: drv_env where
  "sample_drv = \<lparr>drv_pid = 4711, pidfile_ok = True, conf_pid_ok = True, conf_con_ok = True, dev_ok = True\<rparr>"

lemma sample_world_fresh: "fresh sample_world" "drv_ok sample_drv"
  by (simp_all add: fresh_def sample_world_def sample_started_def module_init_def drv_ok_def sample_drv_def)

theorem driver_startup_configures_witness:
  "(\<exists>w'. driver_startup sample_drv 2 sample_world = Go (None, w') \<and> call_usp (w_kernel w') = Some call_usp_ioctl) \<and>
   (\<exists>w'. driver_startup sample_drv 0 sample_world = Go (Some EXIT_FAILURE, w') \<and> w_pidfile w' = Some 4711)"
  using driver_startup_configures [OF sample_world_fresh, of 2] driver_startup_configures [OF sample_world_fresh, of 0]
  by (auto simp: transport_def sample_drv_def)

text \<open>A daemon that has stopped cannot be replaced while the module stays loaded: on a module that is
  already configured the first write of the new daemon leaves the configuration locked, and its
  second write, and with it the start-up, blocks forever. A pid file left behind stops a start
  before the module is touched.\<close>

theorem driver_restart_blocks:
  assumes "conf_mutex (w_kernel w) = 1" "configured (w_kernel w) = 1" "drv_ok e" "c_mode \<in> {1, 2, 3}"
  shows "(w_pidfile w = None \<longrightarrow> driver_startup e c_mode w = Block) \<and>
    (\<forall>p. w_pidfile w = Some p \<longrightarrow> driver_startup e c_mode w = Go (Some EXIT_FAILURE, w\<lparr>w_dptrs := True\<rparr>))"
proof -
  let ?w = "w\<lparr>w_dptrs := True, w_pidfile := Some (drv_pid e)\<rparr>"
  let ?v = "?w\<lparr>w_kernel := (w_kernel w)\<lparr>conf_mutex := 0\<rparr>\<rparr>"
  have first: "write_conf str ?w = Go ?v" for str
    using assms(1,2) by (simp add: write_conf_def conf_write_def Let_def)
  have second: "write_conf str v = Block" if "conf_mutex (w_kernel v) = 0" for str v
    using that by (simp add: write_conf_def conf_write_def)
  obtain str where "connection_string c_mode = Some str" using assms(4) by (auto simp: connection_string_def)
  then have "driver_startup e c_mode w = Block" if "w_pidfile w = None"
    using assms(3) that first second [of ?v str] by (simp add: driver_startup_def Let_def drv_ok_def)
  then show ?thesis by (auto simp: driver_startup_def)
qed

theorem driver_restart_blocks_witness:
  "driver_startup sample_drv 3 (sample_world\<lparr>w_kernel := sample_started\<lparr>configured := 1\<rparr>\<rparr>) = Block"
  using driver_restart_blocks [of "sample_world\<lparr>w_kernel := sample_started\<lparr>configured := 1\<rparr>\<rparr>" sample_drv 3]
    sample_world_fresh(2)
  by (simp add: sample_world_def sample_started_def module_init_def)

lemma string_padding: "takeWhile (\<lambda>b. b \<noteq> (0 :: u8)) (xs @ replicate n 0) = takeWhile (\<lambda>b. b \<noteq> 0) xs"
proof (induction xs)
  case Nil
  show ?case by (cases n) simp_all
qed simp

lemma c_strcpy_eq:
  "takeWhile (\<lambda>b. b \<noteq> 0) src = x \<Longrightarrow> length x < length src \<Longrightarrow> length x < length dst \<Longrightarrow>
   c_strcpy dst src = Some (overwrite dst 0 (x @ [0]))"
  by (simp add: c_strcpy_def)

lemma string_address:
  assumes "byte_of a 7 \<noteq> 0" "8 \<le> length S" "S ! 7 = 0" "x = takeWhile (\<lambda>b. b \<noteq> 0) (bytes_of_word a)"
  shows "word_of_bytes (take 8 (overwrite S 0 (x @ [0]))) = a \<longleftrightarrow> 0 \<notin> set (bytes_of_word a)"
proof (cases "0 \<in> set (bytes_of_word a)")
  case False
  then have "x = bytes_of_word a" unfolding assms(4) by (auto simp: takeWhile_eq_all_conv)
  then show ?thesis using False by (simp add: overwrite_def)
next
  case True
  let ?l = "take 8 (overwrite S 0 (x @ [0]))"
  have "takeWhile (\<lambda>b. b \<noteq> 0) (bytes_of_word a) \<noteq> bytes_of_word a" using True by (auto simp: takeWhile_eq_all_conv)
  then have "length x < length (bytes_of_word a)"
    unfolding assms(4) by (metis length_takeWhile_le le_neq_implies_less takeWhile_eq_take take_all_iff le_refl)
  then have len: "length x < 8" "bytes_of_word a ! length x = 0"
    using nth_length_takeWhile [of "\<lambda>b. b \<noteq> 0" "bytes_of_word a"] unfolding assms(4) by auto
  then have "length x \<noteq> 7" using assms(1) nth_bytes_of_word [of 7 a] by auto
  then have "?l ! 7 = 0" "length ?l = 8" using len(1) assms(2,3) by (simp_all add: overwrite_def nth_append)
  then have "byte_of (word_of_bytes ?l) 7 = 0" by (simp add: byte_of_word_of_bytes)
  then show ?thesis using True assms(1) by auto
qed

text \<open>The packets of a request: the daemon's first message, the module's notification, the reply.\<close>

lemma netlink_packets:
  assumes "byte_of a 7 \<noteq> 0" "length S = 1024" "S ! 7 = 0" "length B = 1024" "snc_addr s = a"
    and "u_server u = (gen_message_container pid)\<lparr>msg_iov := Some (nlh\<lparr>nlmsg_data := S, nlmsg_pid := pid\<rparr>)\<rparr>"
    and "u_client u = gen_message_container pid" "u_payload u = B"
  shows "\<exists>s0 k0 c1 b1 s2 packet. nl_init u = Some (s0, k0) \<and> skb_pid k0 = pid \<and> nl_receive u a = Some (c1, b1) \<and>
    nl_reply (u\<lparr>u_server := s0, u_client := c1, u_payload := b1\<rparr>) = Some (s2, packet) \<and> skb_pid packet = pid \<and>
    (skb_data packet = a \<longleftrightarrow> 0 \<notin> set (bytes_of_word a)) \<and>
    call_usp_nl_step e snc s (CN_Check packet) =
      Go (s, if 0 \<in> set (bytes_of_word a) then CN_Ret (- EFAULT) else CN_Up)"
proof -
  let ?x = "takeWhile (\<lambda>b. b \<noteq> 0) (bytes_of_word a)"
  let ?S1 = "overwrite S 0 init_string" and ?B = "overwrite B 0 (?x @ [0])"
  let ?S2 = "overwrite ?S1 0 (?x @ [0])"
  let ?msg = "\<lambda>D. (gen_message_container pid)\<lparr>msg_iov := Some (nlh\<lparr>nlmsg_data := D, nlmsg_pid := pid\<rparr>)\<rparr>"
  have l: "length (bytes_of_word a) = 8" by simp
  have x: "length ?x \<le> 8" using length_takeWhile_le [of _ "bytes_of_word a"] l by metis
  have i: "c_strcpy S init_string = Some ?S1" using assms(2) by (simp add: c_strcpy_def init_string_def)
  have c: "overwrite (replicate 1024 0) 0 (bytes_of_word a) = bytes_of_word a @ replicate 1016 0"
    by (simp add: overwrite_def)
  have r: "c_strcpy B (bytes_of_word a @ replicate 1016 0) = Some ?B"
  proof (rule c_strcpy_eq [OF string_padding])
    show "length ?x < length (bytes_of_word a @ replicate 1016 0)" unfolding length_append length_replicate l using x by linarith
    show "length ?x < length B" using x assms(4) by linarith
  qed
  have B: "takeWhile (\<lambda>b. b \<noteq> 0) ?B = ?x"
    by (simp add: overwrite_def) (subst takeWhile_append2, auto dest: set_takeWhileD)
  have "length ?S1 = 1024" "length ?B = 1024" using x assms(2,4) by (simp_all add: init_string_def)
  then have t: "c_strcpy ?S1 ?B = Some ?S2" using x by (intro c_strcpy_eq [OF B]) simp_all
  have runs: "nl_init u = Some (?msg ?S1, \<lparr>skb_pid = pid, skb_data = word_of_bytes (take 8 ?S1)\<rparr>)"
    "nl_receive u a = Some ((gen_message_container pid)\<lparr>msg_iov := Some ((the (msg_iov (gen_message_container pid)))
       \<lparr>nlmsg_data := bytes_of_word a @ replicate 1016 0\<rparr>)\<rparr>, ?B)"
    "nl_reply (u\<lparr>u_server := ?msg ?S1, u_client := c1, u_payload := ?B\<rparr>) =
       Some (?msg ?S2, \<lparr>skb_pid = pid, skb_data = word_of_bytes (take 8 ?S2)\<rparr>)" for c1
    using i r t c assms(6-8)
    by (simp_all add: nl_init_def nl_receive_def nl_reply_def add_payload_def sendmsg_def recvmsg_def get_payload_def
        gen_message_container_def MAX_PAYLOAD_def)
  have "word_of_bytes (take 8 ?S2) = a \<longleftrightarrow> 0 \<notin> set (bytes_of_word a)"
    by (rule string_address [OF assms(1) _ _ refl]) (use assms(2,3) in \<open>simp_all add: nth_overwrite init_string_def\<close>)
  then show ?thesis using runs assms(5) by auto
qed

text \<open>The address comes back over netlink only if it has no zero byte: the daemon handles it as a
  string. For an address whose top byte is not zero, as those of the kernel are, and a packet
  whose eighth byte is still clear, the reply is the address exactly when none of its bytes is
  zero; otherwise the module's check fails and the caller returns with \<open>-EFAULT\<close>, its lock held.\<close>

theorem netlink_reply_address:
  assumes "byte_of a 7 \<noteq> 0" "length S = 1024" "S ! 7 = 0" "length B = 1024" "snc_addr s = a"
    and "u_server u = (gen_message_container pid)\<lparr>msg_iov := Some (nlh\<lparr>nlmsg_data := S, nlmsg_pid := pid\<rparr>)\<rparr>"
    and "u_client u = gen_message_container pid" "u_payload u = B"
  shows "\<exists>s0 k0 c1 b1 s2 packet. nl_init u = Some (s0, k0) \<and> nl_receive u a = Some (c1, b1) \<and>
    nl_reply (u\<lparr>u_server := s0, u_client := c1, u_payload := b1\<rparr>) = Some (s2, packet) \<and> skb_pid packet = pid \<and>
    (skb_data packet = a \<longleftrightarrow> 0 \<notin> set (bytes_of_word a)) \<and>
    call_usp_nl_step e snc s (CN_Check packet) =
      Go (s, if 0 \<in> set (bytes_of_word a) then CN_Ret (- EFAULT) else CN_Up)"
  using netlink_packets [OF assms, of e snc] by blast

definition sample_msg :: "u8 list \<Rightarrow> msghdr" where
  "sample_msg data = (gen_message_container 7)\<lparr>msg_iov := Some
     (\<lparr>nlmsg_len = 1040, nlmsg_pid = 7, nlmsg_flags = 9, nlmsg_type = 0x11, nlmsg_data = []\<rparr>
      \<lparr>nlmsg_data := data, nlmsg_pid := 7\<rparr>)\<rparr>"

definition sample_usys :: usys where
  "sample_usys = \<lparr>u_sys = submitted, u_daemon = sample_daemon, u_buffer = 0, u_payload = replicate 1024 3,
     u_server = sample_msg (replicate 1024 0), u_client = gen_message_container 7, u_read = 0, u_pc = S_Loop\<rparr>"

theorem netlink_reply_address_witness:
  "\<exists>s0 k0 c1 b1 s2 packet. nl_init sample_usys = Some (s0, k0) \<and>
    nl_receive sample_usys 0xffff880012345600 = Some (c1, b1) \<and>
    nl_reply (sample_usys\<lparr>u_server := s0, u_client := c1, u_payload := b1\<rparr>) = Some (s2, packet) \<and>
    skb_data packet \<noteq> 0xffff880012345600"
proof -
  let ?a = "0xffff880012345600 :: u64" and ?s = "sample_started\<lparr>snc_addr := 0xffff880012345600\<rparr>"
  let ?h = "\<lparr>nlmsg_len = 1040, nlmsg_pid = 7, nlmsg_flags = 9, nlmsg_type = 0x11, nlmsg_data = []\<rparr> :: nlmsghdr"
  let ?c = "\<lparr>sc_disks = 0, sc_bytes = 0, sc_ptrs = null\<rparr> :: syndrome_container"
  have z: "0 \<in> set (bytes_of_word ?a)" by code_simp
  have "replicate 1024 (0 :: u8) ! 7 = 0" by (rule nth_replicate) simp
  then have "\<exists>s0 k0 c1 b1 s2 packet. nl_init sample_usys = Some (s0, k0) \<and> nl_receive sample_usys ?a = Some (c1, b1) \<and>
    nl_reply (sample_usys\<lparr>u_server := s0, u_client := c1, u_payload := b1\<rparr>) = Some (s2, packet) \<and> skb_pid packet = 7 \<and>
    (skb_data packet = ?a \<longleftrightarrow> 0 \<notin> set (bytes_of_word ?a)) \<and>
    call_usp_nl_step calm ?c ?s (CN_Check packet) =
      Go (?s, if 0 \<in> set (bytes_of_word ?a) then CN_Ret (- EFAULT) else CN_Up)"
    by (intro netlink_reply_address [where S = "replicate 1024 0" and B = "replicate 1024 3" and nlh = ?h])
       (simp_all only: length_replicate, simp_all add: sample_usys_def sample_msg_def byte_of_def)
  then show ?thesis using z by blast
qed

section \<open>A request from end to end\<close>

text \<open>A caller waits over procfs, the daemon is at the head of its loop.\<close>

definition caller_waits :: "usys \<Rightarrow> nat \<Rightarrow> syndrome_container \<Rightarrow> bool" where
  "caller_waits u i snc \<longleftrightarrow> (let k = u_sys u; s = k_state k in
     i < length (k_threads k) \<and> k_threads k ! i = Gen (G_Proc snc CP_Wait) \<and> actual_snc s = Some snc \<and>
     procfs_wq_flag s = 0 \<and> proc_read_mutex s = 1 \<and> proc_write_mutex s = 1 \<and>
     u_pc u = S_Loop \<and> keep_going (u_daemon u))"

text \<open>The daemon reads, serves and reports; then the caller runs on.\<close>

definition round_trip :: "nat \<Rightarrow> nat \<Rightarrow> uevent list" where
  "round_trip n i = (U_Server # replicate 4 (U_Kernel (Run n calm)) @ [U_Server]) @ replicate 3 U_Server @
     (U_Server # replicate 4 (U_Kernel (Run (Suc n) calm)) @ [U_Server]) @ replicate 5 (U_Kernel (Run i calm))"

lemma read_phase:
  assumes "caller_waits u i snc" "n = length (k_threads (u_sys u))"
  shows "usteps (server_procfs_step gen e) (U_Server # replicate 4 (U_Kernel (Run n calm)) @ [U_Server]) u =
    Go (u\<lparr>u_sys := (u_sys u)\<lparr>k_threads := k_threads (u_sys u) @ [Proc_Read (PR_Ret 8 (snc_addr (k_state (u_sys u))))]\<rparr>,
          u_buffer := snc_addr (k_state (u_sys u)), u_pc := S_Get\<rparr>)"
  using assms
  by (cases "u_sys u")
     (simp add: caller_waits_def Let_def eval_nat_numeral enter_call_def calm_def wait_event_def nth_append)

lemma report_phase:
  assumes "u_pc u = S_Report" "u_buffer u = snc_addr (k_state (u_sys u))" "proc_write_mutex (k_state (u_sys u)) = 1"
    and "n = length (k_threads (u_sys u))"
  shows "usteps (server_procfs_step gen e) (U_Server # replicate 4 (U_Kernel (Run n calm)) @ [U_Server]) u =
    Go (u\<lparr>u_sys := \<lparr>k_state = (k_state (u_sys u))\<lparr>procfs_wq_flag := 2\<rparr>,
            k_threads = k_threads (u_sys u) @ [Proc_Write (PW_Ret 10)]\<rparr>, u_pc := S_Loop\<rparr>)"
proof -
  have ten: "size_to_int 10 = 10" using size_to_int_of_nat [of 10] by simp
  show ?thesis
    using assms ten
    by (cases "u_sys u") (simp add: eval_nat_numeral enter_call_def calm_def nth_append)
qed

lemma return_phase:
  assumes "i < length (k_threads (u_sys u))" "k_threads (u_sys u) ! i = Gen (G_Proc snc CP_Wait)"
    and "procfs_wq_flag (k_state (u_sys u)) = 2" "k_mem (k_state (u_sys u)) (sc_ptrs snc) = Some x" "sc_ptrs snc \<noteq> null"
  shows "\<exists>u'. usteps server (replicate 5 (U_Kernel (Run i calm))) u = Go u' \<and>
    k_threads (u_sys u') ! i = Gen G_Ret \<and> u_pc u' = u_pc u \<and> u_daemon u' = u_daemon u \<and>
    k_mem (k_state (u_sys u')) = (k_mem (k_state (u_sys u)))(sc_ptrs snc := None) \<and>
    gen_syndrome_mutex (k_state (u_sys u')) = gen_syndrome_mutex (k_state (u_sys u)) + 1"
  using assms
  by (simp add: eval_nat_numeral calm_def wait_event_def kill_smc_def c_free_def)


definition sample_end_to_end :: usys where
  "sample_end_to_end = sample_usys\<lparr>u_sys := \<lparr>k_state = sample_job\<lparr>procfs_wq_flag := 0\<rparr>,
     k_threads = [Gen (G_Proc \<lparr>sc_disks = 4, sc_bytes = 16, sc_ptrs = 1\<rparr> CP_Wait)]\<rparr>\<rparr>"


text \<open>C36. Shutting down an idle daemon over procfs: the alarm signal interrupts its wait for work, the
  module's read handler returns as if there were a job, and although the flag to stop is set the
  daemon first maps the disks of the last request, whose pointer array the module has freed: the
  module's own \<open>mmap\<close> handler dereferences it.\<close>

theorem shutdown_maps_freed_request:
  assumes "u_pc u = S_Loop" "keep_going (u_daemon u)" "smc_flag (u_daemon u)" "proc_read_mutex (k_state (u_sys u)) = 1"
    and "actual_snc (k_state (u_sys u)) = Some snc" "ptrs_at (k_mem (k_state (u_sys u))) (sc_ptrs snc) = None"
    and "1 \<le> sc_disks snc" "0 < sc_bytes snc" "sc_bytes snc \<le> 2 ^ 47" "n = length (k_threads (u_sys u))"
  shows "\<exists>u'. usteps (server_procfs_step gen e) [U_Server, U_Kernel (Run n calm), U_Kernel (Run n \<lparr>e_ok = True, e_signal = True\<rparr>),
      U_Kernel (Run n calm), U_Kernel (Run n calm), U_Signal True SIGALRM, U_Server] u = Go u' \<and>
    \<not> keep_going (u_daemon u') \<and> ustep (server_procfs_step gen e) U_Server u' = Fault"
proof -
  let ?s = "k_state (u_sys u)" and ?d = "(u_daemon u)\<lparr>keep_going := False\<rparr>"
  let ?u' = "u\<lparr>u_sys := (u_sys u)\<lparr>k_threads := k_threads (u_sys u) @ [Proc_Read (PR_Ret 8 (snc_addr ?s))]\<rparr>,
     u_buffer := snc_addr ?s, u_daemon := ?d, u_pc := S_Get\<rparr>"
  have alarm: "alarm_handler True SIGALRM (u_daemon u) = Some ?d"
    by (simp add: alarm_handler_def conf_read_def overwrite_def PAGE_SIZE_def)
  have run: "usteps (server_procfs_step gen e) [U_Server, U_Kernel (Run n calm), U_Kernel (Run n \<lparr>e_ok = True, e_signal = True\<rparr>),
      U_Kernel (Run n calm), U_Kernel (Run n calm), U_Signal True SIGALRM, U_Server] u = Go ?u'"
    using assms(1,2,4,10) alarm
    by (cases "u_sys u") (simp add: enter_call_def calm_def wait_event_def nth_append kill_handler_def)
  have pg: "unat (of_int 1 * getpagesize) div PAGE_SIZE = 1" using page_offset [of 1] by simp
  have "u_mmap e ?s (sc_bytes snc) (of_int 1 * getpagesize) = Fault"
    using assms(5,6,8,9) unfolding u_mmap_def pg by (simp add: Let_def mmap_mmap_def ptr_index_def)
  then have "map_disks e (sc_bytes snc) [1..sc_disks snc] ?d ?s = Fault"
    using assms(7) by (subst upto_rec1) simp_all
  then have "get_act_syndrome_block e ?d ?s = Fault"
    using assms(3,5) by (simp add: get_act_syndrome_block_def map_container_def Let_def)
  then show ?thesis using run by (intro exI [of _ ?u']) (simp add: step_get_def)
qed

definition sample_idle :: usys where
  "sample_idle = sample_usys\<lparr>u_daemon := sample_daemon\<lparr>smc_flag := True\<rparr>,
     u_sys := \<lparr>k_state = sample_job\<lparr>k_mem := (k_mem sample_job)(1 := None)\<rparr>, k_threads = []\<rparr>\<rparr>"

theorem shutdown_maps_freed_request_witness:
  "\<exists>u'. usteps (server_procfs_step raid6_vanilla_gen_syndrome sample_uenv) [U_Server, U_Kernel (Run 0 calm),
      U_Kernel (Run 0 \<lparr>e_ok = True, e_signal = True\<rparr>), U_Kernel (Run 0 calm), U_Kernel (Run 0 calm),
      U_Signal True SIGALRM, U_Server] sample_idle = Go u' \<and>
     ustep (server_procfs_step raid6_vanilla_gen_syndrome sample_uenv) U_Server u' = Fault"
  using shutdown_maps_freed_request [of sample_idle "\<lparr>sc_disks = 4, sc_bytes = 16, sc_ptrs = 1\<rparr>" 0
      raid6_vanilla_gen_syndrome sample_uenv]
  by (fastforce simp: sample_idle_def sample_usys_def sample_daemon_def sample_job_def module_init_def ptrs_at_def obj_at_def)

end
