(* ===== verification/Daemon_Main.thy ===== *)
theory Daemon_Main
  imports Host_Service User_Server
begin

text \<open>
  The program \<open>baracuda_deamon\<close>: its arguments and its modes (\<open>baracuda_deamon.cu\<close>), and the
  benchmark mode (\<open>benchmarker.cu\<close>, \<open>bench/gen_syndrome_test.cu\<close>).

  \<open>machine\<close> is what the program runs on: the file with the processors, the allocator, the result of
  \<open>clone\<close>, the clock in milliseconds, what the driver finds (\<open>drv_env\<close>), and \<open>cuda\<close>: the two encoders
  of a build with CUDA (the GPU version of \<open>multi_rs_gen_syndrome\<close>, and \<open>raid6_cuda_gen_syndrome\<close>),
  \<^term>\<open>None\<close> for a build with \<open>NOCUDA\<close>. \<open>server\<close> is the server of the driver, run until it returns. The
  benchmarks of CUDA primitives are recorded by name. Undefined behaviour is \<open>Fault\<close>; what the
  program prints is left out, except for the figures of a benchmark.
\<close>

record options =
  deamonize :: int
  mode :: int
  mode_type :: string
  benchmark :: int
  benchmark_type :: string
  validation :: int
  kill :: int
  c_mode :: int
  rs_mode :: int

definition no_options :: options where
  "no_options = \<lparr>deamonize = 0, mode = 0, mode_type = [], benchmark = 0, benchmark_type = [],
     validation = 0, kill = 0, c_mode = 0, rs_mode = 0\<rparr>"

section \<open>Arguments\<close>

text \<open>\<open>strcpy\<close> into \<open>char[10]\<close>, and \<open>argv[i]\<close> as an operand of \<open>strcmp\<close>: \<open>argv[argc]\<close> is null.\<close>

definition strcpy10 :: "string \<Rightarrow> string option" where
  "strcpy10 s = (if length s < 10 then Some s else None)"

definition arg_at :: "string list \<Rightarrow> nat \<Rightarrow> string option" where
  "arg_at argv i = (if i < length argv then Some (argv ! i) else None)"

definition rs_mode_of :: "string \<Rightarrow> int \<Rightarrow> int" where
  "rs_mode_of s r =
     (let r = (if s = ''SOFT'' then 0 else r);
          r = (if s = ''SMP'' then 1 else r);
          r = (if s = ''DUMMY'' then 2 else r);
          r = (if s = ''MULTI'' then 3 else r)
      in if s = ''CUDA'' then 4 else r)"

definition c_mode_of :: "string \<Rightarrow> int \<Rightarrow> int" where
  "c_mode_of s r =
     (let r = (if s = ''NL'' then 1 else r);
          r = (if s = ''IOCTL'' then 2 else r)
      in if s = ''PFS'' then 3 else r)"

text \<open>One pass of the loop over the arguments; \<open>Inl\<close> is a return from \<open>main\<close>.\<close>

definition parse_arg :: "string list \<Rightarrow> nat \<Rightarrow> options \<Rightarrow> (int + options) option" where
  "parse_arg argv i opts = do {
     arg \<leftarrow> arg_at argv i;
     if arg = ''-h'' \<or> arg = ''--help'' then Some (Inl EXIT_SUCCESS) else do {
     let opts = (if arg = ''-V'' then opts\<lparr>validation := 1\<rparr> else opts);
     opts \<leftarrow> (if arg = ''-m'' \<and> Suc i < length argv then do {
        mt \<leftarrow> strcpy10 (argv ! Suc i);
        Some (opts\<lparr>mode := 1, mode_type := mt, rs_mode := rs_mode_of (argv ! Suc i) (rs_mode opts)\<rparr>) }
      else Some opts);
     opts \<leftarrow> (if arg = ''-B'' \<and> Suc i < length argv then do {
        bt \<leftarrow> strcpy10 (argv ! Suc i);
        Some (opts\<lparr>benchmark := 1, benchmark_type := bt\<rparr>) }
      else Some opts);
     let opts = (if arg = ''-d'' then opts\<lparr>deamonize := 1\<rparr> else opts);
     let opts = (if arg = ''-k'' then opts\<lparr>kill := 1\<rparr> else opts);
     opts \<leftarrow> (if arg = ''-c'' then do {
        c \<leftarrow> arg_at argv (Suc i);
        Some (opts\<lparr>c_mode := c_mode_of c (c_mode opts)\<rparr>) }
      else Some opts);
     Some (Inr opts) } }"

fun parse_args :: "string list \<Rightarrow> nat list \<Rightarrow> options \<Rightarrow> (int + options) option" where
  "parse_args argv [] opts = Some (Inr opts)"
| "parse_args argv (i # is) opts = do {
     r \<leftarrow> parse_arg argv i opts;
     case r of Inl ret \<Rightarrow> Some (Inl ret) | Inr opts \<Rightarrow> parse_args argv is opts }"

section \<open>Implementations\<close>

record machine =
  cpu_file :: "string option"
  memory :: alloc
  cuda :: "(syndrome_func \<times> syndrome_func) option"
  mill :: "nat \<Rightarrow> u64"
  clone_ok :: bool
  driver :: drv_env

definition gen_syndrome_implementations :: "(syndrome_func \<times> syndrome_func) option \<Rightarrow> int \<Rightarrow> syndrome_func list" where
  "gen_syndrome_implementations gpu cpus =
     [raid6_vanilla_gen_syndrome, raid6_smp_gen_syndrome (nat (get_number_of_phys_cpus cpus)), raid6_dummy_gen_syndrome] @
     (case gpu of None \<Rightarrow> [multi_rs_gen_syndrome] | Some (multi, raid6) \<Rightarrow> [multi, raid6])"

definition implementation_names :: "(syndrome_func \<times> syndrome_func) option \<Rightarrow> string list" where
  "implementation_names gpu = [''SOFT'', ''SMP'', ''DUMMY'', ''MULTI''] @ (case gpu of None \<Rightarrow> [] | Some p \<Rightarrow> [''CUDA''])"

fun choose_loop :: "'g \<Rightarrow> string \<Rightarrow> (string \<times> 'g) list \<Rightarrow> 'g" where
  "choose_loop gen md [] = gen"
| "choose_loop gen md ((name, g) # rest) = (if md = name then g else choose_loop gen md rest)"

definition choose_implementation :: "'g list \<Rightarrow> string \<Rightarrow> string list \<Rightarrow> 'g" where
  "choose_implementation gen_syndrome_list md names = choose_loop (gen_syndrome_list ! 0) md (zip names gen_syndrome_list)"

section \<open>Benchmarks\<close>

definition PAGE_SIZE_DEF :: nat where
  "PAGE_SIZE_DEF = 2097152"

fun repeat_gen :: "nat \<Rightarrow> syndrome_func \<Rightarrow> int \<Rightarrow> nat \<Rightarrow> ptr \<Rightarrow> mem \<Rightarrow> mem option" where
  "repeat_gen 0 gen disks bytes dptrs m = Some m"
| "repeat_gen (Suc n) gen disks bytes dptrs m = do {
     m \<leftarrow> gen disks bytes dptrs m;
     repeat_gen n gen disks bytes dptrs m }"

text \<open>\<open>t\<close> and \<open>t'\<close> are the readings of \<open>mill\<close>, kept in 32 bits; a run of less than a millisecond is
  a division by zero.\<close>

definition compare_all_implementations_one_run ::
    "syndrome_func \<Rightarrow> int \<Rightarrow> ptr \<Rightarrow> u64 \<Rightarrow> u64 \<Rightarrow> mem \<Rightarrow> ((int \<times> u64) \<times> mem) option" where
  "compare_all_implementations_one_run local_gen_syndrome disks dptrs t t' m = do {
     m \<leftarrow> repeat_gen 1000 local_gen_syndrome disks PAGE_SIZE_DEF dptrs m;
     let t2 = (ucast t' :: u32) - ucast t;
     if t2 = 0 then None
     else Some ((disks, ucast ((of_nat (PAGE_SIZE_DEF * 1000) :: u32) div t2) * 1000), m) }"

fun compare_runs :: "syndrome_func \<Rightarrow> nat list \<Rightarrow> ptr \<Rightarrow> (nat \<Rightarrow> u64) \<Rightarrow> nat \<Rightarrow> mem \<Rightarrow> ((int \<times> u64) list \<times> mem) option" where
  "compare_runs gen [] dptrs clock k m = Some ([], m)"
| "compare_runs gen (j # js) dptrs clock k m = do {
     (r, m) \<leftarrow> compare_all_implementations_one_run gen (int j) dptrs (clock k) (clock (Suc k)) m;
     (rs, m) \<leftarrow> compare_runs gen js dptrs clock (k + 2) m;
     Some (r # rs, m) }"

definition compare_all_implementations ::
    "alloc \<Rightarrow> (nat \<Rightarrow> u64) \<Rightarrow> syndrome_func list \<Rightarrow> int \<Rightarrow> heap \<Rightarrow> ((int \<times> u64) list \<times> heap) option" where
  "compare_all_implementations e clock gens number h = do {
     gen \<leftarrow> (if 0 \<le> number \<and> nat number < length gens then Some (gens ! nat number) else None);
     (dptrs, h) \<leftarrow> allocate_host_example_dpointer e (int PAGE_SIZE_DEF) 66 h;
     (rs, m) \<leftarrow> compare_runs gen (concat (map (replicate 10) [5..<65])) dptrs clock 0 (h_mem h);
     m \<leftarrow> deallocate_host_example_dpointer 66 dptrs m;
     Some (rs, h\<lparr>h_mem := m\<rparr>) }"

record system =
  sys_world :: world
  sys_heap :: heap
  sys_commands :: "string list"
  sys_bench :: "(int \<times> u64) list"
  sys_daemon :: "(syndrome_func \<times> int) option"

definition baracuda_benchmarker :: "machine \<Rightarrow> string \<Rightarrow> syndrome_func list \<Rightarrow> int \<Rightarrow> system \<Rightarrow> system option" where
  "baracuda_benchmarker e type gens number s = do {
     s \<leftarrow> (if type = ''DRYRUN'' then do {
        (rs, h) \<leftarrow> compare_all_implementations (memory e) (mill e) gens number (sys_heap s);
        Some (s\<lparr>sys_bench := rs, sys_heap := h\<rparr>) }
      else Some s);
     if cuda e \<noteq> None \<and> type \<in> {''CUDA_XOR'', ''CUDA_SHIFT''}
     then Some (s\<lparr>sys_commands := sys_commands s @ [type]\<rparr>) else Some s }"

section \<open>The main program\<close>

text \<open>The \<open>-k\<close> mode: the process id comes from the pid file.\<close>

definition kill_daemon :: "system \<Rightarrow> int \<times> system" where
  "kill_daemon s = (case w_pidfile (sys_world s) of
     None \<Rightarrow> (EXIT_FAILURE, s)
   | Some pid \<Rightarrow> (EXIT_SUCCESS, s\<lparr>sys_commands := sys_commands s @ [''/bin/kill -SIGALRM '' @ decimal pid]\<rparr>))"

text \<open>The end of \<open>main\<close>: the driver in a process of its own, or in the foreground.\<close>

definition start_driver :: "machine \<Rightarrow> (syndrome_func \<Rightarrow> int \<Rightarrow> world \<Rightarrow> world outcome) \<Rightarrow> options \<Rightarrow>
    syndrome_func \<Rightarrow> system \<Rightarrow> (int \<times> system) outcome" where
  "start_driver e server opts gen s =
     (if deamonize opts = 1 then
        if \<not> clone_ok e then Go (EXIT_FAILURE, s)
        else Go (EXIT_SUCCESS, s\<lparr>sys_daemon := Some (gen, c_mode opts)\<rparr>)
      else obind (userspace_driver_main (driver e) (c_mode opts) (server gen) (sys_world s)) (\<lambda>(r, w).
        Go (EXIT_SUCCESS, s\<lparr>sys_world := w\<rparr>)))"

definition run_mode :: "machine \<Rightarrow> (syndrome_func \<Rightarrow> int \<Rightarrow> world \<Rightarrow> world outcome) \<Rightarrow> options \<Rightarrow> int \<Rightarrow>
    system \<Rightarrow> (int \<times> system) outcome" where
  "run_mode e server opts cpus s =
     (let gens = gen_syndrome_implementations (cuda e) cpus in
      if kill opts = 1 then Go (kill_daemon s)
      else if mode opts = 0 then Go (EXIT_FAILURE, s)
      else let gen = choose_implementation gens (mode_type opts) (implementation_names (cuda e)) in
      if validation opts = 1 then
        obind (or_fault (validate_implemenataion (memory e) gen gens (sys_heap s))) (\<lambda>(r, h).
        Go (if r = EXIT_SUCCESS then EXIT_SUCCESS else EXIT_FAILURE, s\<lparr>sys_heap := h\<rparr>))
      else obind (if benchmark opts = 1 then or_fault (baracuda_benchmarker e (benchmark_type opts) gens (rs_mode opts) s) else Go s)
        (start_driver e server opts gen))"

definition main :: "machine \<Rightarrow> (syndrome_func \<Rightarrow> int \<Rightarrow> world \<Rightarrow> world outcome) \<Rightarrow> string list \<Rightarrow>
    system \<Rightarrow> (int \<times> system) outcome" where
  "main e server argv s =
     obind (or_fault (set_internal_vars (cpu_file e))) (\<lambda>cpus.
     obind (or_fault (parse_args argv [0..<length argv] no_options)) (\<lambda>r.
     case r of Inl ret \<Rightarrow> Go (ret, s) | Inr opts \<Rightarrow> run_mode e server opts cpus s))"

section \<open>What the arguments mean\<close>

text \<open>An argument that asks for help, and one the parser runs into undefined behaviour on.\<close>

definition help_arg :: "string list \<Rightarrow> nat \<Rightarrow> bool" where
  "help_arg argv i \<longleftrightarrow> argv ! i \<in> {''-h'', ''--help''}"

definition bad_arg :: "string list \<Rightarrow> nat \<Rightarrow> bool" where
  "bad_arg argv i \<longleftrightarrow> argv ! i = ''-c'' \<and> Suc i = length argv \<or>
     argv ! i \<in> {''-m'', ''-B''} \<and> Suc i < length argv \<and> 10 \<le> length (argv ! Suc i)"

definition operand :: "string list \<Rightarrow> string \<Rightarrow> nat \<Rightarrow> bool" where
  "operand argv flag i \<longleftrightarrow> argv ! i = flag \<and> Suc i < length argv"

definition options_of :: "string list \<Rightarrow> nat \<Rightarrow> options \<Rightarrow> bool" where
  "options_of argv k opts \<longleftrightarrow>
     validation opts = of_bool (''-V'' \<in> set (take k argv)) \<and>
     deamonize opts = of_bool (''-d'' \<in> set (take k argv)) \<and>
     kill opts = of_bool (''-k'' \<in> set (take k argv)) \<and>
     mode opts = of_bool (\<exists>i < k. operand argv ''-m'' i) \<and>
     benchmark opts = of_bool (\<exists>i < k. operand argv ''-B'' i) \<and>
     (\<forall>i < k. operand argv ''-m'' i \<and> (\<forall>j. i < j \<and> j < k \<longrightarrow> \<not> operand argv ''-m'' j) \<longrightarrow> mode_type opts = argv ! Suc i) \<and>
     (\<forall>i < k. operand argv ''-B'' i \<and> (\<forall>j. i < j \<and> j < k \<longrightarrow> \<not> operand argv ''-B'' j) \<longrightarrow> benchmark_type opts = argv ! Suc i) \<and>
     c_mode opts = fold (\<lambda>i c. if argv ! i = ''-c'' then c_mode_of (argv ! Suc i) c else c) [0..<k] 0"

definition next_options :: "string list \<Rightarrow> nat \<Rightarrow> options \<Rightarrow> options" where
  "next_options argv i opts = \<lparr>
     deamonize = (if argv ! i = ''-d'' then 1 else deamonize opts),
     mode = (if operand argv ''-m'' i then 1 else mode opts),
     mode_type = (if operand argv ''-m'' i then argv ! Suc i else mode_type opts),
     benchmark = (if operand argv ''-B'' i then 1 else benchmark opts),
     benchmark_type = (if operand argv ''-B'' i then argv ! Suc i else benchmark_type opts),
     validation = (if argv ! i = ''-V'' then 1 else validation opts),
     kill = (if argv ! i = ''-k'' then 1 else kill opts),
     c_mode = (if argv ! i = ''-c'' then c_mode_of (argv ! Suc i) (c_mode opts) else c_mode opts),
     rs_mode = (if operand argv ''-m'' i then rs_mode_of (argv ! Suc i) (rs_mode opts) else rs_mode opts)\<rparr>"

lemma parse_arg_cases:
  assumes "i < length argv"
  shows "help_arg argv i \<Longrightarrow> parse_arg argv i opts = Some (Inl EXIT_SUCCESS)"
    "bad_arg argv i \<Longrightarrow> parse_arg argv i opts = None"
    "\<not> help_arg argv i \<Longrightarrow> \<not> bad_arg argv i \<Longrightarrow> parse_arg argv i opts = Some (Inr (next_options argv i opts))"
proof -
  show "help_arg argv i \<Longrightarrow> parse_arg argv i opts = Some (Inl EXIT_SUCCESS)"
    using assms by (auto simp: help_arg_def parse_arg_def arg_at_def)
  show "bad_arg argv i \<Longrightarrow> parse_arg argv i opts = None"
    using assms by (auto simp: bad_arg_def parse_arg_def arg_at_def strcpy10_def)
  assume no: "\<not> help_arg argv i" "\<not> bad_arg argv i"
  then have nh: "argv ! i \<noteq> ''-h''" "argv ! i \<noteq> ''--help''" by (auto simp: help_arg_def)
  consider "argv ! i = ''-m''" | "argv ! i = ''-B''" | "argv ! i = ''-c''" |
    "argv ! i \<noteq> ''-m''" "argv ! i \<noteq> ''-B''" "argv ! i \<noteq> ''-c''" by blast
  then show "parse_arg argv i opts = Some (Inr (next_options argv i opts))"
  proof cases
    case 1
    then show ?thesis using assms no(2)
      by (cases "Suc i < length argv") (simp_all add: parse_arg_def arg_at_def strcpy10_def operand_def bad_arg_def next_options_def)
  next
    case 2
    then show ?thesis using assms no(2)
      by (cases "Suc i < length argv") (simp_all add: parse_arg_def arg_at_def strcpy10_def operand_def bad_arg_def next_options_def)
  next
    case 3
    then show ?thesis using assms no(2)
      by (simp add: parse_arg_def arg_at_def operand_def bad_arg_def next_options_def)
  next
    case 4
    then show ?thesis using assms nh by (simp add: parse_arg_def arg_at_def operand_def next_options_def Let_def)
  qed
qed

lemma last_operand:
  assumes "\<forall>i < k. P i \<and> (\<forall>j. i < j \<and> j < k \<longrightarrow> \<not> P j) \<longrightarrow> x = f i"
  shows "\<forall>i < Suc k. P i \<and> (\<forall>j. i < j \<and> j < Suc k \<longrightarrow> \<not> P j) \<longrightarrow> (if P k then f k else x) = f i"
  using assms by (auto simp: less_Suc_eq)

lemma next_options_of:
  assumes "i < length argv" "options_of argv i opts"
  shows "options_of argv (Suc i) (next_options argv i opts)"
proof -
  have tk: "set (take (Suc i) argv) = insert (argv ! i) (set (take i argv))"
    using assms(1) by (simp add: take_Suc_conv_app_nth)
  have ex: "(\<exists>j < Suc i. operand argv f j) \<longleftrightarrow> operand argv f i \<or> (\<exists>j < i. operand argv f j)" for f
    by (auto simp: less_Suc_eq)
  note o = assms(2) [unfolded options_of_def]
  show ?thesis unfolding options_of_def next_options_def options.simps tk ex
    apply (intro conjI)
    using o apply simp_all[5]
    using o last_operand [of i "operand argv ''-m''" "mode_type opts" "\<lambda>i. argv ! Suc i"]
      last_operand [of i "operand argv ''-B''" "benchmark_type opts" "\<lambda>i. argv ! Suc i"]
    by simp_all
qed

lemma parse_args_upto:
  assumes "k \<le> length argv"
  shows "case find (\<lambda>i. help_arg argv i \<or> bad_arg argv i) [0..<k] of
      Some i \<Rightarrow> parse_args argv [0..<k] no_options = (if bad_arg argv i then None else Some (Inl EXIT_SUCCESS))
    | None \<Rightarrow> \<exists>opts. parse_args argv [0..<k] no_options = Some (Inr opts) \<and> options_of argv k opts"
  using assms
proof (induction k)
  case 0
  show ?case by (simp add: options_of_def no_options_def)
next
  case (Suc k)
  have app: "parse_args argv (xs @ [k]) w = do {
      r \<leftarrow> parse_args argv xs w; case r of Inl x \<Rightarrow> Some (Inl x) | Inr w \<Rightarrow> parse_arg argv k w }" for xs w
  proof (induction xs arbitrary: w)
    case Nil
    show ?case by (cases "parse_arg argv k w") (auto split: sum.splits)
  next
    case (Cons x xs)
    then show ?case by (cases "parse_arg argv x w") (auto split: sum.splits)
  qed
  have find: "find P (xs @ [y]) = (case find P xs of Some z \<Rightarrow> Some z | None \<Rightarrow> if P y then Some y else None)"
    for P and xs :: "nat list" and y
    by (induction xs) auto
  have k: "k < length argv" using Suc.prems by simp
  have excl: "help_arg argv k \<Longrightarrow> \<not> bad_arg argv k" by (auto simp: help_arg_def bad_arg_def)
  show ?case
    using Suc parse_arg_cases [OF k] next_options_of [OF k] excl
    by (auto simp: app find split: option.splits)
qed


section \<open>Running the program\<close>

text \<open>A command line without undefined behaviour and help requests whose last \<open>-m\<close> names \<open>name\<close>.\<close>

definition command_line :: "string list \<Rightarrow> string \<Rightarrow> bool" where
  "command_line argv name \<longleftrightarrow> find (\<lambda>i. help_arg argv i \<or> bad_arg argv i) [0..<length argv] = None \<and>
     (\<exists>i. operand argv ''-m'' i \<and> (\<forall>j. i < j \<longrightarrow> \<not> operand argv ''-m'' j) \<and> name = argv ! Suc i)"

definition connection :: "string list \<Rightarrow> int" where
  "connection argv = fold (\<lambda>i c. if argv ! i = ''-c'' then c_mode_of (argv ! Suc i) c else c) [0..<length argv] 0"

lemma command_line_options:
  assumes "command_line argv name"
  shows "\<exists>opts. parse_args argv [0..<length argv] no_options = Some (Inr opts) \<and> mode opts = 1 \<and> mode_type opts = name \<and>
    validation opts = of_bool (''-V'' \<in> set argv) \<and> deamonize opts = of_bool (''-d'' \<in> set argv) \<and>
    kill opts = of_bool (''-k'' \<in> set argv) \<and> benchmark opts = of_bool (\<exists>i. operand argv ''-B'' i) \<and>
    c_mode opts = connection argv"
proof -
  obtain i where i: "operand argv ''-m'' i" "\<forall>j. i < j \<longrightarrow> \<not> operand argv ''-m'' j" "name = argv ! Suc i"
    and none: "find (\<lambda>i. help_arg argv i \<or> bad_arg argv i) [0..<length argv] = None"
    using assms unfolding command_line_def by blast
  have il: "i < length argv" using i(1) by (simp add: operand_def)
  have ex: "(\<exists>j < length argv. operand argv f j) \<longleftrightarrow> (\<exists>j. operand argv f j)" for f
    by (auto simp: operand_def intro: Suc_lessD)
  obtain opts where p: "parse_args argv [0..<length argv] no_options = Some (Inr opts)" "options_of argv (length argv) opts"
    using parse_args_upto [of "length argv" argv] none by auto
  have "mode_type opts = name" using p(2) i il unfolding options_of_def by blast
  moreover have "(\<exists>j. operand argv ''-m'' j) = True" using i(1) by blast
  ultimately show ?thesis
    using p unfolding options_of_def ex connection_def
    by (intro exI [of _ opts]) simp
qed

lemma choose_SOFT [simp]:
  "choose_implementation (gen_syndrome_implementations gpu cpus) ''SOFT'' (implementation_names gpu) = raid6_vanilla_gen_syndrome"
  "choose_implementation (gen_syndrome_implementations gpu cpus) ''SMP'' (implementation_names gpu) = raid6_smp_gen_syndrome (nat cpus)"
  "choose_implementation (gen_syndrome_implementations gpu cpus) ''DUMMY'' (implementation_names gpu) = raid6_dummy_gen_syndrome"
  by (simp_all add: choose_implementation_def gen_syndrome_implementations_def implementation_names_def get_number_of_phys_cpus_def)

lemma choose_loop_none: "md \<notin> fst ` set xs \<Longrightarrow> choose_loop gen md xs = gen"
  by (induction gen md xs rule: choose_loop.induct) auto

lemma choose_fallback:
  assumes "name \<notin> set (implementation_names gpu)"
  shows "choose_implementation (gen_syndrome_implementations gpu cpus) name (implementation_names gpu) = raid6_vanilla_gen_syndrome"
proof -
  have "name \<notin> fst ` set (zip (implementation_names gpu) (gen_syndrome_implementations gpu cpus))"
    using assms by (auto dest: set_zip_leftD)
  then show ?thesis using choose_loop_none
    by (simp add: choose_implementation_def gen_syndrome_implementations_def)
qed

lemma run_validation:
  assumes "set_internal_vars (cpu_file e) = Some cpus" "command_line argv name" "''-V'' \<in> set argv" "''-k'' \<notin> set argv"
    and "validate_implemenataion (memory e) (choose_implementation (gen_syndrome_implementations (cuda e) cpus) name
        (implementation_names (cuda e))) (gen_syndrome_implementations (cuda e) cpus) (sys_heap s) = Some (r, h)"
    and "r = EXIT_SUCCESS \<or> r = EXIT_FAILURE"
  shows "main e server argv s = Go (r, s\<lparr>sys_heap := h\<rparr>)"
proof -
  obtain opts where "parse_args argv [0..<length argv] no_options = Some (Inr opts)" "mode opts = 1"
    "mode_type opts = name" "validation opts = 1" "kill opts = 0"
    using command_line_options [OF assms(2)] assms(3,4) by auto
  then show ?thesis using assms(1,5,6) by (auto simp: main_def run_mode_def Let_def)
qed

lemma validate_implementations:
  assumes "raid6_encoder gen need ok" "need 512 = 512" "ok 512" "\<forall>p. avail e p" "0 < h_next h"
  shows "\<exists>h'. validate_implemenataion e gen (gen_syndrome_implementations gpu cpus) h = Some (EXIT_SUCCESS, h')"
  using accepts_encoder [OF assms] unfolding gen_syndrome_implementations_def by fastforce

text \<open>C24. The validation mode, for every command line with \<open>-V\<close>: the program succeeds for \<open>SOFT\<close>, for \<open>SMP\<close> when
  the threads get whole words, and for every name that is not an implementation (it falls back to
  \<open>SOFT\<close>), and fails for \<open>DUMMY\<close>. The driver is not started.\<close>

theorem main_validates:
  assumes "set_internal_vars (cpu_file e) = Some cpus" "command_line argv name" "''-V'' \<in> set argv" "''-k'' \<notin> set argv"
    and "\<forall>p. avail (memory e) p" "0 < h_next (sys_heap s)"
    and "name = ''SOFT'' \<or> name = ''SMP'' \<and> smp_need (nat cpus) 512 = 512 \<and> smp_ok (nat cpus) 512 \<or>
      name \<notin> set (implementation_names (cuda e)) \<or> name = ''DUMMY''"
  shows "\<exists>h. main e server argv s = Go (if name = ''DUMMY'' then EXIT_FAILURE else EXIT_SUCCESS, s\<lparr>sys_heap := h\<rparr>)"
proof -
  let ?gens = "gen_syndrome_implementations (cuda e) cpus"
  have van: "raid6_encoder raid6_vanilla_gen_syndrome vanilla_need vanilla_ok" "vanilla_need 512 = 512" "vanilla_ok 512"
    by (simp_all add: raid6_encoder_def vanilla_need_def vanilla_ok_def)
  have smp: "raid6_encoder (raid6_smp_gen_syndrome (nat cpus)) (smp_need (nat cpus)) (smp_ok (nat cpus))"
    unfolding raid6_encoder_def by blast
  have soft: "\<exists>h. validate_implemenataion (memory e) raid6_vanilla_gen_syndrome ?gens (sys_heap s) = Some (EXIT_SUCCESS, h)"
    by (rule validate_implementations [OF van assms(5,6)])
  have "\<exists>h. validate_implemenataion (memory e) (choose_implementation ?gens name (implementation_names (cuda e))) ?gens (sys_heap s) =
      Some (if name = ''DUMMY'' then EXIT_FAILURE else EXIT_SUCCESS, h)"
    using assms(7)
  proof (elim disjE conjE)
    assume "name = ''SOFT''"
    then show ?thesis using soft by simp
  next
    assume "name = ''SMP''" "smp_need (nat cpus) 512 = 512" "smp_ok (nat cpus) 512"
    then show ?thesis using validate_implementations [OF smp _ _ assms(5,6)] by simp
  next
    assume n: "name \<notin> set (implementation_names (cuda e))"
    then have "name \<noteq> ''DUMMY''" by (auto simp: implementation_names_def)
    then show ?thesis using choose_fallback [OF n] soft by simp
  next
    assume "name = ''DUMMY''"
    moreover have "\<exists>gs. ?gens = raid6_vanilla_gen_syndrome # gs" by (simp add: gen_syndrome_implementations_def)
    ultimately show ?thesis using rejects_dummy [OF assms(5,6)] by auto
  qed
  then show ?thesis using run_validation [OF assms(1-4)] by fastforce
qed

lemma command_lineI:
  assumes "find (\<lambda>i. help_arg argv i \<or> bad_arg argv i) [0..<length argv] = None" "operand argv ''-m'' i"
    and "list_all (\<lambda>j. \<not> operand argv ''-m'' j) [Suc i..<length argv]" "argv ! Suc i = name"
  shows "command_line argv name"
  using assms unfolding command_line_def list_all_iff
  by (intro conjI exI [of _ i]) (auto simp: operand_def)

definition sample_machine :: machine where
  "sample_machine = \<lparr>cpu_file = Some (''0-3'' @ [CHR 0x0A]), memory = \<lparr>avail = \<lambda>_. True, fill = \<lambda>p i. 255\<rparr>, cuda = None,
     mill = of_nat, clone_ok = True, driver = sample_drv\<rparr>"

definition sample_system :: system where
  "sample_system = \<lparr>sys_world = sample_world, sys_heap = \<lparr>h_mem = Map.empty, h_next = 1\<rparr>, sys_commands = [], sys_bench = [],
     sys_daemon = None\<rparr>"

lemma sample_cpus: "set_internal_vars (cpu_file sample_machine) = Some 4"
  by (simp add: sample_machine_def set_internal_vars_def fgets_def strtok_def c_string_def atoi_def is_space_def
      is_digit_def digit_value_def)

theorem main_validates_witness:
  "(\<exists>h. main sample_machine (\<lambda>gen c w. Block) [''barracuda'', ''-V'', ''-m'', ''SMP''] sample_system = Go (EXIT_SUCCESS, sample_system\<lparr>sys_heap := h\<rparr>)) \<and>
   (\<exists>h. main sample_machine (\<lambda>gen c w. Block) [''barracuda'', ''-V'', ''-m'', ''FPGA''] sample_system = Go (EXIT_SUCCESS, sample_system\<lparr>sys_heap := h\<rparr>)) \<and>
   (\<exists>h. main sample_machine (\<lambda>gen c w. Block) [''barracuda'', ''-m'', ''DUMMY'', ''-V''] sample_system = Go (EXIT_FAILURE, sample_system\<lparr>sys_heap := h\<rparr>))"
proof -
  have need: "smp_need 4 512 = 512" by (simp add: smp_need_def chunk_end_def chunk_start_def chunk_stop_def upt_rec)
  then have ok: "smp_ok 4 512" by (simp add: smp_ok_def)
  have cl: "command_line [''barracuda'', ''-V'', ''-m'', ''SMP''] ''SMP''" by (rule command_lineI [where i = 2]; code_simp)
  have cl2: "command_line [''barracuda'', ''-V'', ''-m'', ''FPGA''] ''FPGA''" by (rule command_lineI [where i = 2]; code_simp)
  have cl3: "command_line [''barracuda'', ''-m'', ''DUMMY'', ''-V''] ''DUMMY''" by (rule command_lineI [where i = 1]; code_simp)
  have m: "\<forall>p. avail (memory sample_machine) p" "0 < h_next (sys_heap sample_system)" "cuda sample_machine = None"
    by (simp_all add: sample_machine_def sample_system_def)
  show ?thesis
    using main_validates [OF sample_cpus cl _ _ m(1,2), of "\<lambda>gen c w. Block"]
      main_validates [OF sample_cpus cl2 _ _ m(1,2), of "\<lambda>gen c w. Block"]
      main_validates [OF sample_cpus cl3 _ _ m(1,2), of "\<lambda>gen c w. Block"] need ok m(3)
    by (simp add: implementation_names_def)
qed



section \<open>The benchmark mode\<close>

lemma repeat_gen_keeps:
  assumes "\<And>m. P m \<Longrightarrow> \<exists>m'. gen disks bytes a m = Some m' \<and> P m'" "P m"
  shows "\<exists>m'. repeat_gen n gen disks bytes a m = Some m' \<and> P m'"
  using assms(2)
proof (induction n arbitrary: m)
  case (Suc n)
  obtain m' where "gen disks bytes a m = Some m'" "P m'" using assms(1) Suc.prems by blast
  then show ?case using Suc.IH [of m'] by simp
qed simp

lemma compare_runs_end:
  assumes gen: "raid6_generator gen need ok" "need PAGE_SIZE_DEF = PAGE_SIZE_DEF" "ok PAGE_SIZE_DEF"
    and clock: "\<And>k. (ucast (clock (Suc (2 * k))) :: u32) \<noteq> ucast (clock (2 * k))"
    and st: "example_state a n PAGE_SIZE_DEF m0 m" and js: "\<forall>j \<in> set js. 3 \<le> j \<and> j \<le> n" "n < 2 ^ 31"
  shows "\<exists>rs m'. compare_runs gen js a clock (2 * k) m = Some (rs, m') \<and> example_state a n PAGE_SIZE_DEF m0 m' \<and>
    map fst rs = map int js"
  using st js(1)
proof (induction js arbitrary: k m)
  case (Cons j js)
  have "\<exists>m'. gen (int j) PAGE_SIZE_DEF a m = Some m' \<and> example_state a n PAGE_SIZE_DEF m0 m'"
    if "example_state a n PAGE_SIZE_DEF m0 m" for m
    by (rule example_state_gen [OF gen(1) _ gen(3) that]) (use gen(2) Cons.prems(2) js(2) in simp_all)
  then obtain m' where m': "repeat_gen 1000 gen (int j) PAGE_SIZE_DEF a m = Some m'" "example_state a n PAGE_SIZE_DEF m0 m'"
    using repeat_gen_keeps [where P = "example_state a n PAGE_SIZE_DEF m0" and gen = gen, OF _ Cons.prems(1)] by blast
  then obtain r where "compare_all_implementations_one_run gen (int j) a (clock (2 * k)) (clock (Suc (2 * k))) m = Some ((int j, r), m')"
    using clock [of k] by (auto simp: compare_all_implementations_one_run_def)
  then show ?case using Cons.IH [OF m'(2), of "Suc k"] Cons.prems(2) by fastforce
qed simp

text \<open>The \<open>DRYRUN\<close> benchmark on an encoder of the RAID-6 contract ends with 600 figures and gives all
  memory back, provided every measurement takes at least a millisecond.\<close>

lemma dryrun_ends:
  assumes gen: "raid6_encoder (gens ! nat number) need ok" "need PAGE_SIZE_DEF = PAGE_SIZE_DEF" "ok PAGE_SIZE_DEF"
    and "0 \<le> number" "nat number < length gens"
    and clock: "\<And>k. (ucast (clock (Suc (2 * k))) :: u32) \<noteq> ucast (clock (2 * k))"
    and e: "\<forall>p. avail e p" "heap_fresh h"
  shows "\<exists>rs h'. compare_all_implementations e clock gens number h = Some (rs, h') \<and> h_mem h' = h_mem h \<and>
    map fst rs = concat (map (\<lambda>j. replicate 10 (int j)) [5..<65])"
proof -
  let ?a = "h_next h" and ?js = "concat (map (replicate 10) [5..<65]) :: nat list"
  have pos: "0 < ?a" "\<forall>p \<ge> ?a. h_mem h p = None" using e(2) by (simp_all add: heap_fresh_def)
  obtain h1 where h1: "allocate_host_example_dpointer e (int PAGE_SIZE_DEF) (int 66) h = Some (?a, h1)"
    "example_state ?a 66 PAGE_SIZE_DEF (h_mem h) (h_mem h1)"
    using example_state_allocated [OF e(1) pos(1), of PAGE_SIZE_DEF 66] by blast
  have js: "\<forall>j \<in> set ?js. 3 \<le> j \<and> j \<le> 66" by auto
  obtain rs m where rs: "compare_runs (gens ! nat number) ?js ?a clock (2 * 0) (h_mem h1) = Some (rs, m)"
    "example_state ?a 66 PAGE_SIZE_DEF (h_mem h) m" "map fst rs = map int ?js"
    using compare_runs_end [where clock = clock and k = 0, OF raid6_encoder_generator [OF gen(1)] gen(2,3) clock h1(2) js] by auto
  have "deallocate_host_example_dpointer (int 66) ?a m = Some (h_mem h)" by (rule example_state_freed [OF rs(2) pos(2)])
  then have "compare_all_implementations e clock gens number h = Some (rs, h1\<lparr>h_mem := h_mem h\<rparr>)"
    using h1(1) rs(1) assms(4,5) by (simp add: compare_all_implementations_def del: upt_Suc)
  moreover have "map int ?js = concat (map (\<lambda>j. replicate 10 (int j)) [5..<65])"
    by (simp add: map_concat comp_def del: upt_Suc)
  ultimately show ?thesis using rs(3) by simp
qed

end
