(* ===== verification/Cuda_Raid6.thy ===== *)
theory Cuda_Raid6
  imports Host_Service
begin

unbundle bit_operations_syntax

text \<open>
  The CUDA encoder of \<open>cuda/raid6cuda.cu\<close> in its active build (\<open>ASYNC\<close> undefined): the device
  buffers, the copies in blocks of \<open>DMA_BLOCKSIZE\<close> bytes, the kernel \<open>syndrome_block\<close> and
  \<open>release_card_memory\<close>. \<open>raid6_cuda_gen_syndrome_asynccopy\<close> is compiled out and is not modelled.

  The CUDA runtime is the record \<open>gpu\<close>: whether the device buffers can be allocated and what they
  contain, in which order the threads of a grid run (the theorems assume that each runs exactly
  once), and what the shared memory of a thread contains before its first write (per launch and
  thread). A copy beyond a device buffer and an access of the kernel beyond it are undefined.
  \<^term>\<open>Inl\<close> is the call of \<open>exit\<close>.
\<close>

definition DMA_BLOCKSIZE :: nat where
  "DMA_BLOCKSIZE = 524288"

definition THREAD_BLOCKSIZE :: nat where
  "THREAD_BLOCKSIZE = 256"

record gpu =
  device_ok :: bool
  device_fill :: "nat \<Rightarrow> nat \<Rightarrow> u8"
  order :: "nat \<Rightarrow> nat list"
  shared :: "nat \<Rightarrow> nat \<Rightarrow> u64"

record card =
  DEVICE_DP_1 :: "u8 list"
  DEVICE_PQ_1 :: "u8 list"
  DEVICE_DP_2 :: "u8 list"
  DEVICE_PQ_2 :: "u8 list"

text \<open>The static variables: \<open>mem_tag\<close>, the device buffers, and \<open>dptrs\<close>, which is initialised by the
  first call only. \<open>launches\<close> numbers the launches of the kernel.\<close>

record cuda_state =
  mem_tag :: int
  cards :: "card option"
  static_dptrs :: "ptr option"
  launches :: nat

section \<open>The kernel\<close>

definition dload64 :: "u8 list \<Rightarrow> int \<Rightarrow> u64 option" where
  "dload64 dev i = (if 0 \<le> i \<and> nat i + 8 \<le> length dev then Some (word_of_bytes (take 8 (drop (nat i) dev))) else None)"

definition dstore64 :: "u8 list \<Rightarrow> nat \<Rightarrow> u64 \<Rightarrow> u8 list option" where
  "dstore64 dev i w = (if i + 8 \<le> length dev then Some (overwrite dev i (bytes_of_word w)) else None)"

fun syndrome_loop :: "u8 list \<Rightarrow> nat \<Rightarrow> nat \<Rightarrow> u64 \<Rightarrow> u64 \<Rightarrow> u64 \<Rightarrow> (u64 \<times> u64) option" where
  "syndrome_loop DEVICE_DP d 0 wp0 wq0 w20 = Some (wp0, wq0)"
| "syndrome_loop DEVICE_DP d (Suc z) wp0 wq0 w20 = do {
     wd0 \<leftarrow> dload64 DEVICE_DP (int (z * DMA_BLOCKSIZE + d));
     let wp0 = wp0 XOR wd0;
     let wq0 = wq0 AND NBYTES 0x80;
     let wq0 = push_bit 1 wq0 - drop_bit 7 wq0;
     let w10 = push_bit 1 wq0 AND NBYTES 0xfe;
     let w20 = w20 AND NBYTES 0x1d;
     let w10 = w10 XOR w20;
     let wq0 = w10 XOR wd0;
     syndrome_loop DEVICE_DP d z wp0 wq0 w20 }"

text \<open>Thread \<open>t\<close> of the grid, with \<open>w\<close> in \<open>w20[tx]\<close>.\<close>

definition syndrome_block :: "u8 list \<Rightarrow> int \<Rightarrow> u64 \<Rightarrow> nat \<Rightarrow> u8 list \<Rightarrow> u8 list option" where
  "syndrome_block DEVICE_DP z0 w t DEVICE_PQ =
     (let bx = t div THREAD_BLOCKSIZE; tx = t mod THREAD_BLOCKSIZE;
          d = (bx * THREAD_BLOCKSIZE + tx) * 8 in do {
        wp0 \<leftarrow> dload64 DEVICE_DP (z0 * int DMA_BLOCKSIZE + int d);
        (wp0, wq0) \<leftarrow> syndrome_loop DEVICE_DP d (nat z0) wp0 wp0 w;
        DEVICE_PQ \<leftarrow> dstore64 DEVICE_PQ d wp0;
        dstore64 DEVICE_PQ (DMA_BLOCKSIZE + d) wq0 })"

fun run_grid :: "u8 list \<Rightarrow> int \<Rightarrow> (nat \<Rightarrow> u64) \<Rightarrow> nat list \<Rightarrow> u8 list \<Rightarrow> u8 list option" where
  "run_grid DEVICE_DP z0 w [] DEVICE_PQ = Some DEVICE_PQ"
| "run_grid DEVICE_DP z0 w (t # ts) DEVICE_PQ = do {
     DEVICE_PQ \<leftarrow> syndrome_block DEVICE_DP z0 (w t) t DEVICE_PQ;
     run_grid DEVICE_DP z0 w ts DEVICE_PQ }"

section \<open>Copies\<close>

definition c_nat :: "nat \<Rightarrow> nat option" where
  "c_nat n = (if n < 2 ^ 31 then Some n else None)"

text \<open>\<open>cudaMemcpy\<close> to a device buffer, from offset \<open>s\<close> of a host buffer, and back.\<close>

definition h2d :: "mem \<Rightarrow> ptr \<Rightarrow> nat \<Rightarrow> nat \<Rightarrow> nat \<Rightarrow> u8 list \<Rightarrow> u8 list option" where
  "h2d m p s n i dev = do {
     ys \<leftarrow> read_bytes m p s n;
     if i + n \<le> length dev then Some (overwrite dev i ys) else None }"

definition d2h :: "mem \<Rightarrow> ptr \<Rightarrow> nat \<Rightarrow> nat \<Rightarrow> nat \<Rightarrow> u8 list \<Rightarrow> mem option" where
  "d2h m p s n i dev = (if i + n \<le> length dev then write_bytes m p s (take n (drop i dev)) else None)"

text \<open>The upload loops over the data disks: \<open>n\<close> bytes from \<open>off\<close> of each disk, and two blocks of each.\<close>

fun upload :: "mem \<Rightarrow> ptr \<Rightarrow> nat \<Rightarrow> nat \<Rightarrow> nat list \<Rightarrow> u8 list \<Rightarrow> u8 list option" where
  "upload m dptrs off n [] dev = Some dev"
| "upload m dptrs off n (i # is) dev = do {
     p \<leftarrow> ptr_index m dptrs (int i);
     off' \<leftarrow> c_nat off;
     dev \<leftarrow> h2d m p off' n (i * DMA_BLOCKSIZE) dev;
     upload m dptrs off n is dev }"

fun upload_pair :: "mem \<Rightarrow> ptr \<Rightarrow> nat \<Rightarrow> nat list \<Rightarrow> card \<Rightarrow> card option" where
  "upload_pair m dptrs j [] c = Some c"
| "upload_pair m dptrs j (i # is) c = do {
     p \<leftarrow> ptr_index m dptrs (int i);
     off \<leftarrow> c_nat (j * 2 * DMA_BLOCKSIZE);
     dp1 \<leftarrow> h2d m p off DMA_BLOCKSIZE (i * DMA_BLOCKSIZE) (DEVICE_DP_1 c);
     off \<leftarrow> c_nat (j * 2 * DMA_BLOCKSIZE + DMA_BLOCKSIZE);
     dp2 \<leftarrow> h2d m p off DMA_BLOCKSIZE (i * DMA_BLOCKSIZE) (DEVICE_DP_2 c);
     upload_pair m dptrs j is (c\<lparr>DEVICE_DP_1 := dp1, DEVICE_DP_2 := dp2\<rparr>) }"

text \<open>\<open>n\<close> bytes of parity and syndrome back to offset \<open>off\<close> of the last two disks.\<close>

definition download :: "mem \<Rightarrow> ptr \<Rightarrow> int \<Rightarrow> nat \<Rightarrow> nat \<Rightarrow> u8 list \<Rightarrow> mem option" where
  "download m dptrs disks off n pq = do {
     p \<leftarrow> ptr_index m dptrs (disks - 2);
     off \<leftarrow> c_nat off;
     m \<leftarrow> d2h m p off n 0 pq;
     q \<leftarrow> ptr_index m dptrs (disks - 1);
     d2h m q off n DMA_BLOCKSIZE pq }"

section \<open>The encoder\<close>

text \<open>The loop over the pairs of blocks, from \<open>j\<close> on.\<close>

fun cuda_runs :: "gpu \<Rightarrow> int \<Rightarrow> ptr \<Rightarrow> nat list \<Rightarrow> nat \<Rightarrow> card \<times> mem \<Rightarrow> (card \<times> mem) option" where
  "cuda_runs e disks dptrs [] l (c, m) = Some (c, m)"
| "cuda_runs e disks dptrs (j # js) l (c, m) = do {
     let threads = order e (DMA_BLOCKSIZE div (THREAD_BLOCKSIZE * 8) * THREAD_BLOCKSIZE);
     c \<leftarrow> upload_pair m dptrs j [0..<nat (disks - 2)] c;
     pq1 \<leftarrow> run_grid (DEVICE_DP_1 c) (disks - 3) (shared e l) threads (DEVICE_PQ_1 c);
     pq2 \<leftarrow> run_grid (DEVICE_DP_2 c) (disks - 3) (shared e (Suc l)) threads (DEVICE_PQ_2 c);
     m \<leftarrow> download m dptrs disks (j * 2 * DMA_BLOCKSIZE) DMA_BLOCKSIZE pq1;
     m \<leftarrow> download m dptrs disks (j * 2 * DMA_BLOCKSIZE + DMA_BLOCKSIZE) DMA_BLOCKSIZE pq2;
     cuda_runs e disks dptrs js (l + 2) (c\<lparr>DEVICE_PQ_1 := pq1, DEVICE_PQ_2 := pq2\<rparr>, m) }"

text \<open>One block of \<open>n\<close> bytes at \<open>off\<close>, with a grid of \<open>blocks\<close> blocks: the code after the loop, first
  for a whole block, then for the rest.\<close>

definition cuda_part :: "gpu \<Rightarrow> int \<Rightarrow> ptr \<Rightarrow> nat \<Rightarrow> nat \<Rightarrow> nat \<Rightarrow> nat \<Rightarrow> card \<times> mem \<Rightarrow> (card \<times> mem) option" where
  "cuda_part e disks dptrs off n blocks l = (\<lambda>(c, m). do {
     dp1 \<leftarrow> upload m dptrs off n [0..<nat (disks - 2)] (DEVICE_DP_1 c);
     pq1 \<leftarrow> run_grid dp1 (disks - 3) (shared e l) (order e (blocks * THREAD_BLOCKSIZE)) (DEVICE_PQ_1 c);
     m \<leftarrow> download m dptrs disks off n pq1;
     Some (c\<lparr>DEVICE_DP_1 := dp1, DEVICE_PQ_1 := pq1\<rparr>, m) })"

definition get_card_mem :: "gpu \<Rightarrow> cuda_state \<Rightarrow> int + cuda_state" where
  "get_card_mem e s =
     (if mem_tag s = 0 then
        if \<not> device_ok e then Inl 1
        else Inr (s\<lparr>mem_tag := 1, cards := Some \<lparr>
          DEVICE_DP_1 = map (device_fill e 0) [0..<DMA_BLOCKSIZE * 256], DEVICE_PQ_1 = map (device_fill e 1) [0..<DMA_BLOCKSIZE * 2],
          DEVICE_DP_2 = map (device_fill e 2) [0..<DMA_BLOCKSIZE * 256], DEVICE_PQ_2 = map (device_fill e 3) [0..<DMA_BLOCKSIZE * 2]\<rparr>\<rparr>)
      else Inr s)"

text \<open>The copies and launches of one call, with \<open>runs\<close>, \<open>carry_off\<close> and \<open>j\<close> as in the code: after the
  loop \<open>j\<close> is \<open>runs\<close>; a whole block sets it to \<open>j * 2 + 1\<close>; the rest is taken at \<open>j * DMA_BLOCKSIZE\<close>.\<close>

definition cuda_copy :: "gpu \<Rightarrow> int \<Rightarrow> nat \<Rightarrow> ptr \<Rightarrow> nat \<Rightarrow> card \<times> mem \<Rightarrow> (nat \<times> card \<times> mem) option" where
  "cuda_copy e disks bytes dptrs l cm = do {
     let runs = bytes div (DMA_BLOCKSIZE * 2);
     cm \<leftarrow> cuda_runs e disks dptrs [0..<runs] l cm;
     let l = l + 2 * runs;
     let j = runs;
     let carry_off = bytes - runs * 2 * DMA_BLOCKSIZE;
     (j, carry_off, l, cm) \<leftarrow> (if DMA_BLOCKSIZE \<le> carry_off then do {
        cm \<leftarrow> cuda_part e disks dptrs (j * 2 * DMA_BLOCKSIZE) DMA_BLOCKSIZE (DMA_BLOCKSIZE div (THREAD_BLOCKSIZE * 8)) l cm;
        Some (j * 2 + 1, carry_off - DMA_BLOCKSIZE, Suc l, cm) }
      else Some (j, carry_off, l, cm));
     if 0 < carry_off then do {
       cm \<leftarrow> cuda_part e disks dptrs (j * DMA_BLOCKSIZE) carry_off (carry_off div (THREAD_BLOCKSIZE * 8) + 1) l cm;
       Some (Suc l, cm) }
     else Some (l, cm) }"

definition raid6_cuda_gen_syndrome_synccopy ::
    "gpu \<Rightarrow> int \<Rightarrow> nat \<Rightarrow> ptr \<Rightarrow> cuda_state \<times> mem \<Rightarrow> (int + cuda_state \<times> mem) option" where
  "raid6_cuda_gen_syndrome_synccopy e disks bytes ptrs = (\<lambda>(s, m).
     let dptrs = (case static_dptrs s of None \<Rightarrow> ptrs | Some a \<Rightarrow> a);
         s = s\<lparr>static_dptrs := Some dptrs\<rparr> in
     case get_card_mem e s of
       Inl r \<Rightarrow> Some (Inl r)
     | Inr s \<Rightarrow> do {
         c \<leftarrow> cards s;
         (l, c, m) \<leftarrow> cuda_copy e disks bytes dptrs (launches s) (c, m);
         Some (Inr (s\<lparr>cards := Some c, launches := l\<rparr>, m)) })"

definition raid6_cuda_gen_syndrome ::
    "gpu \<Rightarrow> int \<Rightarrow> nat \<Rightarrow> ptr \<Rightarrow> cuda_state \<times> mem \<Rightarrow> (int + cuda_state \<times> mem) option" where
  "raid6_cuda_gen_syndrome e disks bytes ptrs = raid6_cuda_gen_syndrome_synccopy e disks bytes ptrs"

definition release_card_memory :: "cuda_state \<Rightarrow> cuda_state" where
  "release_card_memory s = s\<lparr>cards := None\<rparr>"

section \<open>What the kernel computes\<close>

text \<open>The step on one byte of \<open>wq0\<close>, with \<open>j\<close> in the byte of \<open>w20\<close>, and the whole loop.\<close>

definition cuda_step :: "u8 \<Rightarrow> u8 \<Rightarrow> u8" where
  "cuda_step j b = (if bit b 7 then 0xfe else 0) XOR (j AND 0x1d)"

definition cuda_q :: "u8 \<Rightarrow> u8 list \<Rightarrow> u8 \<Rightarrow> u8" where
  "cuda_q j ds acc = foldr (\<lambda>d acc. cuda_step j acc XOR d) ds acc"

lemma cuda_q_masked [simp]: "cuda_q (j AND 0x1d) ds acc = cuda_q j ds acc"
  by (simp add: cuda_q_def cuda_step_def and.assoc)

lemma kernel_step_lane:
  assumes "k < 8"
  shows "byte_of (SHLBYTE (MASK wq) XOR (w AND NBYTES 0x1d)) k = cuda_step (byte_of w k) (byte_of wq k)"
proof -
  have n: "(510 :: u8) = 0xfe" by simp
  show ?thesis using assms by (auto simp: lane_simps cuda_step_def n)
qed

lemma dload64_lane:
  assumes "i + 8 \<le> length dev"
  shows "\<exists>w. dload64 dev (int i) = Some w \<and> (\<forall>k < 8. byte_of w k = dev ! (i + k))"
  using assms by (simp add: dload64_def lane_simps)

definition dcol :: "u8 list \<Rightarrow> nat \<Rightarrow> nat \<Rightarrow> u8 list" where
  "dcol DP z i = map (\<lambda>y. DP ! (y * DMA_BLOCKSIZE + i)) [0..<z]"

lemma dcol_Suc: "dcol DP (Suc z) i = dcol DP z i @ [DP ! (z * DMA_BLOCKSIZE + i)]"
  by (simp add: dcol_def)

lemma syndrome_loop_lanes:
  assumes "z * DMA_BLOCKSIZE \<le> length DP" "d + 8 \<le> DMA_BLOCKSIZE"
  shows "\<exists>wp' wq'. syndrome_loop DP d z wp wq w = Some (wp', wq') \<and>
    (\<forall>k < 8. byte_of wp' k = byte_of wp k XOR xor_list (dcol DP z (d + k)) \<and>
       byte_of wq' k = cuda_q (byte_of w k) (dcol DP z (d + k)) (byte_of wq k))"
  using assms(1)
proof (induction z arbitrary: wp wq w)
  case 0
  show ?case by (simp add: dcol_def cuda_q_def)
next
  case (Suc z)
  obtain wd where wd: "dload64 DP (int (z * DMA_BLOCKSIZE + d)) = Some wd"
    and lanes: "\<And>k. k < 8 \<Longrightarrow> byte_of wd k = DP ! (z * DMA_BLOCKSIZE + (d + k))"
    using dload64_lane [of "z * DMA_BLOCKSIZE + d" DP] Suc.prems assms(2) by (auto simp: add.assoc)
  let ?wq = "(SHLBYTE (MASK wq) XOR (w AND NBYTES 0x1d)) XOR wd" and ?w = "w AND NBYTES 0x1d"
  have step: "syndrome_loop DP d (Suc z) wp wq w = syndrome_loop DP d z (wp XOR wd) ?wq ?w"
    using wd by (simp add: SHLBYTE_def MASK_def Let_def xor.assoc)
  have l: "byte_of ?wq k = cuda_step (byte_of w k) (byte_of wq k) XOR DP ! (z * DMA_BLOCKSIZE + (d + k))"
    "byte_of ?w k = byte_of w k AND 0x1d" if "k < 8" for k
    using kernel_step_lane [OF that] lanes [OF that] that by (simp_all add: lane_simps)
  have "cuda_q (byte_of w k) (dcol DP (Suc z) (d + k)) (byte_of wq k) =
      cuda_q (byte_of ?w k) (dcol DP z (d + k)) (byte_of ?wq k)" if "k < 8" for k
    using l [OF that] by (simp add: dcol_Suc cuda_q_def cuda_step_def and.assoc)
  then show ?case
    unfolding step using Suc.IH [of "wp XOR wd" ?wq ?w] Suc.prems lanes
    by (auto simp: dcol_Suc byte_of_xor xor_list_append xor.assoc xor.commute xor.left_commute)
qed

text \<open>What a grid writes: \<open>i\<close> is an offset within the block.\<close>

definition dq :: "(nat \<Rightarrow> u64) \<Rightarrow> u8 list \<Rightarrow> nat \<Rightarrow> nat \<Rightarrow> u8" where
  "dq w DP z0 i = cuda_q (byte_of (w (i div 8)) (i mod 8)) (dcol DP z0 i) (DP ! (z0 * DMA_BLOCKSIZE + i))"

lemma div8_iff: "i div 8 = t \<longleftrightarrow> t * 8 \<le> i \<and> i < t * 8 + (8 :: nat)"
  by auto

lemma syndrome_block_writes:
  assumes DP: "Suc z0 * DMA_BLOCKSIZE \<le> length DP" and PQ: "length PQ = 2 * DMA_BLOCKSIZE" and t: "t * 8 + 8 \<le> DMA_BLOCKSIZE"
  shows "\<exists>PQ'. syndrome_block DP (int z0) (w t) t PQ = Some PQ' \<and> length PQ' = 2 * DMA_BLOCKSIZE \<and>
    (\<forall>i < DMA_BLOCKSIZE. PQ' ! i = (if i div 8 = t then xor_list (dcol DP (Suc z0) i) else PQ ! i) \<and>
       PQ' ! (DMA_BLOCKSIZE + i) = (if i div 8 = t then dq w DP z0 i else PQ ! (DMA_BLOCKSIZE + i)))"
proof -
  let ?d = "t * 8"
  have d: "(t div THREAD_BLOCKSIZE * THREAD_BLOCKSIZE + t mod THREAD_BLOCKSIZE) * 8 = ?d" by simp
  obtain wd where wd: "dload64 DP (int (z0 * DMA_BLOCKSIZE + ?d)) = Some wd"
    and lanes: "\<And>k. k < 8 \<Longrightarrow> byte_of wd k = DP ! (z0 * DMA_BLOCKSIZE + (?d + k))"
    using dload64_lane [of "z0 * DMA_BLOCKSIZE + ?d" DP] DP t by (auto simp: add.assoc)
  obtain wp wq where loop: "syndrome_loop DP ?d z0 wd wd (w t) = Some (wp, wq)"
    and wp: "\<And>k. k < 8 \<Longrightarrow> byte_of wp k = byte_of wd k XOR xor_list (dcol DP z0 (?d + k))"
    and wq: "\<And>k. k < 8 \<Longrightarrow> byte_of wq k = cuda_q (byte_of (w t) k) (dcol DP z0 (?d + k)) (byte_of wd k)"
    using syndrome_loop_lanes [of z0 DP ?d wd wd "w t"] DP t by auto
  let ?P = "overwrite PQ ?d (bytes_of_word wp)"
  let ?Q = "overwrite ?P (DMA_BLOCKSIZE + ?d) (bytes_of_word wq)"
  have run: "syndrome_block DP (int z0) (w t) t PQ = Some ?Q"
    using wd loop PQ t unfolding syndrome_block_def Let_def d by (simp add: dstore64_def)
  have lens: "length ?P = 2 * DMA_BLOCKSIZE" "length ?Q = 2 * DMA_BLOCKSIZE" using PQ t by simp_all
  have vals: "?Q ! i = (if i div 8 = t then xor_list (dcol DP (Suc z0) i) else PQ ! i)"
    "?Q ! (DMA_BLOCKSIZE + i) = (if i div 8 = t then dq w DP z0 i else PQ ! (DMA_BLOCKSIZE + i))"
    if i: "i < DMA_BLOCKSIZE" for i
  proof -
    define k where "k = i - ?d"
    have k: "i = ?d + k \<and> k < 8" if "i div 8 = t" using that unfolding k_def by auto
    have p: "byte_of wp k = xor_list (dcol DP (Suc z0) i)" "byte_of wq k = dq w DP z0 i" if "i div 8 = t"
      using k [OF that] wp [of k] wq [of k] lanes [of k]
      by (auto simp: dcol_Suc dq_def xor.commute)
    show "?Q ! i = (if i div 8 = t then xor_list (dcol DP (Suc z0) i) else PQ ! i)"
      using p(1) k i PQ t lens
      by (auto simp: nth_overwrite nth_bytes_of_word div8_iff k_def)
    show "?Q ! (DMA_BLOCKSIZE + i) = (if i div 8 = t then dq w DP z0 i else PQ ! (DMA_BLOCKSIZE + i))"
      using p(2) k i PQ t lens
      by (auto simp: nth_overwrite nth_bytes_of_word div8_iff k_def)
  qed
  show ?thesis using run lens vals by blast
qed

lemma run_grid_writes:
  assumes DP: "Suc z0 * DMA_BLOCKSIZE \<le> length DP" and PQ: "length PQ = 2 * DMA_BLOCKSIZE"
    and ts: "\<forall>t \<in> set ts. t * 8 + 8 \<le> DMA_BLOCKSIZE"
  shows "\<exists>PQ'. run_grid DP (int z0) w ts PQ = Some PQ' \<and> length PQ' = 2 * DMA_BLOCKSIZE \<and>
    (\<forall>i < DMA_BLOCKSIZE. i div 8 \<in> set ts \<longrightarrow> PQ' ! i = xor_list (dcol DP (Suc z0) i) \<and> PQ' ! (DMA_BLOCKSIZE + i) = dq w DP z0 i) \<and>
    (\<forall>i < DMA_BLOCKSIZE. i div 8 \<notin> set ts \<longrightarrow> PQ' ! i = PQ ! i \<and> PQ' ! (DMA_BLOCKSIZE + i) = PQ ! (DMA_BLOCKSIZE + i))"
  using PQ ts
proof (induction ts arbitrary: PQ)
  case (Cons t ts)
  obtain PQ1 where 1: "syndrome_block DP (int z0) (w t) t PQ = Some PQ1" "length PQ1 = 2 * DMA_BLOCKSIZE"
    "\<forall>i < DMA_BLOCKSIZE. PQ1 ! i = (if i div 8 = t then xor_list (dcol DP (Suc z0) i) else PQ ! i) \<and>
       PQ1 ! (DMA_BLOCKSIZE + i) = (if i div 8 = t then dq w DP z0 i else PQ ! (DMA_BLOCKSIZE + i))"
    using syndrome_block_writes [OF DP Cons.prems(1)] Cons.prems(2) by (metis list.set_intros(1))
  obtain PQ2 where 2: "run_grid DP (int z0) w ts PQ1 = Some PQ2" "length PQ2 = 2 * DMA_BLOCKSIZE"
    "\<forall>i < DMA_BLOCKSIZE. i div 8 \<in> set ts \<longrightarrow> PQ2 ! i = xor_list (dcol DP (Suc z0) i) \<and> PQ2 ! (DMA_BLOCKSIZE + i) = dq w DP z0 i"
    "\<forall>i < DMA_BLOCKSIZE. i div 8 \<notin> set ts \<longrightarrow> PQ2 ! i = PQ1 ! i \<and> PQ2 ! (DMA_BLOCKSIZE + i) = PQ1 ! (DMA_BLOCKSIZE + i)"
    using Cons.IH [OF 1(2)] Cons.prems(2) by auto
  show ?case using 1 2 by (intro exI [of _ PQ2]) auto
qed simp

section \<open>What the copies compute\<close>

lemma c_nat_Some [simp]: "n < 2 ^ 31 \<Longrightarrow> c_nat n = Some n"
  by (simp add: c_nat_def)

lemma upload_copies:
  assumes st: "stripe m a ps (off + n)" and k: "k \<le> length ps" "k * DMA_BLOCKSIZE \<le> length dev" "n \<le> DMA_BLOCKSIZE"
    and off: "off < 2 ^ 31" and j: "j \<le> k"
  shows "\<exists>dev'. upload m a off n [j..<k] dev = Some dev' \<and> length dev' = length dev \<and>
    (\<forall>i < j * DMA_BLOCKSIZE. dev' ! i = dev ! i) \<and>
    (\<forall>z x. j \<le> z \<and> z < k \<and> x < n \<longrightarrow> dev' ! (z * DMA_BLOCKSIZE + x) = buf m (ps ! z) ! (off + x))"
  using j k(2)
proof (induction "k - j" arbitrary: j dev)
  case (Suc d)
  then have j: "j < k" by simp
  let ?ys = "take n (drop off (buf m (ps ! j)))"
  let ?dev = "overwrite dev (j * DMA_BLOCKSIZE) ?ys"
  have bs: "bytes_at m (ps ! j) = Some (buf m (ps ! j))" "off + n \<le> length (buf m (ps ! j))"
    using stripe_bytes_at(1,2) [OF st, of j] j k(1) by simp_all
  have fits: "Suc j * DMA_BLOCKSIZE \<le> length dev"
    using mult_le_mono1 [OF Suc_leI [OF j], of DMA_BLOCKSIZE] Suc.prems(2) by simp
  then have room: "j * DMA_BLOCKSIZE + n \<le> length dev" using k(3) by simp
  have ys: "length ?ys = n" using bs(2) by simp
  have "ptr_index m a (int j) = Some (ps ! j)" using stripe_ptr_index [OF st, of "int j"] j k(1) by simp
  then have step: "upload m a off n [j..<k] dev = upload m a off n [Suc j..<k] ?dev"
    using j off bs room by (simp add: upt_conv_Cons h2d_def read_bytes_def)
  have len: "length ?dev = length dev" using room ys by simp
  have d: "d = k - Suc j" and dl: "k * DMA_BLOCKSIZE \<le> length ?dev" using Suc.hyps(2) Suc.prems(2) len by simp_all
  obtain dev' where IH: "upload m a off n [Suc j..<k] ?dev = Some dev'" "length dev' = length dev"
    "\<forall>i < Suc j * DMA_BLOCKSIZE. dev' ! i = ?dev ! i"
    "\<forall>z x. Suc j \<le> z \<and> z < k \<and> x < n \<longrightarrow> dev' ! (z * DMA_BLOCKSIZE + x) = buf m (ps ! z) ! (off + x)"
    using Suc.hyps(1) [OF d Suc_leI [OF j] dl] unfolding len by blast
  have old: "dev' ! i = dev ! i" if "i < j * DMA_BLOCKSIZE" for i
    using IH(3) that room ys by (simp add: nth_overwrite)
  have new: "dev' ! (j * DMA_BLOCKSIZE + x) = buf m (ps ! j) ! (off + x)" if "x < n" for x
    using IH(3) that room ys k(3) bs(2) by (simp add: nth_overwrite)
  have "dev' ! (z * DMA_BLOCKSIZE + x) = buf m (ps ! z) ! (off + x)" if "j \<le> z" "z < k" "x < n" for z x
    using that new IH(4) by (cases "z = j") auto
  then show ?case unfolding step using IH(1,2) old by blast
qed auto

lemma upload_pair_split:
  assumes "upload m a (j * 2 * DMA_BLOCKSIZE) DMA_BLOCKSIZE is (DEVICE_DP_1 c) = Some dp1"
    and "upload m a (j * 2 * DMA_BLOCKSIZE + DMA_BLOCKSIZE) DMA_BLOCKSIZE is (DEVICE_DP_2 c) = Some dp2"
  shows "upload_pair m a j is c = Some (c\<lparr>DEVICE_DP_1 := dp1, DEVICE_DP_2 := dp2\<rparr>)"
  using assms
proof (induction "is" arbitrary: c)
  case (Cons i "is")
  then show ?case by (auto simp: bind_eq_Some_conv)
qed simp

text \<open>The state of the host after some blocks: the bytes in \<open>S\<close> have their parity, and what the kernel
  makes of them in \<open>Q\<close> (\<open>j\<close> is what the shared memory happened to contain); nothing else has changed.\<close>

definition cuda_q_byte :: "u8 \<Rightarrow> u8 list \<Rightarrow> u8" where
  "cuda_q_byte j ds = cuda_q j (butlast ds) (last ds)"

definition cuda_on :: "ptr list \<Rightarrow> nat set \<Rightarrow> mem \<Rightarrow> mem \<Rightarrow> bool" where
  "cuda_on ps S m m' \<longleftrightarrow>
     (let k = length ps - 2; p = ps ! k; q = ps ! (k + 1) in
      \<exists>pb qb. m' = m(p \<mapsto> Bytes pb, q \<mapsto> Bytes qb) \<and>
        length pb = length (buf m p) \<and> length qb = length (buf m q) \<and>
        (\<forall>i < length pb. pb ! i = (if i \<in> S then xor_list (column m ps k i) else buf m p ! i)) \<and>
        (\<forall>i < length qb. if i \<in> S then \<exists>j. qb ! i = cuda_q_byte j (column m ps k i) else qb ! i = buf m q ! i))"

lemma cuda_on_0:
  assumes "cuda_on ps S m m'"
  shows "raid6_encodes ps 0 m m'"
  using assms unfolding cuda_on_def raid6_encodes_def Let_def by auto

lemma cuda_on_stripe:
  assumes "stripe m a ps n" "cuda_on ps S m m'" "3 \<le> length ps"
  shows "stripe m' a ps n"
  by (rule raid6_encodes_stripe [OF assms(1) cuda_on_0 [OF assms(2)] assms(3)])

lemma cuda_on_buf:
  assumes "stripe m a ps n" "cuda_on ps S m m'" "z < length ps - 2"
  shows "buf m' (ps ! z) = buf m (ps ! z)"
  using raid6_encodes_buf [OF stripe_mono [OF assms(1)] cuda_on_0 [OF assms(2)] assms(3)] by simp

lemma cuda_on_refl:
  assumes "stripe m a ps n" "3 \<le> length ps"
  shows "cuda_on ps {} m m"
proof -
  let ?k = "length ps - 2"
  have k: "?k < length ps" "?k + 1 < length ps" using assms(2) by linarith+
  have "m (ps ! ?k) = Some (Bytes (buf m (ps ! ?k)))" "m (ps ! (?k + 1)) = Some (Bytes (buf m (ps ! (?k + 1))))"
    using bytes_at_SomeD [OF stripe_bytes_at(1) [OF assms(1) k(1)]] bytes_at_SomeD [OF stripe_bytes_at(1) [OF assms(1) k(2)]] by auto
  then have "m = m(ps ! ?k \<mapsto> Bytes (buf m (ps ! ?k)), ps ! (?k + 1) \<mapsto> Bytes (buf m (ps ! (?k + 1))))"
    by (auto simp: fun_eq_iff)
  then show ?thesis
    unfolding cuda_on_def Let_def
    by (intro exI [of _ "buf m (ps ! ?k)"] exI [of _ "buf m (ps ! (?k + 1))"]) simp
qed

text \<open>Copying one computed block back.\<close>

definition block_ok :: "mem \<Rightarrow> ptr list \<Rightarrow> nat \<Rightarrow> nat \<Rightarrow> u8 list \<Rightarrow> bool" where
  "block_ok m ps off n pq \<longleftrightarrow> length pq = 2 * DMA_BLOCKSIZE \<and> n \<le> DMA_BLOCKSIZE \<and>
     (\<forall>x < n. pq ! x = xor_list (column m ps (length ps - 2) (off + x)) \<and>
       (\<exists>j. pq ! (DMA_BLOCKSIZE + x) = cuda_q_byte j (column m ps (length ps - 2) (off + x))))"

lemma download_block:
  assumes st: "stripe m a ps bytes" and on: "cuda_on ps S m m'" and len: "3 \<le> length ps"
    and b: "block_ok m ps off n pq" and off: "off + n \<le> bytes" "off < 2 ^ 31"
  shows "\<exists>m''. download m' a (int (length ps)) off n pq = Some m'' \<and> cuda_on ps (S \<union> {off..<off + n}) m m''"
proof -
  let ?k = "length ps - 2" let ?p = "ps ! ?k" and ?q = "ps ! (?k + 1)"
  obtain pb qb where m': "m' = m(?p \<mapsto> Bytes pb, ?q \<mapsto> Bytes qb)"
    and l: "length pb = length (buf m ?p)" "length qb = length (buf m ?q)"
    and pb: "\<And>i. i < length pb \<Longrightarrow> pb ! i = (if i \<in> S then xor_list (column m ps ?k i) else buf m ?p ! i)"
    and qb: "\<And>i. i < length qb \<Longrightarrow> if i \<in> S then \<exists>j. qb ! i = cuda_q_byte j (column m ps ?k i) else qb ! i = buf m ?q ! i"
    using on unfolding cuda_on_def Let_def by blast
  have ne: "?p \<noteq> ?q" "?p \<noteq> null" "?q \<noteq> null" "?p \<noteq> a" "?q \<noteq> a"
    using stripe_distinct [OF st, of ?k "?k + 1"] stripe_bytes_at(3,4) [OF st] len by simp_all
  have k: "?k < length ps" "?k + 1 < length ps" using len by linarith+
  have dl: "off + n \<le> length pb" "off + n \<le> length qb"
    using stripe_bytes_at(2) [OF st k(1)] stripe_bytes_at(2) [OF st k(2)] off(1) unfolding l by simp_all
  have B: "length pq = 2 * DMA_BLOCKSIZE" "n \<le> DMA_BLOCKSIZE"
    and vp: "\<And>x. x < n \<Longrightarrow> pq ! x = xor_list (column m ps ?k (off + x))"
    and vq: "\<And>x. x < n \<Longrightarrow> \<exists>j. pq ! (DMA_BLOCKSIZE + x) = cuda_q_byte j (column m ps ?k (off + x))"
    using b unfolding block_ok_def by blast+
  let ?ys = "take n pq" and ?zs = "take n (drop DMA_BLOCKSIZE pq)"
  let ?pb = "overwrite pb off ?ys" and ?qb = "overwrite qb off ?zs"
  have yl: "length ?ys = n" "length ?zs = n" using B by simp_all
  have st': "stripe m' a ps bytes" by (rule cuda_on_stripe [OF st on len])
  have i2: "int (length ps) - 2 = int ?k" and i1: "int (length ps) - 1 = int (?k + 1)" using len by linarith+
  have ix: "ptr_index m' a (int (length ps) - 2) = Some ?p"
    unfolding i2 using stripe_ptr_index [OF st', of "int ?k"] k(1) by simp
  let ?m1 = "m(?p \<mapsto> Bytes ?pb, ?q \<mapsto> Bytes qb)"
  have "raid6_encodes ps 0 m ?m1"
    unfolding raid6_encodes_def Let_def using l dl yl by (intro exI [of _ ?pb] exI [of _ qb]) simp
  then have on1: "stripe ?m1 a ps bytes" by (rule raid6_encodes_stripe [OF st _ len])
  have iq: "ptr_index ?m1 a (int (length ps) - 1) = Some ?q"
    unfolding i1 using stripe_ptr_index [OF on1 of_nat_0_le_iff, of "?k + 1"] k(2) unfolding nat_int by blast
  have "bytes_at m' ?p = Some pb" "bytes_at ?m1 ?q = Some qb" using ne by (simp_all add: m')
  then have w: "d2h m' ?p off n 0 pq = Some ?m1" "d2h ?m1 ?q off n DMA_BLOCKSIZE pq = Some (m(?p \<mapsto> Bytes ?pb, ?q \<mapsto> Bytes ?qb))"
    using B dl yl ne by (simp_all add: d2h_def write_bytes_def m' fun_upd_twist)
  have run: "download m' a (int (length ps)) off n pq = Some (m(?p \<mapsto> Bytes ?pb, ?q \<mapsto> Bytes ?qb))"
    using ix iq w off(2) by (simp add: download_def)
  have P: "?pb ! i = (if i \<in> S \<union> {off..<off + n} then xor_list (column m ps ?k i) else buf m ?p ! i)" if "i < length pb" for i
    using that pb [OF that] vp [of "i - off"] dl(1) yl(1) B by (auto simp: nth_overwrite)
  have Q: "if i \<in> S \<union> {off..<off + n} then \<exists>j. ?qb ! i = cuda_q_byte j (column m ps ?k i) else ?qb ! i = buf m ?q ! i"
    if "i < length qb" for i
    using that qb [OF that] vq [of "i - off"] dl(2) yl(2) B by (auto simp: nth_overwrite split: if_splits)
  show ?thesis
    unfolding cuda_on_def Let_def using run P Q dl yl l
    by (intro exI [of _ "m(?p \<mapsto> Bytes ?pb, ?q \<mapsto> Bytes ?qb)"] conjI exI [of _ ?pb] exI [of _ ?qb]) simp_all
qed

text \<open>Uploading a block and running the kernel on it.\<close>

definition schedule :: "gpu \<Rightarrow> bool" where
  "schedule e \<longleftrightarrow> (\<forall>n. distinct (order e n) \<and> set (order e n) = {..<n})"

lemma column_dcol:
  assumes "\<forall>z x. z < k \<and> x < n \<longrightarrow> dev ! (z * DMA_BLOCKSIZE + x) = buf m (ps ! z) ! (off + x)" "x < n"
  shows "dcol dev k x = column m ps k (off + x)"
  using assms by (auto simp: dcol_def column_def)

lemma compute_block:
  assumes st: "stripe m a ps (off + n)" and len: "3 \<le> length ps" "(length ps - 2) * DMA_BLOCKSIZE \<le> length dev"
    and n: "n \<le> N * 8" "N * 8 \<le> DMA_BLOCKSIZE" and off: "off < 2 ^ 31" and PQ: "length PQ = 2 * DMA_BLOCKSIZE"
    and ts: "set ts = {..<N}"
  shows "\<exists>dev' pq. upload m a off n [0..<nat (int (length ps) - 2)] dev = Some dev' \<and> length dev' = length dev \<and>
    run_grid dev' (int (length ps) - 3) w ts PQ = Some pq \<and> block_ok m ps off n pq"
proof -
  let ?k = "length ps - 2" and ?z = "length ps - 3"
  have k: "nat (int (length ps) - 2) = ?k" "int (length ps) - 3 = int ?z" "?k = Suc ?z" "?k \<le> length ps" using len by linarith+
  have nd: "n \<le> DMA_BLOCKSIZE" using n by simp
  obtain dev' where up: "upload m a off n [0..<?k] dev = Some dev'" "length dev' = length dev"
    and data: "\<forall>z x. z < ?k \<and> x < n \<longrightarrow> dev' ! (z * DMA_BLOCKSIZE + x) = buf m (ps ! z) ! (off + x)"
    using upload_copies [OF st k(4) len(2) nd off, of 0] by auto
  have room: "Suc ?z * DMA_BLOCKSIZE \<le> length dev'" using len(2) up(2) unfolding k(3) by simp
  have bound: "\<forall>t \<in> set ts. t * 8 + 8 \<le> DMA_BLOCKSIZE" using ts n(2) by auto
  obtain pq where pq: "run_grid dev' (int ?z) w ts PQ = Some pq" "length pq = 2 * DMA_BLOCKSIZE"
    "\<forall>i < DMA_BLOCKSIZE. i div 8 \<in> set ts \<longrightarrow> pq ! i = xor_list (dcol dev' (Suc ?z) i) \<and> pq ! (DMA_BLOCKSIZE + i) = dq w dev' ?z i"
    using run_grid_writes [OF room PQ bound, of w] by blast
  have val: "pq ! x = xor_list (column m ps ?k (off + x)) \<and> (\<exists>j. pq ! (DMA_BLOCKSIZE + x) = cuda_q_byte j (column m ps ?k (off + x)))"
    if x: "x < n" for x
  proof -
    have "x div 8 \<in> set ts" "x < DMA_BLOCKSIZE" using x n unfolding ts by auto
    then have v: "pq ! x = xor_list (dcol dev' ?k x)" "pq ! (DMA_BLOCKSIZE + x) = dq w dev' ?z x" using pq(3) unfolding k(3) by auto
    have c: "dcol dev' ?k x = column m ps ?k (off + x)" by (rule column_dcol [OF data x])
    have "dq w dev' ?z x = cuda_q_byte (byte_of (w (x div 8)) (x mod 8)) (dcol dev' ?k x)"
      unfolding dq_def cuda_q_byte_def k(3) dcol_Suc by simp
    then show ?thesis using v unfolding c by metis
  qed
  show ?thesis
    unfolding k(1,2) block_ok_def using up pq(1,2) nd val by blast
qed

definition card_ok :: "card \<Rightarrow> bool" where
  "card_ok c \<longleftrightarrow> length (DEVICE_DP_1 c) = DMA_BLOCKSIZE * 256 \<and> length (DEVICE_PQ_1 c) = 2 * DMA_BLOCKSIZE \<and>
     length (DEVICE_DP_2 c) = DMA_BLOCKSIZE * 256 \<and> length (DEVICE_PQ_2 c) = 2 * DMA_BLOCKSIZE"

lemma block_ok_cong:
  assumes "stripe m a ps n'" "cuda_on ps S m m'"
  shows "block_ok m' ps off n pq = block_ok m ps off n pq"
proof -
  have "column m' ps (length ps - 2) i = column m ps (length ps - 2) i" for i
    using cuda_on_buf [OF assms] by (intro column_cong) simp
  then show ?thesis by (simp add: block_ok_def)
qed

lemma card_fits:
  assumes "length ps \<le> 258" "length dev = DMA_BLOCKSIZE * 256"
  shows "(length ps - 2) * DMA_BLOCKSIZE \<le> length dev"
proof -
  have "length ps - 2 \<le> 256" using assms(1) by linarith
  then show ?thesis using assms(2) mult_le_mono1 [of "length ps - 2" 256 DMA_BLOCKSIZE] by (simp only: mult.commute)
qed

lemma cuda_part_ok:
  assumes e: "schedule e" and st: "stripe m a ps bytes" and len: "3 \<le> length ps" "length ps \<le> 258"
    and on: "cuda_on ps S m m'" and c: "card_ok c" and off: "off + n \<le> bytes" "off < 2 ^ 31"
    and n: "n \<le> blocks * 2048" "blocks * 2048 \<le> DMA_BLOCKSIZE"
  shows "\<exists>c' m''. cuda_part e (int (length ps)) a off n blocks l (c, m') = Some (c', m'') \<and> card_ok c' \<and>
    cuda_on ps (S \<union> {off..<off + n}) m m''"
proof -
  have st': "stripe m' a ps (off + n)" by (rule stripe_mono [OF cuda_on_stripe [OF st on len(1)] off(1)])
  have ts: "set (order e (blocks * THREAD_BLOCKSIZE)) = {..<blocks * 256}" using e by (simp add: schedule_def THREAD_BLOCKSIZE_def)
  have N: "n \<le> blocks * 256 * 8" "blocks * 256 * 8 \<le> DMA_BLOCKSIZE" using n by simp_all
  have d: "length (DEVICE_DP_1 c) = DMA_BLOCKSIZE * 256" "length (DEVICE_PQ_1 c) = 2 * DMA_BLOCKSIZE" using c by (simp_all add: card_ok_def)
  obtain dp pq where b: "upload m' a off n [0..<nat (int (length ps) - 2)] (DEVICE_DP_1 c) = Some dp" "length dp = length (DEVICE_DP_1 c)"
    "run_grid dp (int (length ps) - 3) (shared e l) (order e (blocks * THREAD_BLOCKSIZE)) (DEVICE_PQ_1 c) = Some pq" "block_ok m' ps off n pq"
    using compute_block [OF st' len(1) card_fits [OF len(2) d(1)] N off(2) d(2) ts, of "shared e l"] by blast
  obtain m'' where "download m' a (int (length ps)) off n pq = Some m''" "cuda_on ps (S \<union> {off..<off + n}) m m''"
    using download_block [OF st on len(1) _ off] b(4) unfolding block_ok_cong [OF st on] by blast
  moreover have "length pq = 2 * DMA_BLOCKSIZE" using b(4) by (simp add: block_ok_def)
  ultimately show ?thesis using b(1-3) c by (simp add: cuda_part_def card_ok_def)
qed

lemma cuda_runs_ok:
  assumes e: "schedule e" and st: "stripe m a ps bytes" and len: "3 \<le> length ps" "length ps \<le> 258"
    and r: "r * 2 * DMA_BLOCKSIZE \<le> bytes" "bytes < 2 ^ 31" "j \<le> r"
    and on: "cuda_on ps {0..<j * 2 * DMA_BLOCKSIZE} m m'" and c: "card_ok c"
  shows "\<exists>c' m''. cuda_runs e (int (length ps)) a [j..<r] l (c, m') = Some (c', m'') \<and> card_ok c' \<and>
    cuda_on ps {0..<r * 2 * DMA_BLOCKSIZE} m m''"
  using r(3) on c
proof (induction "r - j" arbitrary: j m' c l)
  case 0
  then show ?case by simp
next
  case (Suc d)
  then have j: "j < r" by simp
  let ?off = "j * 2 * DMA_BLOCKSIZE" and ?n = DMA_BLOCKSIZE
  have "Suc j * 2 * ?n \<le> r * 2 * ?n" by (intro mult_le_mono1 Suc_leI j)
  then have off: "?off + ?n + ?n \<le> bytes" using r(1) by simp
  have B: "?n div (THREAD_BLOCKSIZE * 8) * THREAD_BLOCKSIZE = 65536" "(65536 :: nat) * 8 = ?n" "0 < ?n"
    by (simp_all add: THREAD_BLOCKSIZE_def DMA_BLOCKSIZE_def)
  have ts: "set (order e 65536) = {..<65536}" using e by (simp add: schedule_def)
  have st': "stripe m' a ps bytes" by (rule cuda_on_stripe [OF st Suc.prems(2) len(1)])
  have cd: "length (DEVICE_DP_1 c) = ?n * 256" "length (DEVICE_PQ_1 c) = 2 * ?n" "length (DEVICE_DP_2 c) = ?n * 256" "length (DEVICE_PQ_2 c) = 2 * ?n"
    using Suc.prems(3) by (simp_all add: card_ok_def)
  have N: "?n \<le> 65536 * 8" "65536 * 8 \<le> ?n" using B(2) by simp_all
  have s1: "stripe m' a ps (?off + ?n)" "stripe m' a ps (?off + ?n + ?n)" using off by (auto intro: stripe_mono [OF st'])
  have o: "?off < 2 ^ 31" "?off + ?n < 2 ^ 31" using off r(2) B(3) by linarith+
  obtain dp1 pq1 where b1: "upload m' a ?off ?n [0..<nat (int (length ps) - 2)] (DEVICE_DP_1 c) = Some dp1" "length dp1 = length (DEVICE_DP_1 c)"
    "run_grid dp1 (int (length ps) - 3) (shared e l) (order e 65536) (DEVICE_PQ_1 c) = Some pq1" "block_ok m' ps ?off ?n pq1"
    using compute_block [OF s1(1) len(1) card_fits [OF len(2) cd(1)] N o(1) cd(2) ts, of "shared e l"] by blast
  obtain dp2 pq2 where b2: "upload m' a (?off + ?n) ?n [0..<nat (int (length ps) - 2)] (DEVICE_DP_2 c) = Some dp2" "length dp2 = length (DEVICE_DP_2 c)"
    "run_grid dp2 (int (length ps) - 3) (shared e (Suc l)) (order e 65536) (DEVICE_PQ_2 c) = Some pq2" "block_ok m' ps (?off + ?n) ?n pq2"
    using compute_block [OF s1(2) len(1) card_fits [OF len(2) cd(3)] N o(2) cd(4) ts, of "shared e (Suc l)"] by blast
  note ok = b1(4) [unfolded block_ok_cong [OF st Suc.prems(2)]] b2(4) [unfolded block_ok_cong [OF st Suc.prems(2)]]
  have off1: "?off + ?n \<le> bytes" using off by simp
  obtain m1 where m1: "download m' a (int (length ps)) ?off ?n pq1 = Some m1" "cuda_on ps ({0..<?off} \<union> {?off..<?off + ?n}) m m1"
    using download_block [OF st Suc.prems(2) len(1) ok(1) off1 o(1)] by blast
  obtain m2 where m2: "download m1 a (int (length ps)) (?off + ?n) ?n pq2 = Some m2"
    "cuda_on ps ({0..<?off} \<union> {?off..<?off + ?n} \<union> {?off + ?n..<?off + ?n + ?n}) m m2"
    using download_block [OF st m1(2) len(1) ok(2) off o(2)] by blast
  have "{0..<?off} \<union> {?off..<?off + ?n} \<union> {?off + ?n..<?off + ?n + ?n} = {0..<Suc j * 2 * ?n}" by auto
  then have on2: "cuda_on ps {0..<Suc j * 2 * ?n} m m2" using m2(2) by simp
  let ?c = "c\<lparr>DEVICE_DP_1 := dp1, DEVICE_DP_2 := dp2, DEVICE_PQ_1 := pq1, DEVICE_PQ_2 := pq2\<rparr>"
  have c2: "card_ok ?c" using cd b1(2) b2(2) ok by (simp add: card_ok_def block_ok_def)
  have step: "cuda_runs e (int (length ps)) a [j..<r] l (c, m') = cuda_runs e (int (length ps)) a [Suc j..<r] (l + 2) (?c, m2)"
    using j upload_pair_split [OF b1(1) b2(1)] b1(3) b2(3) m1(1) m2(1) by (simp add: upt_conv_Cons B(1))
  show ?case unfolding step by (rule Suc.hyps(1) [OF _ _ on2 c2]) (use Suc.hyps(2) j in simp_all)
qed

section \<open>The encoder\<close>

text \<open>How far the parity of a call gets: a rest of less than a block behind at least one pair of
  blocks is copied from and to the wrong place.\<close>

definition cuda_covered :: "nat \<Rightarrow> nat" where
  "cuda_covered bytes =
     (let r = bytes div (DMA_BLOCKSIZE * 2); c = bytes - r * 2 * DMA_BLOCKSIZE in
      if 0 < r \<and> 0 < c \<and> c < DMA_BLOCKSIZE then r * 2 * DMA_BLOCKSIZE else bytes)"

lemma cuda_part_rest:
  assumes e: "schedule e" and st: "stripe m a ps bytes" and len: "3 \<le> length ps" "length ps \<le> 258"
    and on: "cuda_on ps S m m'" and c: "card_ok c" and off: "off + n \<le> bytes" "off < 2 ^ 31" and n: "n < DMA_BLOCKSIZE"
  shows "\<exists>c' m''. cuda_part e (int (length ps)) a off n (n div (THREAD_BLOCKSIZE * 8) + 1) l (c, m') = Some (c', m'') \<and>
    card_ok c' \<and> cuda_on ps (S \<union> {off..<off + n}) m m''"
proof -
  have "n \<le> (n div 2048 + 1) * 2048" using div_mult_mod_eq [of n 2048] mod_less_divisor [of 2048 n] by simp
  moreover have "(n div 2048 + 1) * 2048 \<le> DMA_BLOCKSIZE"
  proof -
    have "n div 2048 < 256" using n by (simp add: DMA_BLOCKSIZE_def)
    then have "n div 2048 + 1 \<le> 256" by simp
    then show ?thesis using mult_le_mono1 [of "n div 2048 + 1" 256 2048] by (simp add: DMA_BLOCKSIZE_def)
  qed
  ultimately show ?thesis
    using cuda_part_ok [OF e st len on c off, of "n div 2048 + 1" l] by (simp add: THREAD_BLOCKSIZE_def)
qed

lemma cuda_copy_ok:
  assumes e: "schedule e" and st: "stripe m a ps bytes" "bytes < 2 ^ 31" and len: "3 \<le> length ps" "length ps \<le> 258" and c: "card_ok c"
  shows "\<exists>l' c' m'. cuda_copy e (int (length ps)) bytes a l (c, m) = Some (l', c', m') \<and> card_ok c' \<and>
    cuda_on ps {0..<cuda_covered bytes} m m'"
proof -
  let ?n = DMA_BLOCKSIZE
  define r where "r = bytes div (?n * 2)"
  define carry where "carry = bytes - r * 2 * ?n"
  have n: "0 < ?n" by (simp add: DMA_BLOCKSIZE_def)
  have sum: "bytes = r * 2 * ?n + carry" "carry < 2 * ?n"
    using div_mult_mod_eq [of bytes "?n * 2"] mod_less_divisor [of "?n * 2" bytes] n
    unfolding carry_def r_def [symmetric] mult.assoc mult.commute [of 2] by linarith+
  have r: "r * 2 * ?n \<le> bytes" using sum(1) by simp
  obtain c1 m1 where 1: "cuda_runs e (int (length ps)) a [0..<r] l (c, m) = Some (c1, m1)" "card_ok c1" "cuda_on ps {0..<r * 2 * ?n} m m1"
    using cuda_runs_ok [OF e st(1) len r st(2), of 0 m c l] cuda_on_refl [OF st(1) len(1)] c by auto
  show ?thesis
  proof (cases "?n \<le> carry")
    case True
    have whole: "?n \<le> (?n div (THREAD_BLOCKSIZE * 8)) * 2048" "(?n div (THREAD_BLOCKSIZE * 8)) * 2048 \<le> ?n"
      by (simp_all add: THREAD_BLOCKSIZE_def DMA_BLOCKSIZE_def)
    have o1: "r * 2 * ?n + ?n \<le> bytes" and o2: "r * 2 * ?n < 2 ^ 31" using sum True st(2) n by linarith+
    obtain c2 m2 where 2: "cuda_part e (int (length ps)) a (r * 2 * ?n) ?n (?n div (THREAD_BLOCKSIZE * 8)) (l + 2 * r) (c1, m1) = Some (c2, m2)"
      "card_ok c2" "cuda_on ps ({0..<r * 2 * ?n} \<union> {r * 2 * ?n..<r * 2 * ?n + ?n}) m m2"
      using cuda_part_ok [OF e st(1) len 1(3,2) o1 o2 whole, of "l + 2 * r"] by blast
    have 3: "(r * 2 + 1) * ?n = r * 2 * ?n + ?n" by simp
    have off: "(r * 2 + 1) * ?n + (carry - ?n) \<le> bytes" "(r * 2 + 1) * ?n < 2 ^ 31" "carry - ?n < ?n"
      unfolding 3 using sum True st(2) n by linarith+
    have cov: "cuda_covered bytes = bytes" using True unfolding cuda_covered_def Let_def r_def [symmetric] carry_def [symmetric] by simp
    have S: "{0..<r * 2 * ?n} \<union> {r * 2 * ?n..<r * 2 * ?n + ?n} \<union> {(r * 2 + 1) * ?n..<(r * 2 + 1) * ?n + (carry - ?n)} = {0..<bytes}"
      unfolding 3 using sum True by auto
    show ?thesis
    proof (cases "carry - ?n = 0")
      case True
      then have "{0..<r * 2 * ?n} \<union> {r * 2 * ?n..<r * 2 * ?n + ?n} = {0..<bytes}" using S by simp
      then show ?thesis
        using 1(1) 2 True \<open>?n \<le> carry\<close> unfolding cuda_copy_def Let_def r_def [symmetric] carry_def [symmetric] cov by simp
    next
      case False
      then show ?thesis
        using 1(1) 2 cuda_part_rest [OF e st(1) len 2(3,2) off, of "Suc (l + 2 * r)"] \<open>?n \<le> carry\<close> S
        unfolding cuda_copy_def Let_def r_def [symmetric] carry_def [symmetric] cov by auto
    qed
  next
    case False
    have le: "r * ?n \<le> r * 2 * ?n" by simp
    have off: "r * ?n + carry \<le> bytes" "r * ?n < 2 ^ 31" "carry < ?n" using le sum False st(2) n by linarith+
    have ge: "r * ?n + carry \<le> r * 2 * ?n" if r0: "0 < r"
    proof -
      obtain r' where "r = Suc r'" using r0 by (cases r) auto
      then show ?thesis using off(3) by simp
    qed
    have "{0..<r * 2 * ?n} \<union> {r * ?n..<r * ?n + carry} = {0..<r * 2 * ?n}" if "0 < r"
      by (rule Un_absorb2) (use ge [OF that] in \<open>simp only: ivl_subset, blast\<close>)
    moreover have "cuda_covered bytes = (if 0 < r \<and> 0 < carry then r * 2 * ?n else bytes)"
      unfolding cuda_covered_def Let_def r_def [symmetric] carry_def [symmetric] using False by simp
    ultimately have S: "{0..<r * 2 * ?n} \<union> {r * ?n..<r * ?n + carry} = {0..<cuda_covered bytes}"
      using sum by (cases "r = 0"; cases "carry = 0") simp_all
    show ?thesis
    proof (cases "carry = 0")
      case True
      then show ?thesis
        using 1 S n unfolding cuda_copy_def Let_def r_def [symmetric] carry_def [symmetric] by simp
    next
      case carry: False
      then show ?thesis
        using 1(1) cuda_part_rest [OF e st(1) len 1(3,2) off, of "l + 2 * r"] False S
        unfolding cuda_copy_def Let_def r_def [symmetric] carry_def [symmetric] by auto
    qed
  qed
qed

text \<open>The state of the encoder between calls, \<open>a\<close> being the pointer array it works on.\<close>

definition cuda_ready :: "gpu \<Rightarrow> ptr \<Rightarrow> cuda_state \<Rightarrow> bool" where
  "cuda_ready e a s \<longleftrightarrow> (case static_dptrs s of None \<Rightarrow> mem_tag s = 0 | Some b \<Rightarrow> b = a) \<and>
     (if mem_tag s = 0 then device_ok e else \<exists>c. cards s = Some c \<and> card_ok c)"

lemma cuda_run:
  assumes e: "schedule e" and st: "stripe m a ps bytes" "bytes < 2 ^ 31" and len: "3 \<le> length ps" "length ps \<le> 258"
    and s: "cuda_ready e a s" and arg: "static_dptrs s = None \<longrightarrow> ptrs = a"
  shows "\<exists>s' m'. raid6_cuda_gen_syndrome e (int (length ps)) bytes ptrs (s, m) = Some (Inr (s', m')) \<and>
    cuda_ready e a s' \<and> static_dptrs s' = Some a \<and> cuda_on ps {0..<cuda_covered bytes} m m'"
proof -
  let ?s = "s\<lparr>static_dptrs := Some a\<rparr>"
  have a: "(case static_dptrs s of None \<Rightarrow> ptrs | Some b \<Rightarrow> b) = a" using s arg by (auto simp: cuda_ready_def split: option.splits)
  obtain s1 c where s1: "get_card_mem e ?s = Inr s1" "cards s1 = Some c" "card_ok c" "mem_tag s1 \<noteq> 0" "static_dptrs s1 = Some a"
    using s by (cases "mem_tag s = 0") (auto simp: cuda_ready_def get_card_mem_def card_ok_def)
  obtain l' c' m' where "cuda_copy e (int (length ps)) bytes a (launches s1) (c, m) = Some (l', c', m')" "card_ok c'"
    "cuda_on ps {0..<cuda_covered bytes} m m'"
    using cuda_copy_ok [OF e st len s1(3)] by blast
  then show ?thesis
    using s1 unfolding raid6_cuda_gen_syndrome_def raid6_cuda_gen_syndrome_synccopy_def
    by (simp add: a cuda_ready_def)
qed

section \<open>Properties\<close>

text \<open>C11. The CUDA encoder, for every order of the threads and every content of the card, terminates
  without an invalid access on 3 to 258 disks, writes the parity of the first
  \<open>cuda_covered bytes\<close> bytes, in \<open>Q\<close> some value of the kernel, and leaves the data disks and all
  other memory alone; the bytes from \<open>cuda_covered bytes\<close> on keep their old content. It works on the
  pointer array of its first call, whatever array later calls pass.\<close>

theorem cuda_writes_parity:
  assumes "schedule e" "stripe m a ps bytes" "bytes < 2 ^ 31" "3 \<le> length ps" "length ps \<le> 258"
    and "cuda_ready e a s" "static_dptrs s = None \<longrightarrow> ptrs = a"
  shows "\<exists>s' m'. raid6_cuda_gen_syndrome e (int (length ps)) bytes ptrs (s, m) = Some (Inr (s', m')) \<and>
    cuda_ready e a s' \<and> static_dptrs s' = Some a \<and> cuda_on ps {0..<cuda_covered bytes} m m'"
  by (rule cuda_run [OF assms])

definition sample_gpu :: gpu where
  "sample_gpu = \<lparr>device_ok = True, device_fill = \<lambda>k i. 0xaa, order = \<lambda>n. rev [0..<n], shared = \<lambda>l t. 0x55\<rparr>"

definition cuda_start :: cuda_state where
  "cuda_start = \<lparr>mem_tag = 0, cards = None, static_dptrs = None, launches = 0\<rparr>"

definition sample_cuda_mem :: mem where
  "sample_cuda_mem = [1 \<mapsto> Ptrs [2, 3, 4, 5], 2 \<mapsto> Bytes [7, 8], 3 \<mapsto> Bytes [1, 1], 4 \<mapsto> Bytes [0, 0], 5 \<mapsto> Bytes [0, 0]]"

lemma sample_cuda:
  "schedule sample_gpu" "stripe sample_cuda_mem 1 [2, 3, 4, 5] 2" "cuda_ready sample_gpu 1 cuda_start" "cuda_covered 2 = 2"
  by (simp_all add: schedule_def sample_gpu_def lessThan_atLeast0 stripe_def sample_cuda_mem_def ptrs_at_def bytes_at_def
      obj_at_def cuda_ready_def cuda_start_def cuda_covered_def DMA_BLOCKSIZE_def)

theorem cuda_writes_parity_witness:
  "\<exists>s' m'. raid6_cuda_gen_syndrome sample_gpu 4 2 1 (cuda_start, sample_cuda_mem) = Some (Inr (s', m')) \<and>
     buf m' 4 = [6, 9] \<and> buf m' 2 = [7, 8]"
proof -
  let ?ps = "[2, 3, 4, 5] :: ptr list"
  have pre: "(2 :: nat) < 2 ^ 31" "3 \<le> length ?ps" "length ?ps \<le> 258" "static_dptrs cuda_start = None \<longrightarrow> 1 = (1 :: ptr)" by simp_all
  obtain s' m' where r: "raid6_cuda_gen_syndrome sample_gpu (int (length ?ps)) 2 1 (cuda_start, sample_cuda_mem) = Some (Inr (s', m'))"
    "cuda_on ?ps {0..<cuda_covered 2} sample_cuda_mem m'"
    using cuda_writes_parity [OF sample_cuda(1,2) pre(1-3) sample_cuda(3) pre(4)] by blast
  have b: "buf sample_cuda_mem 2 = [7, 8]" "buf sample_cuda_mem 3 = [1, 1]" "length (buf sample_cuda_mem 4) = 2"
    by (simp_all add: buf_def bytes_at_def obj_at_def sample_cuda_mem_def)
  have k: "length ?ps - 2 = 2" "?ps ! 2 = 4" "?ps ! (2 + 1) = 5" by simp_all
  obtain pb qb where m': "m' = sample_cuda_mem(4 \<mapsto> Bytes pb, 5 \<mapsto> Bytes qb)" "length pb = 2"
    "\<forall>i < length pb. pb ! i = (if i \<in> {0..<2} then xor_list (column sample_cuda_mem ?ps 2 i) else buf sample_cuda_mem 4 ! i)"
    using r(2) b(3) unfolding cuda_on_def Let_def sample_cuda(4) k by auto
  have "pb ! 0 = 6" "pb ! 1 = 9" using m'(2,3) b by (simp_all add: column_def upt_rec)
  then have "pb = [6, 9]" using m'(2) by (auto simp: length_Suc_conv numeral_2_eq_2)
  then show ?thesis using r(1) m'(1) b by simp
qed

text \<open>The kernel takes the mask of \<open>wq0\<close> in place and never assigns \<open>w20\<close>.\<close>

lemma not_bit_1_0x1d: "j AND (0x1d :: u8) \<noteq> 2"
proof
  assume "j AND (0x1d :: u8) = 2"
  then have "bit (j AND 0x1d) 1 = bit (2 :: u8) 1" by simp
  then show False by (simp add: bit_and_iff bit_numeral_rec)
qed

lemma cuda_q_byte_two: "cuda_q_byte j [d, 1] \<noteq> q_byte [d, 1]"
proof
  assume eq: "cuda_q_byte j [d, 1] = q_byte [d, 1]"
  have "cuda_q_byte j [d, 1] = (j AND 0x1d) XOR d" by (simp add: cuda_q_byte_def cuda_q_def cuda_step_def bit_1_iff)
  moreover have "q_byte [d, 1] = 2 XOR d" by (simp add: q_byte_def gf_double_def bit_1_iff)
  ultimately have "((j AND 0x1d) XOR d) XOR d = (2 XOR d) XOR d" using eq by simp
  then have "j AND 0x1d = 2" by (simp add: xor.assoc)
  then show False using not_bit_1_0x1d by blast
qed

text \<open>The second check disk of the CUDA encoder is wrong: with two data disks, a byte 1 on the second
  never gets its Reed-Solomon syndrome, whatever the shared memory contains and in whatever order
  the threads run.\<close>

theorem cuda_syndrome_wrong:
  assumes "schedule e" "stripe m a ps bytes" "bytes < 2 ^ 31" "length ps = 4" "cuda_ready e a s" "static_dptrs s = None \<longrightarrow> ptrs = a"
    and "raid6_cuda_gen_syndrome e 4 bytes ptrs (s, m) = Some (Inr (s', m'))"
    and "i < cuda_covered bytes" "buf m (ps ! 1) ! i = 1"
  shows "buf m' (ps ! 3) ! i \<noteq> q_byte (column m ps 2 i)"
proof -
  have on: "cuda_on ps {0..<cuda_covered bytes} m m'"
    using cuda_run [OF assms(1-3) _ _ assms(5,6)] assms(4,7) by auto
  have k: "length ps - 2 = 2" "(2 :: nat) + 1 = 3" using assms(4) by simp_all
  have q: "3 < length ps" using assms(4) by simp
  have nn: "ps ! 3 \<noteq> null" "ps ! 2 \<noteq> ps ! 3"
    using stripe_bytes_at(3) [OF assms(2) q] stripe_distinct [OF assms(2), of 2 3] assms(4) by simp_all
  obtain pb qb where m': "m' = m(ps ! 2 \<mapsto> Bytes pb, ps ! 3 \<mapsto> Bytes qb)" "length qb = length (buf m (ps ! 3))"
    "\<forall>i < length qb. if i \<in> {0..<cuda_covered bytes} then \<exists>j. qb ! i = cuda_q_byte j (column m ps 2 i) else qb ! i = buf m (ps ! 3) ! i"
    using on unfolding cuda_on_def Let_def k by blast
  have "cuda_covered bytes \<le> bytes" unfolding cuda_covered_def Let_def by (auto simp: mult.assoc mult.commute [of 2])
  then have "i < length qb" using assms(8) stripe_bytes_at(2) [OF assms(2) q] m'(2) by simp
  then obtain j where "qb ! i = cuda_q_byte j (column m ps 2 i)" using m'(3) assms(8) by fastforce
  moreover have "column m ps 2 i = [buf m (ps ! 0) ! i, 1]" using assms(9) by (simp add: column_def upt_rec)
  ultimately show ?thesis using cuda_q_byte_two m'(1) nn by simp
qed

theorem cuda_syndrome_wrong_witness:
  "\<exists>s' m'. raid6_cuda_gen_syndrome sample_gpu 4 2 1 (cuda_start, sample_cuda_mem) = Some (Inr (s', m')) \<and>
     buf m' 5 ! 0 \<noteq> q_byte [7, 1]"
proof -
  let ?ps = "[2, 3, 4, 5] :: ptr list"
  have pre: "(2 :: nat) < 2 ^ 31" "3 \<le> length ?ps" "length ?ps \<le> 258" "length ?ps = 4"
    "static_dptrs cuda_start = None \<longrightarrow> 1 = (1 :: ptr)" by simp_all
  have b: "buf sample_cuda_mem 2 = [7, 8]" "buf sample_cuda_mem 3 = [1, 1]"
    by (simp_all add: buf_def bytes_at_def obj_at_def sample_cuda_mem_def)
  obtain s' m' where r: "raid6_cuda_gen_syndrome sample_gpu 4 2 1 (cuda_start, sample_cuda_mem) = Some (Inr (s', m'))"
    using cuda_run [OF sample_cuda(1,2) pre(1-3) sample_cuda(3) pre(5)] by auto
  have "buf m' (?ps ! 3) ! 0 \<noteq> q_byte (column sample_cuda_mem ?ps 2 0)"
    by (rule cuda_syndrome_wrong [OF sample_cuda(1,2) pre(1,4) sample_cuda(3) pre(5) r]) (simp_all add: sample_cuda(4) b)
  then show ?thesis using r b by (simp add: column_def upt_rec)
qed

section \<open>The encoder under the validator\<close>

text \<open>The encoder as the validator and the driver call it first, from the state \<open>s\<close>.\<close>

definition cuda_gen :: "gpu \<Rightarrow> cuda_state \<Rightarrow> syndrome_func" where
  "cuda_gen e s disks bytes ptrs m = (case raid6_cuda_gen_syndrome e disks bytes ptrs (s, m) of
     Some (Inr (s', m')) \<Rightarrow> Some m' | _ \<Rightarrow> None)"

lemma low_bits: "\<not> bit (j AND (0x1d :: u8)) 7"
  by (simp add: bit_and_iff bit_numeral_rec)

lemma cuda_q_validator: "cuda_q_byte j [0, 1, 2, 3, 4] = j AND 0x1d"
proof -
  have s: "cuda_step j b = j AND 0x1d" if "\<not> bit b 7" for b using that by (simp add: cuda_step_def)
  have b: "\<not> bit ((j AND 0x1d) XOR d) 7" if "\<not> bit d 7" for d using that low_bits by (simp add: bit_xor_iff)
  have n: "\<not> bit (4 :: u8) 7" "\<not> bit (3 :: u8) 7" "\<not> bit (2 :: u8) 7" "\<not> bit (1 :: u8) 7" by (simp_all add: bit_numeral_rec bit_1_iff)
  show ?thesis
    by (simp add: cuda_q_byte_def cuda_q_def s [OF n(1)] s [OF b [OF n(2)]] s [OF b [OF n(3)]] s [OF b [OF n(4)]])
qed

lemma validator_data: "map of_nat [0..<5] = [0, 1, 2, 3, 4 :: u8]"
  by (simp add: upt_rec)

lemma validator_Q_0: "validator_Q ! 0 = 0x52"
proof -
  have "validator_Q ! 0 = q_byte [0, 1, 2, 3, 4]" unfolding validator_Q_def validator_data by (rule nth_replicate) simp
  also have "\<dots> = 0x52" by (simp add: q_byte_def gf_double_def bit_numeral_rec bit_1_iff)
  finally show ?thesis .
qed

lemma cuda_not_validator_Q: "cuda_q_byte j [0, 1, 2, 3, 4] \<noteq> validator_Q ! 0"
proof
  assume "cuda_q_byte j [0, 1, 2, 3, 4] = validator_Q ! 0"
  then have "bit (j AND 0x1d) 1 = bit (0x52 :: u8) 1" unfolding cuda_q_validator validator_Q_0 by simp
  then show False by (simp add: bit_and_iff bit_numeral_rec)
qed

lemma cuda_rejected:
  assumes e: "schedule e" "device_ok e" and s: "static_dptrs s = None" "mem_tag s = 0"
    and al: "\<forall>p. avail al p" "0 < h_next h"
  shows "\<exists>h'. validate_implemenataion al (cuda_gen e s) (raid6_vanilla_gen_syndrome # gs) h = Some (EXIT_FAILURE, h')"
proof -
  define a M where aM: "a = h_next h" "M = validator_mem al h"
  define M1 where M1: "M1 = M(a + 6 \<mapsto> Bytes validator_P, a + 7 \<mapsto> Bytes validator_Q)"
  note first = validator_first [OF al aM M1]
  let ?ps = "stripe7 (a + 8)"
  have pre: "(512 :: nat) < 2 ^ 31" "3 \<le> length ?ps" "length ?ps \<le> 258" "cuda_ready e (a + 8) s" "static_dptrs s = None \<longrightarrow> a + 8 = a + 8"
    using e s by (simp_all add: cuda_ready_def)
  obtain s' m' where r: "raid6_cuda_gen_syndrome e (int (length ?ps)) 512 (a + 8) (s, M1) = Some (Inr (s', m'))"
    and on: "cuda_on ?ps {0..<cuda_covered 512} M1 m'"
    using cuda_run [OF e(1) first(2) pre] by blast
  have buf: "buf M1 (?ps ! i) = replicate 512 (of_nat i)" if "i < 7" for i
    using first(3) [OF that] stripe7_nth [OF that, of "a + 8"] by (simp add: buf_def)
  have cov: "cuda_covered 512 = 512" by (simp add: cuda_covered_def DMA_BLOCKSIZE_def)
  have ix: "length ?ps - 2 = 5" "?ps ! 5 = a + 14" "?ps ! (5 + 1) = a + 15"
    using stripe7_nth [of 5 "a + 8"] stripe7_nth [of "5 + 1" "a + 8"] by (simp_all add: add.commute)
  obtain pb qb where m': "m' = M1(a + 14 \<mapsto> Bytes pb, a + 15 \<mapsto> Bytes qb)" "length pb = 512" "length qb = 512"
    "\<forall>i < length qb. if i \<in> {0..<512} then \<exists>j. qb ! i = cuda_q_byte j (column M1 ?ps 5 i) else qb ! i = buf M1 (a + 15) ! i"
    using on buf [of 5] buf [of "5 + 1"] unfolding cuda_on_def Let_def ix cov by auto
  have "column M1 ?ps 5 0 = [0, 1, 2, 3, 4]" using buf unfolding column_def by (simp add: upt_rec)
  then obtain j where "qb ! 0 = cuda_q_byte j [0, 1, 2, 3, 4]" using m'(3,4) by fastforce
  then have "validator_Q \<noteq> qb" using cuda_not_validator_Q by metis
  moreover have "cuda_gen e s 7 512 (a + 8) M1 = Some (M1(a + 14 \<mapsto> Bytes pb, a + 15 \<mapsto> Bytes qb))"
    using r m'(1) by (simp add: cuda_gen_def)
  ultimately show ?thesis using validate_vanilla [OF al aM M1, of "cuda_gen e s" pb qb] m'(2,3) by fastforce
qed

end
