(* ===== verification/Proto_Mmap.thy ===== *)
theory Proto_Mmap
  imports Host_Service User_Marshal
begin

unbundle bit_operations_syntax

text \<open>
  The prototype \<open>prototypes/mmap_example\<close>, which precedes the module and the daemon: the kernel
  module \<open>ping.c\<close> offers one request of seven disks through \<open>mmap\<close>, the program \<open>pong.c\<close> maps it, lets
  eight processes overwrite the disks and unmaps it.

  A shared mapping aliases the buffer of the module, as in \<open>User_Marshal\<close>. The processes that
  \<open>fork\<close> creates work on the shared buffers; \<open>run_stores\<close> executes their stores in the order of a given
  interleaving. The disks and bytes of the container are read from the mapped page.
\<close>

record ping =
  p_heap :: heap
  p_dptrs :: ptr
  p_snc :: "syndrome_container option"
  p_smcs :: nat
  p_chrdev :: bool

section \<open>The module: mapping\<close>

function ping_map_vmem_loop :: "mm_api \<Rightarrow> u64 \<Rightarrow> u64 \<Rightarrow> int \<Rightarrow> mapping list \<Rightarrow> int \<times> mapping list" where
  "ping_map_vmem_loop api start data len acc =
     (if 0 < len then
        let pfn = vmalloc_to_pfn api data;
            ret = remap_pfn_range api start pfn (int PAGE_SIZE) in
        if ret < 0 then (ret, acc)
        else ping_map_vmem_loop api (start + of_nat PAGE_SIZE) (data + of_nat PAGE_SIZE) (len - int PAGE_SIZE)
               (acc @ [(start, pfn, int PAGE_SIZE)])
      else (0, acc))"
  by pat_completeness auto
termination
  by (relation "measure (\<lambda>(api, start, data, len, acc). nat len)") (auto simp: PAGE_SIZE_def)

declare ping_map_vmem_loop.simps [simp del]

definition ping_map_vmem :: "mm_api \<Rightarrow> vma \<Rightarrow> u64 \<Rightarrow> int \<times> mapping list" where
  "ping_map_vmem api v data = ping_map_vmem_loop api (vm_start v) data (vma_length v) []"

definition ping_map_kmem :: "mm_api \<Rightarrow> vma \<Rightarrow> u64 \<Rightarrow> int \<times> mapping list" where
  "ping_map_kmem api v data = (let len = vma_length v; start = vm_start v in
     if len > int (16 * PAGE_SIZE) then (- EIO, [])
     else let pfn = drop_bit PAGE_SHIFT (virt_to_phys api data);
              ret = remap_pfn_range api start pfn len in
       if ret < 0 then (ret, []) else (0, [(start, pfn, len)]))"

definition ping_map_mem :: "mm_api \<Rightarrow> vma \<Rightarrow> u64 \<Rightarrow> int \<times> mapping list" where
  "ping_map_mem api v data = (if is_vmalloc_addr api data then ping_map_vmem api v data else ping_map_kmem api v data)"

definition ping_mmap_mmap :: "mm_api \<Rightarrow> ping \<Rightarrow> vma \<Rightarrow> (int \<times> mapping list) outcome" where
  "ping_mmap_mmap api s v = (let i = vm_pgoff v in
     if i = 0 then Go (ping_map_mem api v (snc_object api))
     else case p_snc s of None \<Rightarrow> Fault | Some snc \<Rightarrow>
       (case ptr_index (h_mem (p_heap s)) (sc_ptrs snc) (uint (i - 1)) of
          None \<Rightarrow> Fault | Some p \<Rightarrow> Go (ping_map_mem api v (addr_of api p))))"

definition mmap_open :: int where
  "mmap_open = 0"

definition mmap_release :: int where
  "mmap_release = 0"

section \<open>The module: its request\<close>

fun ping_copy :: "ptr \<Rightarrow> ptr \<Rightarrow> nat list \<Rightarrow> mem \<Rightarrow> mem option" where
  "ping_copy int_dptrs ptrs [] m = Some m"
| "ping_copy int_dptrs ptrs (i # is) m = do {
     p \<leftarrow> ptr_index m ptrs (int i);
     m \<leftarrow> ptr_assign m int_dptrs (int i) p;
     ping_copy int_dptrs ptrs is m }"

text \<open>\<open>smc_ok\<close>: the container can be allocated.\<close>

definition ping_pack_smc :: "alloc \<Rightarrow> bool \<Rightarrow> int \<Rightarrow> nat \<Rightarrow> ptr \<Rightarrow> ping \<Rightarrow> (syndrome_container option \<times> ping) option" where
  "ping_pack_smc e smc_ok disks bytes ptrs s =
     (if \<not> smc_ok then Some (None, s)
      else let s = s\<lparr>p_smcs := Suc (p_smcs s)\<rparr>;
               (int_dptrs, h) = malloc_ptrs e disks (p_heap s) in
        if int_dptrs = null then Some (None, s\<lparr>p_heap := h\<rparr>)
        else do {
          m \<leftarrow> ping_copy int_dptrs ptrs [0..<nat disks] (h_mem h);
          Some (Some \<lparr>sc_disks = disks, sc_bytes = bytes, sc_ptrs = int_dptrs\<rparr>, s\<lparr>p_heap := h\<lparr>h_mem := m\<rparr>\<rparr>) })"

definition ping_kill_smc :: "syndrome_container \<Rightarrow> ping \<Rightarrow> ping option" where
  "ping_kill_smc c s = do {
     m \<leftarrow> c_free (h_mem (p_heap s)) (sc_ptrs c);
     Some (s\<lparr>p_heap := (p_heap s)\<lparr>h_mem := m\<rparr>, p_smcs := p_smcs s - 1\<rparr>) }"

fun ping_pages :: "alloc \<Rightarrow> ptr \<Rightarrow> nat list \<Rightarrow> heap \<Rightarrow> (bool \<times> heap) option" where
  "ping_pages e dptrs [] h = Some (True, h)"
| "ping_pages e dptrs (i # is) h = (let (p, h) = malloc_bytes e 16384 h in do {
     m \<leftarrow> ptr_assign (h_mem h) dptrs (int i) p;
     if p = null then Some (False, h\<lparr>h_mem := m\<rparr>) else ping_pages e dptrs is (h\<lparr>h_mem := m\<rparr>) })"

fun ping_fill :: "ptr \<Rightarrow> nat \<Rightarrow> nat list \<Rightarrow> mem \<Rightarrow> mem option" where
  "ping_fill dptrs bytes [] m = Some m"
| "ping_fill dptrs bytes (i # is) m = do {
     p \<leftarrow> ptr_index m dptrs (int i);
     m \<leftarrow> c_memset m p (of_nat i) bytes;
     out \<leftarrow> read_bytes m p 0 bytes;
     ping_fill dptrs bytes is m }"

fun ping_show :: "ptr \<Rightarrow> nat \<Rightarrow> nat list \<Rightarrow> mem \<Rightarrow> u8 list list option" where
  "ping_show dptrs bytes [] m = Some []"
| "ping_show dptrs bytes (i # is) m = do {
     p \<leftarrow> ptr_index m dptrs (int i);
     out \<leftarrow> read_bytes m p 0 bytes;
     outs \<leftarrow> ping_show dptrs bytes is m;
     Some (out # outs) }"

text \<open>Loading: 7 disks of 100 bytes. A container that cannot be allocated is not noticed.\<close>

definition ping_mod_init :: "alloc \<Rightarrow> bool \<Rightarrow> int \<Rightarrow> ping \<Rightarrow> (int \<times> ping) option" where
  "ping_mod_init e smc_ok register_chrdev s = do {
     (ok, h) \<leftarrow> ping_pages e (p_dptrs s) [0..<7] (p_heap s);
     let s = s\<lparr>p_heap := h\<rparr>;
     if \<not> ok then Some (- 12, s) else do {
     m \<leftarrow> ping_fill (p_dptrs s) 100 [0..<7] (h_mem h);
     let s = s\<lparr>p_heap := h\<lparr>h_mem := m\<rparr>\<rparr>;
     (c, s) \<leftarrow> ping_pack_smc e smc_ok 7 100 (p_dptrs s) s;
     let s = s\<lparr>p_snc := c\<rparr>;
     Some (0, s\<lparr>p_chrdev := 0 \<le> register_chrdev\<rparr>) } }"

definition ping_mod_exit :: "ping \<Rightarrow> (u8 list list \<times> ping) option" where
  "ping_mod_exit s = do {
     let s = s\<lparr>p_chrdev := False\<rparr>;
     out \<leftarrow> ping_show (p_dptrs s) 100 [0..<7] (h_mem (p_heap s));
     c \<leftarrow> p_snc s;
     m \<leftarrow> deallocate_disks (p_dptrs s) [0..<nat (sc_disks c)] (h_mem (p_heap s));
     s \<leftarrow> ping_kill_smc c (s\<lparr>p_heap := (p_heap s)\<lparr>h_mem := m\<rparr>\<rparr>);
     Some (out, s) }"

section \<open>The program\<close>

text \<open>The process: its mappings, and the containers it has allocated. \<open>pong_env\<close> holds what the kernel
  does for it; \<open>munmap_ok\<close> is the result of unmapping the container.\<close>

record pong =
  q_maps :: "ptr list"
  q_containers :: nat
  q_fd :: bool

record pong_env =
  q_api :: mm_api
  q_addr :: "nat \<Rightarrow> u64"
  q_alloc :: alloc
  q_open :: bool
  munmap_ok :: bool
  q_malloc :: bool

definition pong_mmap :: "pong_env \<Rightarrow> ping \<Rightarrow> nat \<Rightarrow> nat \<Rightarrow> ptr outcome" where
  "pong_mmap e s len pg =
     (if len = 0 \<or> 2 ^ 47 < int len then Go MAP_FAILED else
      let v = \<lparr>vm_start = q_addr e pg, vm_end = q_addr e pg + of_nat (vmalloc_size len), vm_pgoff = of_nat pg\<rparr> in
      obind (ping_mmap_mmap (q_api e) s v) (\<lambda>(r, ranges).
        if r < 0 then Go MAP_FAILED
        else if pg = 0 then Go null
        else or_fault (do { snc \<leftarrow> p_snc s; ptr_index (h_mem (p_heap s)) (sc_ptrs snc) (int pg - 1) })))"

fun pong_map_disks :: "pong_env \<Rightarrow> nat \<Rightarrow> ptr \<Rightarrow> nat list \<Rightarrow> pong \<Rightarrow> ping \<Rightarrow> (bool \<times> pong \<times> ping) outcome" where
  "pong_map_disks e bytes dptrs [] q s = Go (True, q, s)"
| "pong_map_disks e bytes dptrs (i # is) q s =
     obind (pong_mmap e s bytes i) (\<lambda>p.
     obind (or_fault (ptr_assign (h_mem (p_heap s)) dptrs (int i - 1) p)) (\<lambda>m.
       let s = s\<lparr>p_heap := (p_heap s)\<lparr>h_mem := m\<rparr>\<rparr> in
       if p = MAP_FAILED then Go (False, q, s)
       else pong_map_disks e bytes dptrs is (q\<lparr>q_maps := p # q_maps q\<rparr>) s))"

definition pong_get_act_syndrome_block ::
    "pong_env \<Rightarrow> pong \<Rightarrow> ping \<Rightarrow> (syndrome_container option \<times> pong \<times> ping) outcome" where
  "pong_get_act_syndrome_block e q s =
     obind (pong_mmap e s 24 0) (\<lambda>p.
     if p = MAP_FAILED then Go (None, q, s) else
     obind (or_fault (p_snc s)) (\<lambda>snc.
     let disks = sc_disks snc; bytes = sc_bytes snc in
     if \<not> munmap_ok e then Go (None, q, s) else
     let (dptrs, h) = malloc_ptrs (q_alloc e) disks (p_heap s) in
     obind (pong_map_disks e bytes dptrs [1..<Suc (nat disks)] q (s\<lparr>p_heap := h\<rparr>)) (\<lambda>(ok, q, s).
     if \<not> ok then Go (None, q, s)
     else if \<not> q_malloc e then Fault
     else Go (Some \<lparr>sc_disks = disks, sc_bytes = bytes, sc_ptrs = dptrs\<rparr>, q\<lparr>q_containers := Suc (q_containers q)\<rparr>, s))))"

text \<open>\<open>unget_act_syndrome_block\<close> indexes the array from -1.\<close>

fun pong_unmap_disks :: "ptr \<Rightarrow> nat list \<Rightarrow> pong \<Rightarrow> ping \<Rightarrow> pong outcome" where
  "pong_unmap_disks ptrs [] q s = Go q"
| "pong_unmap_disks ptrs (i # is) q s =
     obind (or_fault (ptr_index (h_mem (p_heap s)) ptrs (int i - 1))) (\<lambda>p.
     pong_unmap_disks ptrs is (q\<lparr>q_maps := remove1 p (q_maps q)\<rparr>) s)"

definition pong_unget_act_syndrome_block :: "syndrome_container \<Rightarrow> pong \<Rightarrow> ping \<Rightarrow> (pong \<times> ping) outcome" where
  "pong_unget_act_syndrome_block smc q s =
     obind (pong_unmap_disks (sc_ptrs smc) [0..<nat (sc_disks smc)] q s) (\<lambda>q.
     obind (or_fault (c_free (h_mem (p_heap s)) (sc_ptrs smc))) (\<lambda>m.
     Go (q\<lparr>q_containers := q_containers q - 1\<rparr>, s\<lparr>p_heap := (p_heap s)\<lparr>h_mem := m\<rparr>\<rparr>)))"

text \<open>The stores of child \<open>thread_id\<close>: disk, offset and value.\<close>

definition proc_thread :: "nat \<Rightarrow> nat \<Rightarrow> nat \<Rightarrow> nat \<Rightarrow> (nat \<times> nat \<times> u8) list" where
  "proc_thread disks bytes thread_id number_of_threads =
     (let start = bytes div number_of_threads * thread_id;
          stop = (if thread_id + 1 = number_of_threads then bytes else start + bytes div number_of_threads)
      in concat (map (\<lambda>i. map (\<lambda>j. (i, j, of_int (int disks - 1 - int i))) [start..<stop]) [0..<disks]))"

definition pong_get_number_of_phys_cpus :: nat where
  "pong_get_number_of_phys_cpus = 8"

fun run_stores :: "ptr \<Rightarrow> (nat \<times> nat \<times> u8) list \<Rightarrow> mem \<Rightarrow> mem option" where
  "run_stores ptrs [] m = Some m"
| "run_stores ptrs ((i, j, v) # es) m = do {
     tmp \<leftarrow> ptr_index m ptrs (int i);
     m \<leftarrow> store8 m tmp j v;
     run_stores ptrs es m }"

text \<open>An execution of the parent and its children: \<open>sched\<close> tags each store with the child that
  executes it; every child executes its stores in order. A failing \<open>pipe\<close> ends the creation of
  children, here none fails. The parent waits for all children.\<close>

definition interleaves :: "nat \<Rightarrow> nat \<Rightarrow> nat \<Rightarrow> (nat \<times> nat \<times> nat \<times> u8) list \<Rightarrow> bool" where
  "interleaves disks bytes n sched \<longleftrightarrow> (\<forall>e \<in> set sched. fst e < n) \<and>
     (\<forall>t < n. map snd (filter (\<lambda>e. fst e = t) sched) = proc_thread disks bytes t n)"

definition pong_raid6_smp_gen_syndrome :: "(nat \<times> nat \<times> nat \<times> u8) list \<Rightarrow> ptr \<Rightarrow> mem \<Rightarrow> mem option" where
  "pong_raid6_smp_gen_syndrome sched ptrs m = run_stores ptrs (map snd sched) m"

definition pong_main :: "pong_env \<Rightarrow> string option \<Rightarrow> (nat \<times> nat \<times> nat \<times> u8) list \<Rightarrow> pong \<Rightarrow> ping \<Rightarrow> (int \<times> pong \<times> ping) outcome" where
  "pong_main e cpu_file sched q s =
     obind (or_fault (set_internal_vars cpu_file)) (\<lambda>cpus.
     if \<not> q_open e then Go (- 1, q, s)
     else let q = q\<lparr>q_fd := True\<rparr> in
     obind (pong_get_act_syndrome_block e q s) (\<lambda>(ret, q, s).
     obind (or_fault ret) (\<lambda>ret.
     obind (or_fault (pong_raid6_smp_gen_syndrome sched (sc_ptrs ret) (h_mem (p_heap s)))) (\<lambda>m.
     obind (pong_unget_act_syndrome_block ret q (s\<lparr>p_heap := (p_heap s)\<lparr>h_mem := m\<rparr>\<rparr>)) (\<lambda>(q, s).
     Go (0, q\<lparr>q_fd := False\<rparr>, s))))))"

section \<open>Lemmas\<close>

lemma ping_map_vmem_loop_eq: "ping_map_vmem_loop api start data len acc = map_vmem_loop api start data len acc"
proof (induction api start data len acc rule: map_vmem_loop.induct)
  case (1 api start data len acc)
  then show ?case by (subst ping_map_vmem_loop.simps, subst map_vmem_loop.simps) (simp add: Let_def)
qed

text \<open>The mapping functions of the module are those of the prototype.\<close>

lemma ping_map_mem_eq: "ping_map_mem = map_mem"
  by (simp add: fun_eq_iff ping_map_mem_def map_mem_def ping_map_vmem_def map_vmem_def ping_map_vmem_loop_eq
      ping_map_kmem_def map_kmem_def NPAGES_def)

text \<open>Stores whose value depends on the disk only.\<close>

lemma run_stores_fill:
  assumes "stripe m a ps bytes" "\<forall>(i, j, v) \<in> set es. i < length ps \<and> j < bytes \<and> v = f i"
  shows "\<exists>m'. run_stores a es m = Some m' \<and> stripe m' a ps bytes \<and> (\<forall>p. p \<notin> set ps \<longrightarrow> m' p = m p) \<and>
    (\<forall>i < length ps. length (buf m' (ps ! i)) = length (buf m (ps ! i)) \<and>
      (\<forall>j < length (buf m (ps ! i)). buf m' (ps ! i) ! j = (if (i, j) \<in> (\<lambda>(i, j, v). (i, j)) ` set es then f i else buf m (ps ! i) ! j)))"
  using assms
proof (induction es arbitrary: m)
  case (Cons e es)
  obtain i j v where e: "e = (i, j, v)" by (cases e) auto
  have ij: "i < length ps" "j < bytes" "v = f i" using Cons.prems(2) by (auto simp: e)
  note at = stripe_bytes_at [OF Cons.prems(1) ij(1)]
  let ?bs = "(buf m (ps ! i))[j := f i]"
  let ?m = "m(ps ! i \<mapsto> Bytes ?bs)"
  have "ptr_index m a (int i) = Some (ps ! i)" using stripe_ptr_index [OF Cons.prems(1), of "int i"] ij(1) by simp
  then have step: "run_stores a (e # es) m = run_stores a es ?m"
    using at(1,2) ij(2,3) by (simp add: e store8_def)
  have st: "stripe ?m a ps bytes" by (rule stripe_upd [OF Cons.prems(1) ij(1)]) (use at(2) in simp)
  have b: "buf ?m (ps ! k) = (if k = i then ?bs else buf m (ps ! k))" if "k < length ps" for k
    using at(3) stripe_distinct [OF Cons.prems(1) that ij(1)] by simp
  have es: "\<forall>(i, j, v) \<in> set es. i < length ps \<and> j < bytes \<and> v = f i" using Cons.prems(2) by simp
  obtain m' where IH: "run_stores a es ?m = Some m'" "stripe m' a ps bytes" "\<forall>p. p \<notin> set ps \<longrightarrow> m' p = ?m p"
    "\<forall>k < length ps. length (buf m' (ps ! k)) = length (buf ?m (ps ! k)) \<and>
      (\<forall>l < length (buf ?m (ps ! k)). buf m' (ps ! k) ! l = (if (k, l) \<in> (\<lambda>(i, j, v). (i, j)) ` set es then f k else buf ?m (ps ! k) ! l))"
    using Cons.IH [OF st es] by blast
  have "ps ! i \<in> set ps" using ij(1) by simp
  then have rest: "\<forall>p. p \<notin> set ps \<longrightarrow> m' p = m p" using IH(3) by auto
  have vals: "length (buf m' (ps ! k)) = length (buf m (ps ! k)) \<and>
      (\<forall>l < length (buf m (ps ! k)). buf m' (ps ! k) ! l = (if (k, l) \<in> (\<lambda>(i, j, v). (i, j)) ` set (e # es) then f k else buf m (ps ! k) ! l))"
    if k: "k < length ps" for k
  proof (cases "k = i")
    case True
    then show ?thesis using IH(4) [rule_format, OF k] b [OF k] by (auto simp: e nth_list_update image_iff)
  next
    case False
    then show ?thesis using IH(4) [rule_format, OF k] b [OF k] by (auto simp: e image_iff)
  qed
  show ?case unfolding step using IH(1,2) rest vals by blast
qed auto

lemma chunk_of:
  assumes "0 < n" "j < (bytes :: nat)"
  shows "\<exists>t < n. bytes div n * t \<le> j \<and> j < (if t + 1 = n then bytes else bytes div n * t + bytes div n)"
proof (cases "j < bytes div n * n")
  case True
  then have d: "0 < bytes div n" by (cases "bytes div n = 0") simp_all
  let ?t = "j div (bytes div n)"
  have t: "?t < n" using True d by (simp add: div_less_iff_less_mult mult.commute)
  have "bytes div n * ?t \<le> j" by simp
  moreover have "j < bytes div n * ?t + bytes div n"
    using mult_div_mod_eq [of "bytes div n" j] mod_less_divisor [OF d, of j] by linarith
  ultimately show ?thesis using t assms(2) by (intro exI [of _ ?t]) simp
next
  case False
  have "bytes div n * (n - 1) \<le> bytes div n * n" by (intro mult_le_mono2) simp
  then have "bytes div n * (n - 1) \<le> j" using False by linarith
  then show ?thesis using assms by (intro exI [of _ "n - 1"]) simp
qed

definition all_stores :: "nat \<Rightarrow> nat \<Rightarrow> (nat \<times> nat \<times> u8) set" where
  "all_stores disks bytes = {(i, j, v). i < disks \<and> j < bytes \<and> v = of_int (int disks - 1 - int i)}"

lemma proc_thread_set:
  "(i, j, v) \<in> set (proc_thread disks bytes t n) \<longleftrightarrow> i < disks \<and> v = of_int (int disks - 1 - int i) \<and>
     bytes div n * t \<le> j \<and> j < (if t + 1 = n then bytes else bytes div n * t + bytes div n)"
  by (fastforce simp: proc_thread_def Let_def split: if_splits)

lemma chunk_end_le: "t < n \<Longrightarrow> bytes div n * t + bytes div n \<le> (bytes :: nat)"
proof -
  assume "t < n"
  then have "bytes div n * Suc t \<le> bytes div n * n" by (intro mult_le_mono2) simp
  also have "\<dots> \<le> bytes" by simp
  finally show ?thesis by simp
qed

lemma interleaves_stores:
  assumes il: "interleaves disks bytes n sched" and n: "0 < n"
  shows "set (map snd sched) = all_stores disks bytes"
proof -
  have lt: "\<forall>e \<in> set sched. fst e < n" using il unfolding interleaves_def by blast
  have ch: "set (map snd (filter (\<lambda>e. fst e = t) sched)) = set (proc_thread disks bytes t n)" if "t < n" for t
    using il that unfolding interleaves_def by metis
  have iff: "e \<in> set (map snd sched) \<longleftrightarrow> (\<exists>t < n. e \<in> set (proc_thread disks bytes t n))" for e
  proof
    assume "e \<in> set (map snd sched)"
    then obtain t where t: "(t, e) \<in> set sched" by auto
    then have "t < n" using lt by force
    moreover have "e \<in> set (map snd (filter (\<lambda>e. fst e = t) sched))" using t by force
    ultimately show "\<exists>t < n. e \<in> set (proc_thread disks bytes t n)" using ch by blast
  next
    assume "\<exists>t < n. e \<in> set (proc_thread disks bytes t n)"
    then obtain t where "e \<in> set (map snd (filter (\<lambda>e. fst e = t) sched))" using ch by blast
    then show "e \<in> set (map snd sched)" by auto
  qed
  have "(i, j, v) \<in> set (map snd sched) \<longleftrightarrow> (i, j, v) \<in> all_stores disks bytes" for i j v
    unfolding iff proc_thread_set all_stores_def
    using chunk_of [OF n, of j bytes] chunk_end_le [of _ n bytes] by (fastforce split: if_splits)
  then show ?thesis by auto
qed



text \<open>The program never gets to its end: unmapping starts at index -1 of the pointer array.\<close>

lemma pong_unget_faults: "0 < sc_disks c \<Longrightarrow> pong_unget_act_syndrome_block c q s = Fault"
  by (cases "ptrs_at (h_mem (p_heap s)) (sc_ptrs c)") (simp_all add: pong_unget_act_syndrome_block_def upt_conv_Cons ptr_index_def)

lemma obind_Go_iff: "obind x f = Go y \<longleftrightarrow> (\<exists>z. x = Go z \<and> f z = Go y)"
  by (cases x) simp_all

lemma pong_get_disks:
  assumes "p_snc s = Some snc" "pong_get_act_syndrome_block e q s = Go (Some c, q', s')"
  shows "sc_disks c = sc_disks snc"
  using assms
  by (auto simp: pong_get_act_syndrome_block_def obind_Go_iff Let_def split: if_splits prod.splits)

lemma pong_main_never_ends:
  assumes "p_snc s = Some snc" "0 < sc_disks snc"
  shows "pong_main e cpu_file sched q s \<noteq> Go (0, q', s')"
proof
  assume "pong_main e cpu_file sched q s = Go (0, q', s')"
  then obtain c q1 s1 m where "pong_get_act_syndrome_block e (q\<lparr>q_fd := True\<rparr>) s = Go (Some c, q1, s1)"
    and u: "pong_unget_act_syndrome_block c q1 (s1\<lparr>p_heap := (p_heap s1)\<lparr>h_mem := m\<rparr>\<rparr>) \<noteq> Fault"
    by (fastforce simp: pong_main_def obind_Go_iff Let_def split: if_splits option.splits elim!: or_fault.elims)
  then have "sc_disks c = sc_disks snc" using pong_get_disks assms(1) by blast
  then show False using u pong_unget_faults assms(2) by simp
qed

end
