(* ===== verification/Proto_Ping.thy ===== *)
theory Proto_Ping
  imports Kernel_Calls "HOL-Library.Signed_Division"
begin

text \<open>
  The prototypes \<open>prototypes/ping_pong_proc\<close> and \<open>prototypes/ping_pong_ioctl\<close>, which measure two of the
  transports: a kernel thread pings \<open>30 * 1000\<close> times, a program in user space answers. Kernel thread
  and program are step functions as in \<open>Kernel_Calls\<close>, and \<open>pp_step\<close> and \<open>pi_step\<close> interleave them;
  \<open>jiffies\<close> may have any value in any step. Without signals every run is finite and ends with the
  kernel thread finished (interpretations of \<open>live_system\<close>), so that the module can be unloaded.
\<close>

definition RUNS :: nat where
  "RUNS = 1000"

text \<open>The microseconds printed for a test, computed with signed 64-bit numbers.\<close>

definition test_msec :: "int \<Rightarrow> u64 \<Rightarrow> u64 \<Rightarrow> int" where
  "test_msec hz t1 t2 = (sint ((t2 - t1) * 1000000) sdiv hz) sdiv int RUNS"

datatype 'p test_pc = PT_Start | PT_Loop nat u64 | PT_Ping nat u64 'p | PT_Ret

datatype 'p thread_code_pc = TC_Loop nat | TC_Test nat "'p test_pc" | TC_Complete | TC_Exited

section \<open>procfs\<close>

record pproc =
  pp_ping_mutex :: nat
  pp_read_mutex :: nat
  pp_wq_flag :: int
  pp_global_buffer :: "string option"
  pp_buffer_addr :: u64
  pp_on_exit :: nat
  pp_log :: "int list"

datatype ping_pc = P_Down | P_Store | P_Flag | P_Wait | P_Up | P_Ret int

fun pp_ping_step :: "env \<Rightarrow> string \<Rightarrow> pproc \<Rightarrow> ping_pc \<Rightarrow> (pproc \<times> ping_pc) outcome" where
  "pp_ping_step e buffer s P_Down =
     (if pp_ping_mutex s = 0 then Block else Go (s\<lparr>pp_ping_mutex := pp_ping_mutex s - 1\<rparr>, P_Store))"
| "pp_ping_step e buffer s P_Store = Go (s\<lparr>pp_global_buffer := Some buffer\<rparr>, P_Flag)"
| "pp_ping_step e buffer s P_Flag = Go (s\<lparr>pp_wq_flag := 0\<rparr>, P_Wait)"
| "pp_ping_step e buffer s P_Wait = wait_event e (pp_wq_flag s = 2) (s, P_Up)"
| "pp_ping_step e buffer s P_Up = Go (s\<lparr>pp_ping_mutex := pp_ping_mutex s + 1\<rparr>, P_Ret 0)"
| "pp_ping_step e buffer s (P_Ret r) = Block"

fun procfs_test_step :: "env \<Rightarrow> int \<Rightarrow> u64 \<Rightarrow> pproc \<Rightarrow> ping_pc test_pc \<Rightarrow> (pproc \<times> ping_pc test_pc) outcome" where
  "procfs_test_step e hz jiffies s PT_Start = Go (s, PT_Loop 0 jiffies)"
| "procfs_test_step e hz jiffies s (PT_Loop i t1) =
     (if i < RUNS then Go (s, PT_Ping i t1 P_Down)
      else Go (s\<lparr>pp_log := pp_log s @ [test_msec hz t1 jiffies]\<rparr>, PT_Ret))"
| "procfs_test_step e hz jiffies s (PT_Ping i t1 pc) =
     (case pc of P_Ret r \<Rightarrow> Go (s, PT_Loop (Suc i) t1)
      | _ \<Rightarrow> obind (pp_ping_step e ''ping'' s pc) (\<lambda>(s, pc). Go (s, PT_Ping i t1 pc)))"
| "procfs_test_step e hz jiffies s PT_Ret = Block"

fun pp_thread_code_step ::
    "env \<Rightarrow> int \<Rightarrow> u64 \<Rightarrow> pproc \<Rightarrow> ping_pc thread_code_pc \<Rightarrow> (pproc \<times> ping_pc thread_code_pc) outcome" where
  "pp_thread_code_step e hz jiffies s (TC_Loop i) = Go (s, if i < 30 then TC_Test i PT_Start else TC_Complete)"
| "pp_thread_code_step e hz jiffies s (TC_Test i pc) =
     (case pc of PT_Ret \<Rightarrow> Go (s, TC_Loop (Suc i))
      | _ \<Rightarrow> obind (procfs_test_step e hz jiffies s pc) (\<lambda>(s, pc). Go (s, TC_Test i pc)))"
| "pp_thread_code_step e hz jiffies s TC_Complete = Go (s\<lparr>pp_on_exit := pp_on_exit s + 1\<rparr>, TC_Exited)"
| "pp_thread_code_step e hz jiffies s TC_Exited = Block"

datatype read_pc = R_Down | R_Wait | R_Copy | R_Up u64 | R_Ret int u64

fun pp_proc_read_step :: "env \<Rightarrow> pproc \<Rightarrow> read_pc \<Rightarrow> (pproc \<times> read_pc) outcome" where
  "pp_proc_read_step e s R_Down =
     (if pp_read_mutex s = 0 then Block else Go (s\<lparr>pp_read_mutex := pp_read_mutex s - 1\<rparr>, R_Wait))"
| "pp_proc_read_step e s R_Wait = wait_event e (pp_wq_flag s = 0) (s, R_Copy)"
| "pp_proc_read_step e s R_Copy = Go (s, R_Up (pp_buffer_addr s))"
| "pp_proc_read_step e s (R_Up a) = Go (s\<lparr>pp_read_mutex := pp_read_mutex s + 1\<rparr>, R_Ret 8 a)"
| "pp_proc_read_step e s (R_Ret r a) = Block"

definition pp_write_proc :: "nat \<Rightarrow> pproc \<Rightarrow> int \<times> pproc" where
  "pp_write_proc count s = (int count, s\<lparr>pp_wq_flag := 2\<rparr>)"

text \<open>The program: \<open>fopen\<close> fails with a null pointer, which the test \<open>fd < 0\<close> does not see; the first
  \<open>fread\<close> then dereferences it. Each \<open>fread\<close> and each \<open>fwrite\<close> is one call of its handler.\<close>

datatype pong_pc = Q_Open | Q_Loop | Q_Read read_pc | Q_Write

fun pp_pong_step :: "env \<Rightarrow> pproc \<Rightarrow> pong_pc \<Rightarrow> (pproc \<times> pong_pc) outcome" where
  "pp_pong_step e s Q_Open = (if e_ok e then Go (s, Q_Loop) else Fault)"
| "pp_pong_step e s Q_Loop = Go (s, Q_Read R_Down)"
| "pp_pong_step e s (Q_Read pc) =
     (case pc of R_Ret r a \<Rightarrow> Go (s, Q_Write)
      | _ \<Rightarrow> obind (pp_proc_read_step e s pc) (\<lambda>(s, pc). Go (s, Q_Read pc)))"
| "pp_pong_step e s Q_Write = Go (snd (pp_write_proc 5 s), Q_Loop)"

type_synonym pp_sys = "pproc \<times> ping_pc thread_code_pc \<times> pong_pc"

inductive pp_step :: "bool \<Rightarrow> int \<Rightarrow> pp_sys \<Rightarrow> pp_sys \<Rightarrow> bool" for sig hz where
  ping: "pp_thread_code_step \<lparr>e_ok = True, e_signal = g\<rparr> hz jiffies s t = Go (s', t') \<Longrightarrow> g \<longrightarrow> sig \<Longrightarrow>
    pp_step sig hz (s, t, q) (s', t', q)"
| pong: "pp_pong_step \<lparr>e_ok = True, e_signal = g\<rparr> s q = Go (s', q') \<Longrightarrow> g \<longrightarrow> sig \<Longrightarrow>
    pp_step sig hz (s, t, q) (s', t, q')"

text \<open>Loading and unloading.\<close>

record pp_module =
  pp_state :: pproc
  pp_directory :: bool
  pp_file :: bool
  pp_thread_id :: int
  pp_kills :: "int list"

definition pp_mod_init :: "bool \<Rightarrow> bool \<Rightarrow> int \<Rightarrow> pp_module \<Rightarrow> int \<times> pp_module" where
  "pp_mod_init mkdir_ok entry_ok kernel_thread m =
     (if \<not> mkdir_ok then (- EIO, m)
      else let m = m\<lparr>pp_directory := True\<rparr> in
      if \<not> entry_ok then (- EIO, m)
      else let m = m\<lparr>pp_file := True, pp_thread_id := kernel_thread\<rparr> in
      if pp_thread_id m = 0 then (- EIO, m) else (0, m))"

definition pp_mod_exit :: "pp_module \<Rightarrow> pp_module outcome" where
  "pp_mod_exit m =
     (if pp_on_exit (pp_state m) = 0 then Block
      else let s = pp_state m; m = m\<lparr>pp_state := s\<lparr>pp_on_exit := pp_on_exit s - 1\<rparr>\<rparr>;
               m = (if pp_thread_id m \<noteq> 0 then m\<lparr>pp_kills := pp_kills m @ [pp_thread_id m]\<rparr> else m)
      in Go (m\<lparr>pp_file := False, pp_directory := False\<rparr>))"

definition pp_init :: "u64 \<Rightarrow> pproc" where
  "pp_init a = \<lparr>pp_ping_mutex = 1, pp_read_mutex = 1, pp_wq_flag = 2, pp_global_buffer = None, pp_buffer_addr = a,
     pp_on_exit = 0, pp_log = []\<rparr>"

section \<open>The kernel thread\<close>

text \<open>What the two prototypes share: the pings still to come, the work left, and the counters.\<close>

fun asks :: "ping_pc \<Rightarrow> nat" where
  "asks P_Down = 1"
| "asks P_Store = 1"
| "asks P_Flag = 1"
| "asks _ = 0"

fun ping_rank :: "ping_pc \<Rightarrow> nat" where
  "ping_rank P_Down = 5"
| "ping_rank P_Store = 4"
| "ping_rank P_Flag = 3"
| "ping_rank P_Wait = 2"
| "ping_rank P_Up = 1"
| "ping_rank (P_Ret r) = 0"

fun test_asks :: "ping_pc test_pc \<Rightarrow> nat" where
  "test_asks PT_Start = RUNS"
| "test_asks (PT_Loop i t1) = RUNS - i"
| "test_asks (PT_Ping i t1 pc) = RUNS - Suc i + asks pc"
| "test_asks PT_Ret = 0"

fun test_work :: "ping_pc test_pc \<Rightarrow> nat" where
  "test_work PT_Start = 7 * RUNS + 2"
| "test_work (PT_Loop i t1) = 7 * (RUNS - i) + 1"
| "test_work (PT_Ping i t1 pc) = 7 * (RUNS - Suc i) + 2 + ping_rank pc"
| "test_work PT_Ret = 0"

fun thread_asks :: "ping_pc thread_code_pc \<Rightarrow> nat" where
  "thread_asks (TC_Loop i) = (30 - i) * RUNS"
| "thread_asks (TC_Test i pc) = (29 - i) * RUNS + test_asks pc"
| "thread_asks _ = 0"

fun thread_work :: "ping_pc thread_code_pc \<Rightarrow> nat" where
  "thread_work (TC_Loop i) = (30 - i) * (7 * RUNS + 5) + 2"
| "thread_work (TC_Test i pc) = (29 - i) * (7 * RUNS + 5) + 3 + test_work pc"
| "thread_work TC_Complete = 1"
| "thread_work TC_Exited = 0"

fun thread_range :: "ping_pc thread_code_pc \<Rightarrow> bool" where
  "thread_range (TC_Loop i) = (i \<le> 30)"
| "thread_range (TC_Test i (PT_Loop j t1)) = (i < 30 \<and> j \<le> RUNS)"
| "thread_range (TC_Test i (PT_Ping j t1 pc)) = (i < 30 \<and> j < RUNS)"
| "thread_range (TC_Test i pc) = (i < 30)"
| "thread_range _ = True"

text \<open>Where the thread is in \<open>ping\<close>; outside of it as at its end.\<close>

fun at_ping :: "ping_pc thread_code_pc \<Rightarrow> ping_pc" where
  "at_ping (TC_Test i (PT_Ping j t1 pc)) = pc"
| "at_ping _ = P_Ret 0"

fun lines_due :: "ping_pc thread_code_pc \<Rightarrow> nat" where
  "lines_due (TC_Loop i) = i"
| "lines_due (TC_Test i PT_Ret) = Suc i"
| "lines_due (TC_Test i pc) = i"
| "lines_due _ = 30"

definition thread_moves :: "ping_pc thread_code_pc \<Rightarrow> ping_pc thread_code_pc \<Rightarrow> bool" where
  "thread_moves t t' \<longleftrightarrow> thread_work t' < thread_work t \<and>
     thread_asks t' + (if at_ping t = P_Flag then 1 else 0) = thread_asks t"

lemma RUNS_pos: "0 < RUNS"
  by (simp add: RUNS_def)

lemma loop_moves:
  "i < 30 \<Longrightarrow> thread_moves (TC_Loop i) (TC_Test i PT_Start)" "thread_moves (TC_Loop 30) TC_Complete"
proof -
  assume "i < 30"
  then have "30 - i = Suc (29 - i)" by simp
  then show "thread_moves (TC_Loop i) (TC_Test i PT_Start)" by (simp add: thread_moves_def)
qed (simp add: thread_moves_def)

lemma test_moves:
  "thread_moves (TC_Test i PT_Ret) (TC_Loop (Suc i))" "thread_moves TC_Complete TC_Exited"
  "thread_moves (TC_Test i PT_Start) (TC_Test i (PT_Loop 0 t1))"
  "thread_moves (TC_Test i (PT_Loop RUNS t1)) (TC_Test i PT_Ret)"
  "j < RUNS \<Longrightarrow> thread_moves (TC_Test i (PT_Loop j t1)) (TC_Test i (PT_Ping j t1 P_Down))"
  "thread_moves (TC_Test i (PT_Ping j t1 (P_Ret r))) (TC_Test i (PT_Loop (Suc j) t1))"
  using Suc_diff_Suc [of j RUNS] by (auto simp: thread_moves_def)

lemma ping_moves:
  "ping_rank p' < ping_rank p \<Longrightarrow> asks p' + (if p = P_Flag then 1 else 0) = asks p \<Longrightarrow>
   thread_moves (TC_Test i (PT_Ping j t1 p)) (TC_Test i (PT_Ping j t1 p'))"
  by (simp add: thread_moves_def)

definition holds_mutex :: "ping_pc \<Rightarrow> bool" where
  "holds_mutex pc \<longleftrightarrow> pc \<in> {P_Store, P_Flag, P_Wait, P_Up}"

section \<open>The procfs test ends\<close>

text \<open>The answering side: whether it has taken a ping it has not answered yet, and its work up to the
  next wait.\<close>

fun pp_taken :: "pong_pc \<Rightarrow> bool" where
  "pp_taken (Q_Read R_Copy) = True"
| "pp_taken (Q_Read (R_Up a)) = True"
| "pp_taken (Q_Read (R_Ret r a)) = True"
| "pp_taken Q_Write = True"
| "pp_taken _ = False"

fun pp_reading :: "pong_pc \<Rightarrow> bool" where
  "pp_reading (Q_Read R_Wait) = True"
| "pp_reading (Q_Read R_Copy) = True"
| "pp_reading (Q_Read (R_Up a)) = True"
| "pp_reading _ = False"

fun pp_rank :: "pong_pc \<Rightarrow> nat" where
  "pp_rank (Q_Read R_Wait) = 0"
| "pp_rank (Q_Read R_Down) = 1"
| "pp_rank Q_Loop = 2"
| "pp_rank Q_Open = 3"
| "pp_rank Q_Write = 3"
| "pp_rank (Q_Read (R_Ret r a)) = 4"
| "pp_rank (Q_Read (R_Up a)) = 5"
| "pp_rank (Q_Read R_Copy) = 6"

fun pp_inv :: "pp_sys \<Rightarrow> bool" where
  "pp_inv (s, t, q) \<longleftrightarrow> thread_range t \<and> (pp_wq_flag s = 2 \<or> pp_wq_flag s = 0 \<and> at_ping t = P_Wait) \<and>
     (pp_taken q \<longrightarrow> pp_wq_flag s = 0) \<and>
     pp_ping_mutex s = (if holds_mutex (at_ping t) then 0 else 1) \<and> pp_read_mutex s = (if pp_reading q then 0 else 1) \<and>
     length (pp_log s) = lines_due t \<and> pp_on_exit s = (if t = TC_Exited then 1 else 0)"

fun pp_work :: "pp_sys \<Rightarrow> nat" where
  "pp_work (s, t, q) = 8 * (thread_asks t + (if pp_wq_flag s = 0 \<and> \<not> pp_taken q then 1 else 0)) + pp_rank q + thread_work t"

fun pp_final :: "pp_sys \<Rightarrow> bool" where
  "pp_final (s, t, q) = (t = TC_Exited)"

lemma pp_ping_moves:
  assumes "pp_thread_code_step \<lparr>e_ok = True, e_signal = False\<rparr> hz jiffies s t = Go (s', t')" "thread_range t"
  shows "thread_moves t t' \<and> pp_wq_flag s' = (if at_ping t = P_Flag then 0 else pp_wq_flag s)"
proof (cases t)
  case (TC_Loop i)
  then show ?thesis using assms by (auto simp: loop_moves)
next
  case (TC_Test i pc)
  show ?thesis
  proof (cases pc)
    case (PT_Ping j t1 p)
    then show ?thesis
      using assms TC_Test ping_moves [of _ p i j t1] test_moves
      by (cases p) (auto simp: wait_event_def split: if_splits)
  qed (use assms TC_Test test_moves in \<open>auto split: if_splits\<close>)
qed (use assms test_moves in auto)

lemma pp_ping_inv:
  assumes "pp_thread_code_step \<lparr>e_ok = True, e_signal = False\<rparr> hz jiffies s t = Go (s', t')" "pp_inv (s, t, q)"
  shows "pp_inv (s', t', q)"
proof (cases t)
  case (TC_Loop i)
  then show ?thesis using assms by (cases "i < 30") (auto simp: holds_mutex_def)
next
  case (TC_Test i pc)
  show ?thesis
  proof (cases pc)
    case (PT_Ping j t1 p)
    then show ?thesis
      using assms TC_Test by (cases p; clarsimp simp: holds_mutex_def wait_event_def split: if_split_asm)
  next
    case (PT_Loop j t1)
    then show ?thesis using assms TC_Test by (cases "j < RUNS") (auto simp: holds_mutex_def)
  qed (use assms TC_Test in \<open>auto simp: holds_mutex_def\<close>)
qed (use assms in \<open>auto simp: holds_mutex_def\<close>)

lemma pp_ping_work:
  assumes "pp_thread_code_step \<lparr>e_ok = True, e_signal = False\<rparr> hz jiffies s t = Go (s', t')" "pp_inv (s, t, q)"
  shows "pp_work (s', t', q) < pp_work (s, t, q)"
proof -
  have "thread_moves t t'" "pp_wq_flag s' = (if at_ping t = P_Flag then 0 else pp_wq_flag s)"
    using pp_ping_moves [OF assms(1)] assms(2) by simp_all
  then show ?thesis using assms(2) by (auto simp: thread_moves_def)
qed

lemma pp_pong_work:
  "pp_pong_step \<lparr>e_ok = True, e_signal = False\<rparr> s q = Go (s', q') \<Longrightarrow> pp_work (s', t, q') < pp_work (s, t, q)"
proof (cases q)
  case (Q_Read pc)
  moreover assume "pp_pong_step \<lparr>e_ok = True, e_signal = False\<rparr> s q = Go (s', q')"
  ultimately show ?thesis by (cases pc) (auto simp: wait_event_def split: if_split_asm)
qed (auto simp: pp_write_proc_def)

lemma pp_pong_inv:
  assumes "pp_pong_step \<lparr>e_ok = True, e_signal = False\<rparr> s q = Go (s', q')" "pp_inv (s, t, q)"
  shows "pp_inv (s', t, q')"
proof (cases q)
  case (Q_Read pc)
  then show ?thesis using assms by (cases pc) (auto simp: wait_event_def split: if_split_asm)
qed (use assms in \<open>auto simp: pp_write_proc_def\<close>)

lemma pp_progress:
  assumes "pp_inv (s, t, q)" "t \<noteq> TC_Exited"
  shows "\<exists>k. pp_step False hz (s, t, q) k"
proof (cases "at_ping t = P_Wait \<and> pp_wq_flag s = 0")
  case True
  have "\<exists>s' q'. pp_pong_step \<lparr>e_ok = True, e_signal = False\<rparr> s q = Go (s', q')"
  proof (cases q)
    case (Q_Read pc)
    then show ?thesis using assms True by (cases pc) (auto simp: wait_event_def)
  qed simp_all
  then show ?thesis by (blast intro: pp_step.pong)
next
  case False
  have "\<exists>s' t'. pp_thread_code_step \<lparr>e_ok = True, e_signal = False\<rparr> hz 0 s t = Go (s', t')"
  proof (cases t)
    case (TC_Test i pc)
    show ?thesis
    proof (cases pc)
      case (PT_Ping j t1 p)
      then show ?thesis
        using assms TC_Test False by (cases p) (auto simp: holds_mutex_def wait_event_def)
    qed (use TC_Test in auto)
  qed (use assms in auto)
  then show ?thesis by (blast intro: pp_step.ping)
qed

lemma pp_step_ok: "pp_step False hz k k' \<Longrightarrow> pp_inv k \<Longrightarrow> pp_inv k' \<and> pp_work k' < pp_work k"
proof (induction rule: pp_step.induct)
  case (ping g jiffies s t s' t' q)
  then show ?case using pp_ping_inv [of hz jiffies s t s' t' q] pp_ping_work [of hz jiffies s t s' t' q] by simp
next
  case (pong g s q s' q' t)
  then show ?case using pp_pong_inv [of s q s' q' t] pp_pong_work [of s q s' q' t] by simp
qed

interpretation pp_run: live_system "pp_step False hz" pp_inv pp_work pp_final for hz
proof
  show "pp_inv k'" if "pp_inv k" "pp_step False hz k k'" for k k' using pp_step_ok [OF that(2,1)] by simp
  show "pp_work k' < pp_work k" if "pp_inv k" "pp_step False hz k k'" for k k' using pp_step_ok [OF that(2,1)] by simp
  show "\<exists>k'. pp_step False hz k k'" if "pp_inv k" "\<not> pp_final k" for k
    using that pp_progress by (cases k rule: pp_final.cases) auto
qed

text \<open>C33. The procfs test ends: as long as no signal arrives, every run of the kernel thread and the
  answering program, in any interleaving and whatever the clock reads, is of bounded length and
  cannot stop before the thread has finished; it then has printed its 30 lines, and the module can
  be unloaded, with nothing left registered.\<close>

theorem procfs_ping_pong_ends:
  assumes "(pp_step False hz ^^ k) (pp_init a, TC_Loop 0, Q_Open) (s, t, q)"
  shows "k \<le> 450155 \<and> ((\<exists>x. pp_step False hz (s, t, q) x) \<or> t = TC_Exited) \<and>
    (t = TC_Exited \<longrightarrow> length (pp_log s) = 30 \<and>
       (\<forall>m. pp_state m = s \<longrightarrow> (\<exists>m'. pp_mod_exit m = Go m' \<and> \<not> pp_file m' \<and> \<not> pp_directory m')))"
proof -
  have inv: "pp_inv (pp_init a, TC_Loop 0, Q_Open)" by (simp add: pp_init_def holds_mutex_def)
  have "pp_work (pp_init a, TC_Loop 0, Q_Open) = 450155" by (simp add: pp_init_def RUNS_def)
  then have k: "pp_inv (s, t, q)" "k \<le> 450155" using pp_run.run_length [OF assms inv] by simp_all
  have "(\<exists>x. pp_step False hz (s, t, q) x) \<or> t = TC_Exited" using pp_progress [OF k(1)] by blast
  moreover have "length (pp_log s) = 30 \<and> pp_on_exit s = 1" if "t = TC_Exited" using k(1) that by simp
  ultimately show ?thesis using k(2) by (auto simp: pp_mod_exit_def Let_def)
qed

theorem procfs_ping_pong_ends_witness:
  "\<exists>k s q. (pp_step False 250 ^^ k) (pp_init 0x1000, TC_Loop 0, Q_Open) (s, TC_Exited, q) \<and> k \<le> 450155 \<and> length (pp_log s) = 30"
proof -
  have "pp_inv (pp_init 0x1000, TC_Loop 0, Q_Open)" by (simp add: pp_init_def holds_mutex_def)
  then obtain s q where "(pp_step False 250)\<^sup>*\<^sup>* (pp_init 0x1000, TC_Loop 0, Q_Open) (s, TC_Exited, q)"
    using pp_run.ends [of _ 250] by fastforce
  then obtain k where "(pp_step False 250 ^^ k) (pp_init 0x1000, TC_Loop 0, Q_Open) (s, TC_Exited, q)"
    by (auto dest: rtranclp_imp_relpowp)
  then show ?thesis using procfs_ping_pong_ends by blast
qed

section \<open>ioctl\<close>

text \<open>The buffer the module allocates has six bytes; \<open>None\<close> is the null pointer of a failed \<open>kmalloc\<close>,
  which is never checked.\<close>

record pioctl =
  pi_callback_mutex :: nat
  pi_ping_mutex :: nat
  pi_wq_flag :: int
  pi_global_buffer :: "string option"
  pi_on_exit :: nat
  pi_log :: "int list"

definition pi_strcpy :: "string \<Rightarrow> pioctl \<Rightarrow> pioctl option" where
  "pi_strcpy str s = do {
     b \<leftarrow> pi_global_buffer s;
     let x = c_string str @ [CHR 0x00];
     if length x \<le> length b then Some (s\<lparr>pi_global_buffer := Some (overwrite b 0 x)\<rparr>) else None }"

fun pi_ping_step :: "env \<Rightarrow> string \<Rightarrow> pioctl \<Rightarrow> ping_pc \<Rightarrow> (pioctl \<times> ping_pc) outcome" where
  "pi_ping_step e buffer s P_Down =
     (if pi_ping_mutex s = 0 then Block else Go (s\<lparr>pi_ping_mutex := pi_ping_mutex s - 1\<rparr>, P_Store))"
| "pi_ping_step e buffer s P_Store = (case pi_strcpy buffer s of None \<Rightarrow> Fault | Some s' \<Rightarrow> Go (s', P_Flag))"
| "pi_ping_step e buffer s P_Flag = Go (s\<lparr>pi_wq_flag := 0\<rparr>, P_Wait)"
| "pi_ping_step e buffer s P_Wait = wait_event e (pi_wq_flag s = 1) (s, P_Up)"
| "pi_ping_step e buffer s P_Up = Go (s\<lparr>pi_ping_mutex := pi_ping_mutex s + 1\<rparr>, P_Ret 0)"
| "pi_ping_step e buffer s (P_Ret r) = Block"

fun ioctl_test_step :: "env \<Rightarrow> int \<Rightarrow> u64 \<Rightarrow> pioctl \<Rightarrow> ping_pc test_pc \<Rightarrow> (pioctl \<times> ping_pc test_pc) outcome" where
  "ioctl_test_step e hz jiffies s PT_Start = Go (s, PT_Loop 0 jiffies)"
| "ioctl_test_step e hz jiffies s (PT_Loop i t1) =
     (if i < RUNS then Go (s, PT_Ping i t1 P_Down)
      else Go (s\<lparr>pi_log := pi_log s @ [test_msec hz t1 jiffies]\<rparr>, PT_Ret))"
| "ioctl_test_step e hz jiffies s (PT_Ping i t1 pc) =
     (case pc of P_Ret r \<Rightarrow> Go (s, PT_Loop (Suc i) t1)
      | _ \<Rightarrow> obind (pi_ping_step e ''ping'' s pc) (\<lambda>(s, pc). Go (s, PT_Ping i t1 pc)))"
| "ioctl_test_step e hz jiffies s PT_Ret = Block"

fun pi_thread_code_step ::
    "env \<Rightarrow> int \<Rightarrow> u64 \<Rightarrow> pioctl \<Rightarrow> ping_pc thread_code_pc \<Rightarrow> (pioctl \<times> ping_pc thread_code_pc) outcome" where
  "pi_thread_code_step e hz jiffies s (TC_Loop i) = Go (s, if i < 30 then TC_Test i PT_Start else TC_Complete)"
| "pi_thread_code_step e hz jiffies s (TC_Test i pc) =
     (case pc of PT_Ret \<Rightarrow> Go (s, TC_Loop (Suc i))
      | _ \<Rightarrow> obind (ioctl_test_step e hz jiffies s pc) (\<lambda>(s, pc). Go (s, TC_Test i pc)))"
| "pi_thread_code_step e hz jiffies s TC_Complete = Go (s\<lparr>pi_on_exit := pi_on_exit s + 1\<rparr>, TC_Exited)"
| "pi_thread_code_step e hz jiffies s TC_Exited = Block"

text \<open>\<open>ub\<close> is the memory of the program from its array \<open>buffer\<close> on. The array has five bytes, the handler
  copies six to it.\<close>

datatype callback_pc = I_Strcpy | I_Flag | I_Up | I_Down | I_Wait | I_Copy | I_Ret int

fun pi_ioctl_callback_step ::
    "env \<Rightarrow> pioctl \<Rightarrow> string \<Rightarrow> callback_pc \<Rightarrow> (pioctl \<times> string \<times> callback_pc) outcome" where
  "pi_ioctl_callback_step e s ub I_Strcpy = (case pi_strcpy ub s of None \<Rightarrow> Fault | Some s' \<Rightarrow> Go (s', ub, I_Flag))"
| "pi_ioctl_callback_step e s ub I_Flag = Go (s\<lparr>pi_wq_flag := 1\<rparr>, ub, I_Up)"
| "pi_ioctl_callback_step e s ub I_Up = Go (s\<lparr>pi_callback_mutex := pi_callback_mutex s + 1\<rparr>, ub, I_Down)"
| "pi_ioctl_callback_step e s ub I_Down =
     (if pi_callback_mutex s = 0 then Block
      else Go (s\<lparr>pi_callback_mutex := pi_callback_mutex s - 1\<rparr>, ub, I_Wait))"
| "pi_ioctl_callback_step e s ub I_Wait = wait_event e (pi_wq_flag s = 0) (s, ub, I_Copy)"
| "pi_ioctl_callback_step e s ub I_Copy = (case pi_global_buffer s of None \<Rightarrow> Fault
     | Some b \<Rightarrow> Go (s, if e_ok e then overwrite ub 0 (take 6 b) else ub, I_Ret 0))"
| "pi_ioctl_callback_step e s ub (I_Ret r) = Block"

datatype ioctl_pong_pc = J_Open | J_Loop | J_Ioctl callback_pc | J_Exit int

definition PONG :: string where
  "PONG = ''pong'' @ [CHR 0x00]"

fun pi_pong_step :: "env \<Rightarrow> pioctl \<Rightarrow> string \<Rightarrow> ioctl_pong_pc \<Rightarrow> (pioctl \<times> string \<times> ioctl_pong_pc) outcome" where
  "pi_pong_step e s ub J_Open =
     (let ub = overwrite ub 0 PONG in
      if e_ok e then Go (s, overwrite ub 0 PONG, J_Loop) else Go (s, ub, J_Exit (- 1)))"
| "pi_pong_step e s ub J_Loop = Go (s, ub, J_Ioctl I_Strcpy)"
| "pi_pong_step e s ub (J_Ioctl pc) =
     (case pc of I_Ret r \<Rightarrow> Go (s, overwrite ub 0 PONG, J_Loop)
      | _ \<Rightarrow> obind (pi_ioctl_callback_step e s ub pc) (\<lambda>(s, ub, pc). Go (s, ub, J_Ioctl pc)))"
| "pi_pong_step e s ub (J_Exit r) = Block"

type_synonym pi_sys = "pioctl \<times> ping_pc thread_code_pc \<times> string \<times> ioctl_pong_pc"

inductive pi_step :: "bool \<Rightarrow> int \<Rightarrow> pi_sys \<Rightarrow> pi_sys \<Rightarrow> bool" for sig hz where
  ping: "pi_thread_code_step \<lparr>e_ok = True, e_signal = g\<rparr> hz jiffies s t = Go (s', t') \<Longrightarrow> g \<longrightarrow> sig \<Longrightarrow>
    pi_step sig hz (s, t, ub, q) (s', t', ub, q)"
| pong: "pi_pong_step \<lparr>e_ok = True, e_signal = g\<rparr> s ub q = Go (s', ub', q') \<Longrightarrow> g \<longrightarrow> sig \<Longrightarrow>
    pi_step sig hz (s, t, ub, q) (s', t, ub', q')"

text \<open>Loading and unloading. \<open>register_chrdev\<close> is called with 0 and chooses a number, \<open>unregister_chrdev\<close> is
  called with the constant 240.\<close>

record pi_module =
  pi_state :: pioctl
  pi_major_num :: int
  pi_devices :: "int list"
  pi_thread_id :: int
  pi_kills :: "int list"

definition MAJOR_NUM :: int where
  "MAJOR_NUM = 240"

definition pi_mod_init :: "string option \<Rightarrow> int \<Rightarrow> int \<Rightarrow> pi_module \<Rightarrow> int \<times> pi_module" where
  "pi_mod_init kmalloc register_chrdev kernel_thread m =
     (let m = m\<lparr>pi_state := (pi_state m)\<lparr>pi_global_buffer := kmalloc\<rparr>, pi_major_num := register_chrdev\<rparr> in
      if 0 \<le> pi_major_num m then
        let m = m\<lparr>pi_devices := register_chrdev # pi_devices m, pi_thread_id := kernel_thread\<rparr> in
        if pi_thread_id m = 0 then (- EIO, m) else (0, m)
      else (- EIO, m))"

definition pi_mod_exit :: "pi_module \<Rightarrow> pi_module outcome" where
  "pi_mod_exit m =
     (if pi_on_exit (pi_state m) = 0 then Block
      else let s = pi_state m;
               m = (if pi_thread_id m \<noteq> 0 then m\<lparr>pi_kills := pi_kills m @ [pi_thread_id m]\<rparr> else m)
      in Go (m\<lparr>pi_devices := remove1 MAJOR_NUM (pi_devices m),
                pi_state := s\<lparr>pi_on_exit := pi_on_exit s - 1, pi_global_buffer := None\<rparr>\<rparr>))"

definition pi_init :: "string \<Rightarrow> pioctl" where
  "pi_init b = \<lparr>pi_callback_mutex = 1, pi_ping_mutex = 1, pi_wq_flag = 1, pi_global_buffer = Some b,
     pi_on_exit = 0, pi_log = []\<rparr>"

section \<open>The ioctl test ends\<close>

fun pi_ready :: "ioctl_pong_pc \<Rightarrow> bool" where
  "pi_ready (J_Ioctl I_Up) = True"
| "pi_ready (J_Ioctl I_Down) = True"
| "pi_ready (J_Ioctl I_Wait) = True"
| "pi_ready _ = False"

fun pi_rank :: "ioctl_pong_pc \<Rightarrow> nat" where
  "pi_rank (J_Ioctl I_Wait) = 0"
| "pi_rank (J_Ioctl I_Down) = 1"
| "pi_rank (J_Ioctl I_Up) = 2"
| "pi_rank (J_Ioctl I_Flag) = 3"
| "pi_rank (J_Ioctl I_Strcpy) = 4"
| "pi_rank J_Loop = 5"
| "pi_rank J_Open = 6"
| "pi_rank (J_Ioctl (I_Ret r)) = 6"
| "pi_rank (J_Ioctl I_Copy) = 7"
| "pi_rank (J_Exit r) = 0"

text \<open>The array of the program has its own string except while an ioctl is returning.\<close>

fun pi_user_ok :: "string \<Rightarrow> ioctl_pong_pc \<Rightarrow> bool" where
  "pi_user_ok ub (J_Exit r) = False"
| "pi_user_ok ub J_Open = (6 \<le> length ub)"
| "pi_user_ok ub (J_Ioctl (I_Ret r)) = (6 \<le> length ub)"
| "pi_user_ok ub q = (6 \<le> length ub \<and> take 5 ub = PONG)"

definition pi_buffer_ok :: "pioctl \<Rightarrow> bool" where
  "pi_buffer_ok s \<longleftrightarrow> (case pi_global_buffer s of None \<Rightarrow> False | Some b \<Rightarrow> length b = 6)"

fun pi_inv :: "pi_sys \<Rightarrow> bool" where
  "pi_inv (s, t, ub, q) \<longleftrightarrow> thread_range t \<and> (pi_wq_flag s = 1 \<or> pi_wq_flag s = 0 \<and> at_ping t = P_Wait) \<and>
     pi_ping_mutex s = (if holds_mutex (at_ping t) then 0 else 1) \<and>
     pi_callback_mutex s = (if q = J_Ioctl I_Down then 2 else 1) \<and>
     length (pi_log s) = lines_due t \<and> pi_on_exit s = (if t = TC_Exited then 1 else 0) \<and>
     pi_buffer_ok s \<and> pi_user_ok ub q"

fun pi_work :: "pi_sys \<Rightarrow> nat" where
  "pi_work (s, t, ub, q) = 8 * (thread_asks t + (if pi_wq_flag s = 0 \<and> pi_ready q then 1 else 0)) + pi_rank q + thread_work t"

fun pi_final :: "pi_sys \<Rightarrow> bool" where
  "pi_final (s, t, ub, q) = (t = TC_Exited)"

text \<open>Both strings fit into the buffer of the module.\<close>

lemma pi_strcpy_ok:
  assumes "pi_buffer_ok s" "length (c_string str) \<le> 5"
  shows "\<exists>b. pi_strcpy str s = Some (s\<lparr>pi_global_buffer := Some b\<rparr>) \<and> length b = 6"
  using assms by (auto simp: pi_buffer_ok_def pi_strcpy_def Let_def overwrite_def split: option.splits)

lemma pi_strcpy_go:
  assumes "pi_strcpy str s = Some s'" "pi_buffer_ok s"
  shows "pi_buffer_ok s' \<and> (\<exists>b. s' = s\<lparr>pi_global_buffer := Some b\<rparr>)"
  using assms by (auto simp: pi_buffer_ok_def pi_strcpy_def Let_def overwrite_def split: option.splits if_splits Option.bind_splits)

lemma pi_strcpy_flag: "pi_strcpy str s = Some s' \<Longrightarrow> pi_wq_flag s' = pi_wq_flag s"
  by (auto simp: pi_strcpy_def Let_def split: if_splits Option.bind_splits)

lemma c_string_ping: "length (c_string ''ping'') \<le> 5"
  by (simp add: c_string_def)

lemma c_string_PONG:
  assumes "6 \<le> length ub" "take 5 ub = PONG"
  shows "length (c_string ub) \<le> 5"
proof -
  have "ub = PONG @ drop 5 ub" using assms by (metis append_take_drop_id)
  moreover have "c_string (PONG @ xs) = ''pong''" for xs by (simp add: c_string_def PONG_def)
  ultimately have "c_string ub = ''pong''" by metis
  then show ?thesis by simp
qed

lemma PONG_overwrite: "6 \<le> length ub \<Longrightarrow> take 5 (overwrite ub 0 PONG) = PONG \<and> length (overwrite ub 0 PONG) = length ub"
  by (simp add: PONG_def overwrite_def)

lemma pi_ping_moves:
  assumes "pi_thread_code_step \<lparr>e_ok = True, e_signal = False\<rparr> hz jiffies s t = Go (s', t')" "thread_range t"
  shows "thread_moves t t' \<and> pi_wq_flag s' = (if at_ping t = P_Flag then 0 else pi_wq_flag s)"
proof (cases t)
  case (TC_Loop i)
  then show ?thesis using assms by (auto simp: loop_moves)
next
  case (TC_Test i pc)
  show ?thesis
  proof (cases pc)
    case (PT_Ping j t1 p)
    then show ?thesis
      using assms TC_Test ping_moves [of _ p i j t1] test_moves
      by (cases p) (auto simp: wait_event_def pi_strcpy_flag split: if_splits option.splits)
  qed (use assms TC_Test test_moves in \<open>auto split: if_splits\<close>)
qed (use assms test_moves in auto)

lemma pi_ping_inv:
  assumes "pi_thread_code_step \<lparr>e_ok = True, e_signal = False\<rparr> hz jiffies s t = Go (s', t')" "pi_inv (s, t, ub, q)"
  shows "pi_inv (s', t', ub, q)"
proof (cases t)
  case (TC_Loop i)
  then show ?thesis using assms by (cases "i < 30") (auto simp: holds_mutex_def)
next
  case (TC_Test i pc)
  have b: "pi_buffer_ok s" using assms(2) by simp
  show ?thesis
  proof (cases pc)
    case (PT_Ping j t1 p)
    show ?thesis
    proof (cases "p = P_Store")
      case True
      then obtain b where "s' = s\<lparr>pi_global_buffer := Some b\<rparr>" "pi_buffer_ok s'" "t' = TC_Test i (PT_Ping j t1 P_Flag)"
        using assms(1) TC_Test PT_Ping pi_strcpy_go [OF _ b] by (auto split: option.splits)
      then show ?thesis using assms(2) TC_Test PT_Ping True by (simp add: holds_mutex_def)
    next
      case False
      then show ?thesis
        using assms TC_Test PT_Ping by (cases p; clarsimp simp: holds_mutex_def wait_event_def pi_buffer_ok_def split: if_split_asm)
    qed
  next
    case (PT_Loop j t1)
    then show ?thesis using assms TC_Test by (cases "j < RUNS") (auto simp: holds_mutex_def pi_buffer_ok_def)
  qed (use assms TC_Test in \<open>auto simp: holds_mutex_def\<close>)
qed (use assms in \<open>auto simp: holds_mutex_def pi_buffer_ok_def\<close>)

lemma pi_ping_work:
  assumes "pi_thread_code_step \<lparr>e_ok = True, e_signal = False\<rparr> hz jiffies s t = Go (s', t')" "pi_inv (s, t, ub, q)"
  shows "pi_work (s', t', ub, q) < pi_work (s, t, ub, q)"
proof -
  have "thread_moves t t'" "pi_wq_flag s' = (if at_ping t = P_Flag then 0 else pi_wq_flag s)"
    using pi_ping_moves [OF assms(1)] assms(2) by simp_all
  then show ?thesis using assms(2) by (auto simp: thread_moves_def)
qed

lemma pi_pong_work:
  "pi_pong_step \<lparr>e_ok = True, e_signal = False\<rparr> s ub q = Go (s', ub', q') \<Longrightarrow> pi_work (s', t, ub', q') < pi_work (s, t, ub, q)"
proof (cases q)
  case (J_Ioctl pc)
  moreover assume "pi_pong_step \<lparr>e_ok = True, e_signal = False\<rparr> s ub q = Go (s', ub', q')"
  ultimately show ?thesis
    by (cases pc) (auto simp: wait_event_def pi_strcpy_flag split: if_split_asm option.split_asm)
qed (auto simp: Let_def)

lemma pi_pong_inv:
  assumes "pi_pong_step \<lparr>e_ok = True, e_signal = False\<rparr> s ub q = Go (s', ub', q')" "pi_inv (s, t, ub, q)"
  shows "pi_inv (s', t, ub', q')"
proof (cases q)
  case (J_Ioctl pc)
  have b: "pi_buffer_ok s" using assms(2) by simp
  show ?thesis
  proof (cases pc)
    case I_Strcpy
    obtain b where "s' = s\<lparr>pi_global_buffer := Some b\<rparr>" "pi_buffer_ok s'" "ub' = ub" "q' = J_Ioctl I_Flag"
      using assms(1) J_Ioctl I_Strcpy pi_strcpy_go [OF _ b] by (auto split: option.splits)
    then show ?thesis using assms(2) J_Ioctl I_Strcpy by simp
  next
    case I_Copy
    then show ?thesis
      using assms J_Ioctl by (auto simp: pi_buffer_ok_def overwrite_def split: option.splits)
  next
    case (I_Ret r)
    then show ?thesis using assms J_Ioctl PONG_overwrite [of ub] by (clarsimp split: if_split_asm)
  qed (use assms J_Ioctl in \<open>auto simp: wait_event_def pi_buffer_ok_def split: if_split_asm\<close>)
qed (use assms PONG_overwrite in \<open>auto simp: Let_def split: if_split_asm\<close>)

lemma pi_progress:
  assumes "pi_inv (s, t, ub, q)" "t \<noteq> TC_Exited"
  shows "\<exists>k. pi_step False hz (s, t, ub, q) k"
proof -
  obtain b where b: "pi_global_buffer s = Some b" "pi_buffer_ok s"
    using assms(1) by (auto simp: pi_buffer_ok_def split: option.splits)
  show ?thesis
  proof (cases "at_ping t = P_Wait \<and> pi_wq_flag s = 0")
    case True
    have "\<exists>s' ub' q'. pi_pong_step \<lparr>e_ok = True, e_signal = False\<rparr> s ub q = Go (s', ub', q')"
    proof (cases q)
      case (J_Ioctl pc)
      have "length (c_string ub) \<le> 5" if "pc = I_Strcpy" using assms(1) that J_Ioctl by (auto intro: c_string_PONG)
      then show ?thesis
        using assms(1) True J_Ioctl b pi_strcpy_ok [OF b(2), of ub] by (cases pc) (auto simp: wait_event_def)
    qed (use assms(1) in \<open>simp_all add: Let_def\<close>)
    then show ?thesis by (blast intro: pi_step.pong)
  next
    case False
    have "\<exists>s' t'. pi_thread_code_step \<lparr>e_ok = True, e_signal = False\<rparr> hz 0 s t = Go (s', t')"
    proof (cases t)
      case (TC_Test i pc)
      show ?thesis
      proof (cases pc)
        case (PT_Ping j t1 p)
        then show ?thesis
          using assms TC_Test False pi_strcpy_ok [OF b(2) c_string_ping]
          by (cases p) (auto simp: holds_mutex_def wait_event_def)
      qed (use TC_Test in auto)
    qed (use assms in auto)
    then show ?thesis by (blast intro: pi_step.ping)
  qed
qed

lemma pi_step_ok: "pi_step False hz k k' \<Longrightarrow> pi_inv k \<Longrightarrow> pi_inv k' \<and> pi_work k' < pi_work k"
proof (induction rule: pi_step.induct)
  case (ping g jiffies s t s' t' ub q)
  then show ?case using pi_ping_inv [of hz jiffies s t s' t' ub q] pi_ping_work [of hz jiffies s t s' t' ub q] by simp
next
  case (pong g s ub q s' ub' q' t)
  then show ?case using pi_pong_inv [of s ub q s' ub' q' t] pi_pong_work [of s ub q s' ub' q' t] by simp
qed

interpretation pi_run: live_system "pi_step False hz" pi_inv pi_work pi_final for hz
proof
  show "pi_inv k'" if "pi_inv k" "pi_step False hz k k'" for k k' using pi_step_ok [OF that(2,1)] by simp
  show "pi_work k' < pi_work k" if "pi_inv k" "pi_step False hz k k'" for k k' using pi_step_ok [OF that(2,1)] by simp
  show "\<exists>k'. pi_step False hz k k'" if "pi_inv k" "\<not> pi_final k" for k
    using that pi_progress by (cases k rule: pi_final.cases) auto
qed

lemma pi_inv_init: "length b = 6 \<Longrightarrow> 6 \<le> length ub \<Longrightarrow> pi_inv (pi_init b, TC_Loop 0, ub, J_Open)"
  by (simp add: pi_init_def holds_mutex_def pi_buffer_ok_def)

text \<open>The ioctl test ends, too: with a buffer allocated and no signals every run is of bounded length and
  cannot stop before the kernel thread has printed its 30 lines and finished. The module can then
  be unloaded, but its device stays registered unless the kernel happened to choose number 240.\<close>

theorem ioctl_ping_pong_ends:
  assumes "length b = 6" "6 \<le> length ub" "(pi_step False hz ^^ k) (pi_init b, TC_Loop 0, ub, J_Open) (s, t, ub', q)"
  shows "k \<le> 450158 \<and> ((\<exists>x. pi_step False hz (s, t, ub', q) x) \<or> t = TC_Exited) \<and>
    (t = TC_Exited \<longrightarrow> length (pi_log s) = 30 \<and>
       (\<forall>m major. pi_state m = s \<longrightarrow> pi_devices m = [major] \<longrightarrow>
          (\<exists>m'. pi_mod_exit m = Go m' \<and> pi_devices m' = (if major = 240 then [] else [major]))))"
proof -
  have "pi_work (pi_init b, TC_Loop 0, ub, J_Open) = 450158" by (simp add: pi_init_def RUNS_def)
  then have k: "pi_inv (s, t, ub', q)" "k \<le> 450158"
    using pi_run.run_length [OF assms(3) pi_inv_init [OF assms(1,2)]] by simp_all
  have "(\<exists>x. pi_step False hz (s, t, ub', q) x) \<or> t = TC_Exited" using pi_progress [OF k(1)] by blast
  moreover have "length (pi_log s) = 30 \<and> pi_on_exit s = 1" if "t = TC_Exited" using k(1) that by simp
  ultimately show ?thesis using k(2) by (auto simp: pi_mod_exit_def Let_def MAJOR_NUM_def)
qed

theorem ioctl_ping_pong_ends_witness:
  "\<exists>k s ub q. (pi_step False 250 ^^ k) (pi_init ''123456'', TC_Loop 0, ''abcdefgh'', J_Open) (s, TC_Exited, ub, q) \<and>
     k \<le> 450158 \<and> length (pi_log s) = 30"
proof -
  have "pi_inv (pi_init ''123456'', TC_Loop 0, ''abcdefgh'', J_Open)" by (rule pi_inv_init) simp_all
  then obtain s ub q where "(pi_step False 250)\<^sup>*\<^sup>* (pi_init ''123456'', TC_Loop 0, ''abcdefgh'', J_Open) (s, TC_Exited, ub, q)"
    using pi_run.ends [of _ 250] by fastforce
  then obtain k where k: "(pi_step False 250 ^^ k) (pi_init ''123456'', TC_Loop 0, ''abcdefgh'', J_Open) (s, TC_Exited, ub, q)"
    by (auto dest: rtranclp_imp_relpowp)
  have "length ''123456'' = 6" "6 \<le> length ''abcdefgh''" by simp_all
  from ioctl_ping_pong_ends [OF this k] show ?thesis using k by blast
qed

text \<open>Runs as lists of choices: \<open>True\<close> lets the kernel thread step, \<open>False\<close> the program.\<close>

fun pi_choices :: "bool list \<Rightarrow> pi_sys \<Rightarrow> pi_sys outcome" where
  "pi_choices [] k = Go k"
| "pi_choices (True # cs) (s, t, ub, q) =
     obind (pi_thread_code_step \<lparr>e_ok = True, e_signal = False\<rparr> 250 0 s t) (\<lambda>(s, t). pi_choices cs (s, t, ub, q))"
| "pi_choices (False # cs) (s, t, ub, q) =
     obind (pi_pong_step \<lparr>e_ok = True, e_signal = False\<rparr> s ub q) (\<lambda>(s, ub, q). pi_choices cs (s, t, ub, q))"

lemma pi_choices_run: "pi_choices cs k = Go k' \<Longrightarrow> (pi_step False 250)\<^sup>*\<^sup>* k k'"
proof (induction cs k rule: pi_choices.induct)
  case (2 cs s t ub q)
  then obtain s' t' where "pi_thread_code_step \<lparr>e_ok = True, e_signal = False\<rparr> 250 0 s t = Go (s', t')"
    "pi_choices cs (s', t', ub, q) = Go k'"
    by (cases "pi_thread_code_step \<lparr>e_ok = True, e_signal = False\<rparr> 250 0 s t") auto
  then show ?case using 2(1) by (auto intro: converse_rtranclp_into_rtranclp pi_step.ping)
next
  case (3 cs s t ub q)
  then obtain s' ub' q' where "pi_pong_step \<lparr>e_ok = True, e_signal = False\<rparr> s ub q = Go (s', ub', q')"
    "pi_choices cs (s', t, ub', q') = Go k'"
    by (cases "pi_pong_step \<lparr>e_ok = True, e_signal = False\<rparr> s ub q") auto
  then show ?case using 3(1) by (auto intro: converse_rtranclp_into_rtranclp pi_step.pong)
qed simp

text \<open>Two faults of the ioctl test that the final module avoids or repeats: the first ioctl can overtake
  a ping between its store and its flag, so that the program is notified with its own string; and
  every notification writes a sixth byte behind the array of five.\<close>

theorem ioctl_ping_races:
  "\<exists>s t. (pi_step False 250)\<^sup>*\<^sup>* (pi_init ''123456'', TC_Loop 0, ''abcdefgh'', J_Open)
     (s, t, ''pong'' @ [CHR 0x00] @ ''6gh'', J_Ioctl (I_Ret 0)) \<and> at_ping t = P_Wait"
proof -
  let ?cs = "replicate 5 True @ replicate 6 False @ [True] @ replicate 2 False"
  have "case pi_choices ?cs (pi_init ''123456'', TC_Loop 0, ''abcdefgh'', J_Open) of
      Go (s, t, ub, q) \<Rightarrow> ub = ''pong'' @ [CHR 0x00] @ ''6gh'' \<and> q = J_Ioctl (I_Ret 0) \<and> at_ping t = P_Wait | _ \<Rightarrow> False"
    by code_simp
  then show ?thesis using pi_choices_run by (fastforce split: outcome.splits prod.splits)
qed

end
