(* ===== verification/Proto_Netlink.thy ===== *)
theory Proto_Netlink
  imports User_Server Proto_Ping
begin

text \<open>
  The prototypes \<open>prototypes/ping_pong_nl_ksp\<close> and \<open>prototypes/ping_pong_nl_usp\<close>: ping-pong over netlink,
  started by the kernel module or by the program. In the first, kernel thread and program are step
  functions that \<open>pn_step\<close> interleaves; a message of the program runs the module's \<open>nl_data_ready\<close> in
  the context of \<open>sendmsg\<close>. Every run without failures is finite and ends with the program
  returned and the kernel thread waiting, which makes unloading the module impossible. In the
  second, the module answers within \<open>sendmsg\<close>, so the program is a function.
\<close>

section \<open>Ping from the kernel\<close>

text \<open>A message of the program has its process id and the bytes of its payload, a message of the
  module its addressee and its payload. \<open>kfree_skb\<close> leaves \<open>skb_global\<close> dangling; it is \<^term>\<open>None\<close> then.\<close>

type_synonym nl_packet = "u32 \<times> u8 list"

record pnl =
  pn_wq_flag :: int
  pn_skb :: "nl_packet option"
  pn_pid :: u32
  pn_thread_flag :: int
  pn_queue :: "nl_packet list"
  pn_on_exit :: nat
  pn_log :: "int list"

definition ping_bytes :: "u8 list" where
  "ping_bytes = [112, 105, 110, 103]"

definition pong_string :: "u8 list" where
  "pong_string = [112, 111, 110, 103, 0]"

datatype data_ready_pc = DR_Wait nl_packet | DR_Copy nl_packet | DR_Flag | DR_Ret

fun pn_nl_data_ready_step :: "env \<Rightarrow> pnl \<Rightarrow> data_ready_pc \<Rightarrow> (pnl \<times> data_ready_pc) outcome" where
  "pn_nl_data_ready_step e s (DR_Wait skb) = wait_event e (pn_wq_flag s = 0) (s, DR_Copy skb)"
| "pn_nl_data_ready_step e s (DR_Copy skb) = Go (s\<lparr>pn_skb := if e_ok e then Some skb else None\<rparr>, DR_Flag)"
| "pn_nl_data_ready_step e s DR_Flag = Go (s\<lparr>pn_wq_flag := 1\<rparr>, DR_Ret)"
| "pn_nl_data_ready_step e s DR_Ret = Block"

definition pn_recv_ask :: "pnl \<Rightarrow> pnl" where
  "pn_recv_ask s = s\<lparr>pn_wq_flag := 0\<rparr>"

text \<open>\<open>nl_recv_pkg\<close> after its wait, \<open>nlmsg_hdr\<close>, the process id and \<open>kfree_skb\<close>.\<close>

definition pn_recv_wait :: "env \<Rightarrow> pnl \<Rightarrow> pnl outcome" where
  "pn_recv_wait e s = (if pn_wq_flag s = 1 \<or> e_signal e then
     case pn_skb s of None \<Rightarrow> Fault | Some skb \<Rightarrow> Go (s\<lparr>pn_pid := fst skb, pn_skb := None\<rparr>) else Block)"

datatype nl_test_pc = NT_Ask | NT_Wait | NT_Loop nat u64 | NT_New nat u64 | NT_Put nat u64 | NT_Send nat u64
  | NT_Ask2 nat u64 | NT_Wait2 nat u64 | NT_Ret

text \<open>A failed \<open>nlmsg_new\<close> or \<open>nlmsg_put\<close> is dereferenced, a failed \<open>netlink_unicast\<close> loses the message. The
  payload has the four bytes of \<open>strlen\<close>; the terminator is stored behind it.\<close>

fun netlink_test_step :: "env \<Rightarrow> int \<Rightarrow> u64 \<Rightarrow> pnl \<Rightarrow> nl_test_pc \<Rightarrow> (pnl \<times> nl_test_pc) outcome" where
  "netlink_test_step e hz jiffies s NT_Ask = Go (pn_recv_ask s, NT_Wait)"
| "netlink_test_step e hz jiffies s NT_Wait = obind (pn_recv_wait e s) (\<lambda>s. Go (s, NT_Loop 0 jiffies))"
| "netlink_test_step e hz jiffies s (NT_Loop i t1) =
     (if i < RUNS then Go (s, NT_New i t1)
      else Go (s\<lparr>pn_log := pn_log s @ [test_msec hz t1 jiffies]\<rparr>, NT_Ret))"
| "netlink_test_step e hz jiffies s (NT_New i t1) = (if e_ok e then Go (s, NT_Put i t1) else Fault)"
| "netlink_test_step e hz jiffies s (NT_Put i t1) = (if e_ok e then Go (s, NT_Send i t1) else Fault)"
| "netlink_test_step e hz jiffies s (NT_Send i t1) =
     Go (if e_ok e then s\<lparr>pn_queue := pn_queue s @ [(pn_pid s, ping_bytes)]\<rparr> else s, NT_Ask2 i t1)"
| "netlink_test_step e hz jiffies s (NT_Ask2 i t1) = Go (pn_recv_ask s, NT_Wait2 i t1)"
| "netlink_test_step e hz jiffies s (NT_Wait2 i t1) = obind (pn_recv_wait e s) (\<lambda>s. Go (s, NT_Loop (Suc i) t1))"
| "netlink_test_step e hz jiffies s NT_Ret = Block"

datatype nl_thread_pc = NC_Loop | NC_Test nl_test_pc | NC_Complete | NC_Exited

fun pn_thread_code_step :: "env \<Rightarrow> int \<Rightarrow> u64 \<Rightarrow> pnl \<Rightarrow> nl_thread_pc \<Rightarrow> (pnl \<times> nl_thread_pc) outcome" where
  "pn_thread_code_step e hz jiffies s NC_Loop = Go (s, if pn_thread_flag s = 0 then NC_Test NT_Ask else NC_Complete)"
| "pn_thread_code_step e hz jiffies s (NC_Test pc) =
     (case pc of NT_Ret \<Rightarrow> Go (s, NC_Loop)
      | _ \<Rightarrow> obind (netlink_test_step e hz jiffies s pc) (\<lambda>(s, pc). Go (s, NC_Test pc)))"
| "pn_thread_code_step e hz jiffies s NC_Complete = Go (s\<lparr>pn_on_exit := pn_on_exit s + 1\<rparr>, NC_Exited)"
| "pn_thread_code_step e hz jiffies s NC_Exited = Block"

section \<open>The answering program\<close>

text \<open>Its packet functions are those of the daemon (\<open>gen_message_container\<close>, \<open>add_payload\<close>,
  \<open>get_payload\<close>, \<open>destroy_message_container\<close> of \<open>User_Server\<close>), which were taken over from here.\<close>

record pn_pong =
  q_pid :: u32
  q_server :: msghdr
  q_client :: msghdr
  q_buffer :: "u8 list"
  q_times :: nat

datatype nl_pong_pc = N_Outer nat | N_Init nat data_ready_pc | N_Inner nat nat | N_Pong nat nat data_ready_pc | N_Exit int

definition pn_send :: "u8 list \<Rightarrow> pn_pong \<Rightarrow> (pn_pong \<times> nl_packet) option" where
  "pn_send payload q = do {
     msg \<leftarrow> add_payload (q_server q) payload;
     nlh \<leftarrow> msg_iov msg;
     Some (q\<lparr>q_server := msg\<rparr>, (nlmsg_pid nlh, nlmsg_data nlh)) }"

definition pn_receive :: "u8 list \<Rightarrow> pn_pong \<Rightarrow> pn_pong option" where
  "pn_receive packet q = do {
     msg \<leftarrow> recvmsg (q_client q) packet;
     buffer \<leftarrow> get_payload msg (q_buffer q);
     Some (q\<lparr>q_client := msg, q_buffer := buffer\<rparr>) }"

fun pn_pong_step :: "env \<Rightarrow> pnl \<Rightarrow> pn_pong \<Rightarrow> nl_pong_pc \<Rightarrow> (pnl \<times> pn_pong \<times> nl_pong_pc) outcome" where
  "pn_pong_step e s q (N_Outer j) =
     (if j < 30 then obind (or_fault (pn_send init_string q)) (\<lambda>(q, packet). Go (s, q, N_Init j (DR_Wait packet)))
      else obind (or_fault (do {
        sv \<leftarrow> destroy_message_container (q_server q);
        cl \<leftarrow> destroy_message_container (q_client q);
        Some (q\<lparr>q_server := sv, q_client := cl\<rparr>) })) (\<lambda>q. Go (s, q, N_Exit 0)))"
| "pn_pong_step e s q (N_Init j pc) =
     (case pc of DR_Ret \<Rightarrow> Go (s, q, N_Inner j 0)
      | _ \<Rightarrow> obind (pn_nl_data_ready_step e s pc) (\<lambda>(s, pc). Go (s, q, N_Init j pc)))"
| "pn_pong_step e s q (N_Inner j i) =
     (if i < RUNS then
        (case pn_queue s of [] \<Rightarrow> Block
         | (to, packet) # rest \<Rightarrow> if to \<noteq> q_pid q then Block else
             obind (or_fault (do {
               q \<leftarrow> pn_receive packet q;
               pn_send pong_string q })) (\<lambda>(q, reply).
             Go (s\<lparr>pn_queue := rest\<rparr>, q, N_Pong j i (DR_Wait reply))))
      else Go (s, q\<lparr>q_times := q_times q + 1\<rparr>, N_Outer (Suc j)))"
| "pn_pong_step e s q (N_Pong j i pc) =
     (case pc of DR_Ret \<Rightarrow> Go (s, q, N_Inner j (Suc i))
      | _ \<Rightarrow> obind (pn_nl_data_ready_step e s pc) (\<lambda>(s, pc). Go (s, q, N_Pong j i pc)))"
| "pn_pong_step e s q (N_Exit r) = Block"

type_synonym pn_sys = "pnl \<times> nl_thread_pc \<times> pn_pong \<times> nl_pong_pc"

inductive pn_step :: "int \<Rightarrow> pn_sys \<Rightarrow> pn_sys \<Rightarrow> bool" for hz where
  ping: "pn_thread_code_step calm hz jiffies s t = Go (s', t') \<Longrightarrow> pn_step hz (s, t, q, pc) (s', t', q, pc)"
| pong: "pn_pong_step calm s q pc = Go (s', q', pc') \<Longrightarrow> pn_step hz (s, t, q, pc) (s', t, q', pc')"

record pn_module =
  pn_state :: pnl
  pn_nl_sk :: bool
  pn_thread_id :: int
  pn_kills :: "int list"

definition pn_mod_init :: "bool \<Rightarrow> int \<Rightarrow> pn_module \<Rightarrow> int \<times> pn_module" where
  "pn_mod_init create_ok kernel_thread m =
     (let m = m\<lparr>pn_nl_sk := create_ok, pn_thread_id := kernel_thread\<rparr> in
      if pn_thread_id m = 0 then (- EIO, m) else (0, m))"

text \<open>\<open>mod_exit\<close> sets the flag, then waits for the thread; \<open>pn_mod_exit_wait\<close> is the rest of it.\<close>

definition pn_mod_exit_flag :: "pnl \<Rightarrow> pnl" where
  "pn_mod_exit_flag s = s\<lparr>pn_thread_flag := 1\<rparr>"

definition pn_mod_exit_wait :: "pn_module \<Rightarrow> pn_module outcome" where
  "pn_mod_exit_wait m =
     (if pn_on_exit (pn_state m) = 0 then Block
      else let s = pn_state m; m = m\<lparr>pn_state := s\<lparr>pn_on_exit := pn_on_exit s - 1\<rparr>\<rparr>;
               m = (if pn_thread_id m \<noteq> 0 then m\<lparr>pn_kills := pn_kills m @ [pn_thread_id m]\<rparr> else m)
      in Go (if pn_nl_sk m then m\<lparr>pn_nl_sk := False\<rparr> else m))"

definition pn_init :: pnl where
  "pn_init = \<lparr>pn_wq_flag = 2, pn_skb = None, pn_pid = 0, pn_thread_flag = 0, pn_queue = [], pn_on_exit = 0, pn_log = []\<rparr>"

definition pn_pong_init :: "u32 \<Rightarrow> u8 list \<Rightarrow> pn_pong" where
  "pn_pong_init pid junk = \<lparr>q_pid = pid, q_server = gen_message_container pid, q_client = gen_message_container pid,
     q_buffer = junk, q_times = 0\<rparr>"

section \<open>Counting messages\<close>

text \<open>The messages the thread has received and sent, with \<open>a\<close> tests finished; in each it receives one
  message and then sends and receives \<open>RUNS\<close> times.\<close>

fun t_waiting :: "nl_thread_pc \<Rightarrow> bool" where
  "t_waiting (NC_Test NT_Wait) = True"
| "t_waiting (NC_Test (NT_Wait2 i t1)) = True"
| "t_waiting _ = False"

fun t_sending :: "nl_thread_pc \<Rightarrow> bool" where
  "t_sending (NC_Test (NT_Loop i t1)) = True"
| "t_sending (NC_Test (NT_New i t1)) = True"
| "t_sending (NC_Test (NT_Put i t1)) = True"
| "t_sending (NC_Test (NT_Send i t1)) = True"
| "t_sending _ = False"

fun t_recvs :: "nat \<Rightarrow> nl_thread_pc \<Rightarrow> nat" where
  "t_recvs a (NC_Test (NT_Loop i t1)) = a * 1001 + 1 + i"
| "t_recvs a (NC_Test (NT_New i t1)) = a * 1001 + 1 + i"
| "t_recvs a (NC_Test (NT_Put i t1)) = a * 1001 + 1 + i"
| "t_recvs a (NC_Test (NT_Send i t1)) = a * 1001 + 1 + i"
| "t_recvs a (NC_Test (NT_Ask2 i t1)) = a * 1001 + 1 + i"
| "t_recvs a (NC_Test (NT_Wait2 i t1)) = a * 1001 + 1 + i"
| "t_recvs a _ = a * 1001"

fun t_sends :: "nat \<Rightarrow> nl_thread_pc \<Rightarrow> nat" where
  "t_sends a (NC_Test (NT_Loop i t1)) = a * 1000 + i"
| "t_sends a (NC_Test (NT_New i t1)) = a * 1000 + i"
| "t_sends a (NC_Test (NT_Put i t1)) = a * 1000 + i"
| "t_sends a (NC_Test (NT_Send i t1)) = a * 1000 + i"
| "t_sends a (NC_Test (NT_Ask2 i t1)) = a * 1000 + i + 1"
| "t_sends a (NC_Test (NT_Wait2 i t1)) = a * 1000 + i + 1"
| "t_sends a _ = a * 1000"

fun t_range :: "nl_thread_pc \<Rightarrow> bool" where
  "t_range (NC_Test (NT_Loop i t1)) = (i \<le> 1000)"
| "t_range (NC_Test (NT_New i t1)) = (i < 1000)"
| "t_range (NC_Test (NT_Put i t1)) = (i < 1000)"
| "t_range (NC_Test (NT_Send i t1)) = (i < 1000)"
| "t_range (NC_Test (NT_Ask2 i t1)) = (i < 1000)"
| "t_range (NC_Test (NT_Wait2 i t1)) = (i < 1000)"
| "t_range NC_Complete = False"
| "t_range NC_Exited = False"
| "t_range _ = True"

fun t_rank :: "nl_thread_pc \<Rightarrow> nat" where
  "t_rank (NC_Test (NT_Loop i t1)) = 5"
| "t_rank (NC_Test (NT_New i t1)) = 4"
| "t_rank (NC_Test (NT_Put i t1)) = 3"
| "t_rank (NC_Test (NT_Send i t1)) = 2"
| "t_rank (NC_Test (NT_Ask2 i t1)) = 1"
| "t_rank (NC_Test NT_Ret) = 3"
| "t_rank NC_Loop = 2"
| "t_rank (NC_Test NT_Ask) = 1"
| "t_rank _ = 0"

text \<open>The program has sent a message when \<open>nl_data_ready\<close> has returned.\<close>

fun dr_sent :: "data_ready_pc \<Rightarrow> nat" where
  "dr_sent DR_Ret = 1"
| "dr_sent _ = 0"

fun dr_rank :: "data_ready_pc \<Rightarrow> nat" where
  "dr_rank DR_Ret = 6"
| "dr_rank (DR_Wait p) = 3"
| "dr_rank (DR_Copy p) = 2"
| "dr_rank DR_Flag = 1"

fun p_sends :: "nl_pong_pc \<Rightarrow> nat" where
  "p_sends (N_Outer j) = j * 1001"
| "p_sends (N_Init j d) = j * 1001 + dr_sent d"
| "p_sends (N_Inner j i) = j * 1001 + 1 + i"
| "p_sends (N_Pong j i d) = j * 1001 + 1 + i + dr_sent d"
| "p_sends (N_Exit r) = 30030"

fun p_recvs :: "nl_pong_pc \<Rightarrow> nat" where
  "p_recvs (N_Outer j) = j * 1000"
| "p_recvs (N_Init j d) = j * 1000"
| "p_recvs (N_Inner j i) = j * 1000 + i"
| "p_recvs (N_Pong j i d) = j * 1000 + i + 1"
| "p_recvs (N_Exit r) = 30000"

fun p_range :: "nl_pong_pc \<Rightarrow> bool" where
  "p_range (N_Outer j) = (j \<le> 30)"
| "p_range (N_Init j d) = (j < 30)"
| "p_range (N_Inner j i) = (j < 30 \<and> i \<le> 1000)"
| "p_range (N_Pong j i d) = (j < 30 \<and> i < 1000)"
| "p_range (N_Exit r) = (r = 0)"

fun p_rank :: "nl_pong_pc \<Rightarrow> nat" where
  "p_rank (N_Outer j) = (if j < 30 then 4 else 1)"
| "p_rank (N_Init j d) = dr_rank d"
| "p_rank (N_Inner j i) = (if i < 1000 then 4 else 5)"
| "p_rank (N_Pong j i d) = dr_rank d"
| "p_rank (N_Exit r) = 0"

fun p_data :: "nl_pong_pc \<Rightarrow> data_ready_pc" where
  "p_data (N_Init j d) = d"
| "p_data (N_Pong j i d) = d"
| "p_data _ = DR_Ret"

text \<open>The message the program is about to store, and the one it has stored.\<close>

fun dr_ok :: "u32 \<Rightarrow> pnl \<Rightarrow> data_ready_pc \<Rightarrow> bool" where
  "dr_ok pid s (DR_Wait p) = (fst p = pid)"
| "dr_ok pid s (DR_Copy p) = (fst p = pid \<and> pn_wq_flag s = 0)"
| "dr_ok pid s DR_Flag = (map_option fst (pn_skb s) = Some pid \<and> pn_wq_flag s = 0)"
| "dr_ok pid s DR_Ret = True"

definition msg_ok :: "u32 \<Rightarrow> msghdr \<Rightarrow> bool" where
  "msg_ok pid msg \<longleftrightarrow> msg_name msg \<noteq> None \<and> (case msg_iov msg of None \<Rightarrow> False
     | Some nlh \<Rightarrow> nlmsg_pid nlh = pid \<and> length (nlmsg_data nlh) = 1024)"

definition pong_ok :: "pn_pong \<Rightarrow> bool" where
  "pong_ok q \<longleftrightarrow> msg_ok (q_pid q) (q_server q) \<and> msg_ok (q_pid q) (q_client q) \<and>
     (case msg_iov (q_client q) of None \<Rightarrow> False | Some nlh \<Rightarrow> drop 4 (nlmsg_data nlh) = replicate 1020 0)"

definition heard :: "u8 list \<Rightarrow> bool" where
  "heard b \<longleftrightarrow> take 5 b = ping_bytes @ [0]"

fun pn_link :: "pnl \<Rightarrow> nl_thread_pc \<Rightarrow> u32 \<Rightarrow> bool" where
  "pn_link s t pid \<longleftrightarrow> (pn_wq_flag s = 0 \<longrightarrow> t_waiting t) \<and> (t_waiting t \<longrightarrow> pn_wq_flag s = 0 \<or>
       pn_wq_flag s = 1 \<and> map_option fst (pn_skb s) = Some pid) \<and> (t_sending t \<longrightarrow> pn_pid s = pid)"

definition answered :: "pnl \<Rightarrow> nl_thread_pc \<Rightarrow> nat" where
  "answered s t = (if t_waiting t \<and> pn_wq_flag s = 1 then 1 else 0)"

definition pong_fine :: "pn_pong \<Rightarrow> nl_pong_pc \<Rightarrow> bool" where
  "pong_fine q pc \<longleftrightarrow> p_range pc \<and> length (q_buffer q) = 1024 \<and> (0 < p_recvs pc \<longrightarrow> heard (q_buffer q)) \<and>
     (pc \<noteq> N_Exit 0 \<longrightarrow> pong_ok q)"

text \<open>The thread knows the program and is in step with it.\<close>

definition thread_fine :: "pnl \<Rightarrow> nl_thread_pc \<Rightarrow> u32 \<Rightarrow> nat \<Rightarrow> nat \<Rightarrow> bool" where
  "thread_fine s t pid sent received \<longleftrightarrow> pn_thread_flag s = 0 \<and> pn_on_exit s = 0 \<and> t_range t \<and> pn_link s t pid \<and>
     sent = t_recvs (length (pn_log s)) t + answered s t \<and>
     t_sends (length (pn_log s)) t = received + length (pn_queue s) \<and> set (pn_queue s) \<subseteq> {(pid, ping_bytes)}"

fun pn_inv :: "pn_sys \<Rightarrow> bool" where
  "pn_inv (s, t, q, pc) \<longleftrightarrow> thread_fine s t (q_pid q) (p_sends pc) (p_recvs pc) \<and> dr_ok (q_pid q) s (p_data pc) \<and> pong_fine q pc"

fun pn_work :: "pn_sys \<Rightarrow> nat" where
  "pn_work (s, t, q, pc) = 32 * (30030 - p_sends pc) + 16 * answered s t + t_rank t + p_rank pc"

fun pn_final :: "pn_sys \<Rightarrow> bool" where
  "pn_final (s, t, q, pc) \<longleftrightarrow> pc = N_Exit 0 \<and> t = NC_Test NT_Wait \<and> pn_wq_flag s = 0"

lemma length_ping_bytes [simp]: "length ping_bytes = 4"
  by (simp add: ping_bytes_def)

lemma RUNS_1000 [simp]: "RUNS = 1000"
  by (simp add: RUNS_def)

lemma pn_ping_fine:
  assumes "pn_thread_code_step calm hz jiffies s t = Go (s', t')" "thread_fine s t pid sent received"
  shows "thread_fine s' t' pid sent received"
proof (cases t)
  case (NC_Test x)
  then show ?thesis
    using assms
    by (cases x)
       (auto simp: thread_fine_def pn_recv_ask_def pn_recv_wait_def calm_def answered_def split: if_split_asm option.split_asm)
qed (use assms in \<open>auto simp: thread_fine_def answered_def\<close>)

lemma pn_ping_data:
  assumes "pn_thread_code_step calm hz jiffies s t = Go (s', t')" "thread_fine s t pid sent received" "dr_ok pid s d"
  shows "dr_ok pid s' d"
proof (cases t)
  case (NC_Test x)
  then show ?thesis
    using assms
    by (cases x; cases d)
       (auto simp: thread_fine_def pn_recv_ask_def pn_recv_wait_def calm_def split: if_split_asm option.split_asm)
qed (use assms in \<open>cases d; auto simp: thread_fine_def\<close>)+

lemma pn_ping_work:
  assumes "pn_thread_code_step calm hz jiffies s t = Go (s', t')" "thread_fine s t pid sent received"
  shows "16 * answered s' t' + t_rank t' < 16 * answered s t + t_rank t"
proof (cases t)
  case (NC_Test x)
  then show ?thesis
    using assms
    by (cases x)
       (auto simp: thread_fine_def pn_recv_ask_def pn_recv_wait_def calm_def answered_def split: if_split_asm option.split_asm)
qed (use assms in \<open>auto simp: thread_fine_def answered_def\<close>)

text \<open>The packet functions of the program never fail.\<close>

lemma pn_send_ok:
  assumes "pong_ok q" "c_strcpy (replicate 1024 0) payload \<noteq> None"
  shows "\<exists>q' packet. pn_send payload q = Some (q', packet) \<and> pong_ok q' \<and> fst packet = q_pid q \<and> q_pid q' = q_pid q \<and>
    q_buffer q' = q_buffer q \<and> q_times q' = q_times q"
proof -
  obtain nlh where n: "msg_iov (q_server q) = Some nlh" "nlmsg_pid nlh = q_pid q" "length (nlmsg_data nlh) = 1024"
    using assms(1) by (auto simp: pong_ok_def msg_ok_def split: option.splits)
  obtain data where d: "c_strcpy (nlmsg_data nlh) payload = Some data" "length data = 1024"
    using assms(2) n(3) by (auto simp: c_strcpy_def Let_def split: if_splits)
  show ?thesis
    using n d assms(1) by (auto simp: pn_send_def add_payload_def pong_ok_def msg_ok_def split: option.splits)
qed

lemma strings_fit: "c_strcpy (replicate 1024 0) init_string \<noteq> None" "c_strcpy (replicate 1024 0) pong_string \<noteq> None"
  by (simp_all add: c_strcpy_def init_string_def pong_string_def)

lemma pn_receive_word:
  assumes "pong_ok q" "length (q_buffer q) = 1024" "length w = 4" "0 \<notin> set w"
  shows "\<exists>q'. pn_receive w q = Some q' \<and> pong_ok q' \<and> q_pid q' = q_pid q \<and> length (q_buffer q') = 1024 \<and>
    take 5 (q_buffer q') = w @ [0] \<and> q_times q' = q_times q"
proof -
  obtain nlh where n: "msg_iov (q_client q) = Some nlh" "nlmsg_pid nlh = q_pid q" "length (nlmsg_data nlh) = 1024"
    "drop 4 (nlmsg_data nlh) = replicate 1020 0"
    using assms(1) by (auto simp: pong_ok_def msg_ok_def split: option.splits)
  have o: "overwrite (nlmsg_data nlh) 0 w = w @ replicate 1020 0"
    using n(4) assms(3) by (simp add: overwrite_def)
  have "takeWhile (\<lambda>b. b \<noteq> 0) w = w" using assms(4) by (auto simp: takeWhile_eq_all_conv)
  then have "takeWhile (\<lambda>b. b \<noteq> 0) (w @ replicate 1020 0) = w" by (simp only: string_padding)
  then have "c_strcpy (q_buffer q) (w @ replicate 1020 0) = Some (overwrite (q_buffer q) 0 (w @ [0]))"
    by (rule c_strcpy_eq) (use assms(2,3) in simp_all)
  then show ?thesis
    using assms n o
    by (simp add: pn_receive_def recvmsg_def get_payload_def pong_ok_def msg_ok_def overwrite_def split: option.splits)
qed

lemma pn_receive_ok:
  assumes "pong_ok q" "length (q_buffer q) = 1024"
  shows "\<exists>q'. pn_receive ping_bytes q = Some q' \<and> pong_ok q' \<and> q_pid q' = q_pid q \<and> length (q_buffer q') = 1024 \<and> heard (q_buffer q')"
  using pn_receive_word [OF assms, of ping_bytes] unfolding heard_def by (auto simp: ping_bytes_def)

lemma dr_step_ok:
  assumes "pn_nl_data_ready_step calm s d = Go (s', d')" "thread_fine s t pid sent received" "dr_ok pid s d"
  shows "thread_fine s' t pid (sent + dr_sent d') received \<and> dr_ok pid s' d' \<and> dr_sent d = 0 \<and>
    32 * dr_sent d + 16 * answered s' t + dr_rank d' < 32 * dr_sent d' + 16 * answered s t + dr_rank d"
  using assms
  by (cases d) (auto simp: thread_fine_def wait_event_def calm_def answered_def split: if_split_asm)

lemma pong_fine_data:
  "pong_fine q (N_Init j d) = (j < 30 \<and> length (q_buffer q) = 1024 \<and> (0 < j \<longrightarrow> heard (q_buffer q)) \<and> pong_ok q)"
  "pong_fine q (N_Pong j i d) = (j < 30 \<and> i < 1000 \<and> length (q_buffer q) = 1024 \<and> heard (q_buffer q) \<and> pong_ok q)"
  by (auto simp: pong_fine_def)

lemma pn_pong_sends:
  assumes "pn_pong_step calm s q pc = Go (s', q', pc')" "pn_inv (s, t, q, pc)"
    and "pc = N_Init j d \<or> pc = N_Pong j i d" "d \<noteq> DR_Ret"
  shows "pn_inv (s', t, q', pc') \<and> pn_work (s', t, q', pc') < pn_work (s, t, q, pc)"
proof -
  obtain d' where d': "pn_nl_data_ready_step calm s d = Go (s', d')" "q' = q"
    "pc' = (case pc of N_Init j _ \<Rightarrow> N_Init j d' | N_Pong j i _ \<Rightarrow> N_Pong j i d' | _ \<Rightarrow> pc)"
    using assms(1,3,4) by (cases d; cases "pn_nl_data_ready_step calm s d") (auto split: prod.splits)
  have t: "thread_fine s t (q_pid q) (p_sends pc) (p_recvs pc)" "dr_ok (q_pid q) s d" "pong_fine q pc"
    using assms(2,3) by auto
  note st = dr_step_ok [OF d'(1) t(1,2)]
  have n: "p_sends pc' = p_sends pc + dr_sent d'" "p_recvs pc' = p_recvs pc" "p_data pc' = d'" "pong_fine q pc'"
    "p_rank pc' = dr_rank d'" "p_rank pc = dr_rank d" "p_sends pc' \<le> 30030"
    using assms(3) d'(3) st t(3) by (cases d'; auto simp: pong_fine_data)+
  then show ?thesis using st d'(2) by auto
qed

lemma pn_pong_ok:
  assumes "pn_pong_step calm s q pc = Go (s', q', pc')" "pn_inv (s, t, q, pc)"
  shows "pn_inv (s', t, q', pc') \<and> pn_work (s', t, q', pc') < pn_work (s, t, q, pc)"
proof (cases pc)
  case (N_Outer j)
  show ?thesis
  proof (cases "j < 30")
    case True
    then obtain packet where "pn_send init_string q = Some (q', packet)" "s' = s" "pc' = N_Init j (DR_Wait packet)"
      "pong_ok q'" "fst packet = q_pid q" "q_pid q' = q_pid q" "q_buffer q' = q_buffer q"
      using assms N_Outer pn_send_ok [OF _ strings_fit(1), of q] by (auto simp: pong_fine_def)
    then show ?thesis using assms(2) N_Outer True by (auto simp: pong_fine_def)
  next
    case False
    then have "s' = s" "pc' = N_Exit 0" "q_pid q' = q_pid q" "q_buffer q' = q_buffer q" "j = 30"
      using assms N_Outer by (auto simp: obind_Go or_fault_Go bind_eq_Some_conv pong_fine_def)
    then show ?thesis using assms(2) N_Outer by (auto simp: pong_fine_def)
  qed
next
  case (N_Inner j i)
  show ?thesis
  proof (cases "i < 1000")
    case True
    obtain rest where rest: "pn_queue s = (q_pid q, ping_bytes) # rest"
      using assms N_Inner True by (cases "pn_queue s") (auto simp: thread_fine_def)
    obtain q1 where q1: "pn_receive ping_bytes q = Some q1" "pong_ok q1" "q_pid q1 = q_pid q"
      "length (q_buffer q1) = 1024" "heard (q_buffer q1)"
      using pn_receive_ok [of q] assms(2) N_Inner by (auto simp: pong_fine_def)
    obtain q2 packet where q2: "pn_send pong_string q1 = Some (q2, packet)" "pong_ok q2" "fst packet = q_pid q" "q_pid q2 = q_pid q"
      "q_buffer q2 = q_buffer q1"
      using pn_send_ok [OF q1(2) strings_fit(2)] q1(3) by auto
    have "s' = s\<lparr>pn_queue := rest\<rparr>" "q' = q2" "pc' = N_Pong j i (DR_Wait packet)"
      using assms(1) N_Inner True rest q1(1) q2(1) by simp_all
    moreover have "thread_fine (s\<lparr>pn_queue := rest\<rparr>) t (q_pid q) (p_sends pc) (Suc (p_recvs pc))"
      using assms(2) rest N_Inner by (auto simp: thread_fine_def answered_def)
    ultimately show ?thesis
      using assms(2) N_Inner True q1(4,5) q2 by (simp add: pong_fine_def answered_def)
  next
    case False
    then have "s' = s" "q' = q\<lparr>q_times := q_times q + 1\<rparr>" "pc' = N_Outer (Suc j)" "i = 1000"
      using assms N_Inner by (auto simp: pong_fine_def)
    then show ?thesis using assms(2) N_Inner by (auto simp: pong_fine_def pong_ok_def add.commute)
  qed
next
  case (N_Init j d)
  then show ?thesis
    using pn_pong_sends [OF assms, of j d] assms by (cases "d = DR_Ret") (auto simp: pong_fine_def)
next
  case (N_Pong j i d)
  then show ?thesis
    using pn_pong_sends [OF assms, of j d i] assms by (cases "d = DR_Ret") (auto simp: pong_fine_def)
qed (use assms in simp)

text \<open>Neither side waits for the other in vain: if the thread waits unanswered, a ping is in the queue, or
  the program has yet to send, or it has returned.\<close>

lemma pn_queue_nonempty:
  assumes "thread_fine s t pid (p_sends (N_Inner j i)) (p_recvs (N_Inner j i))" "i < 1000" "t_waiting t" "pn_wq_flag s = 0"
  shows "pn_queue s \<noteq> []"
proof
  let ?a = "length (pn_log s)"
  assume "pn_queue s = []"
  then have c: "j * 1001 + 1 + i = t_recvs ?a t" "t_sends ?a t = j * 1000 + i" "t_range t"
    using assms by (simp_all add: thread_fine_def answered_def)
  show False
    using assms(3)
  proof (cases t rule: t_waiting.cases)
    case 1
    then have "j * 1001 + 1 + i = ?a * 1001" "?a * 1000 = j * 1000 + i" using c by simp_all
    moreover from this have "?a = j + 1" by linarith
    ultimately show False using assms(2) by simp
  next
    case (2 k t1)
    then have "j * 1001 + i = ?a * 1001 + k" "?a * 1000 + k + 1 = j * 1000 + i" using c by simp_all
    moreover from this have "?a = j + 1" by linarith
    ultimately show False using assms(2) by simp
  qed simp_all
qed

lemma pn_exit_final:
  assumes "thread_fine s t pid 30030 30000" "t_waiting t" "pn_wq_flag s = 0"
  shows "t = NC_Test NT_Wait"
  using assms(2)
proof (cases t rule: t_waiting.cases)
  case (2 k t1)
  then have "length (pn_log s) * 1001 + 1 + k = 30030" "k < 1000"
    using assms by (simp_all add: thread_fine_def answered_def)
  moreover have "length (pn_log s) \<le> 29 \<or> 30 \<le> length (pn_log s)" by linarith
  ultimately show ?thesis by linarith
qed simp_all

lemma pn_pong_progress:
  assumes "pn_inv (s, t, q, pc)" "t_waiting t" "pn_wq_flag s = 0" "pc \<noteq> N_Exit 0"
  shows "\<exists>r. pn_pong_step calm s q pc = Go r"
proof -
  have ok: "pong_ok q" "p_range pc" "length (q_buffer q) = 1024" and f: "thread_fine s t (q_pid q) (p_sends pc) (p_recvs pc)"
    using assms(1,4) by (auto simp: pong_fine_def)
  have dr: "\<exists>r. pn_nl_data_ready_step calm s d = Go r" if "d \<noteq> DR_Ret" for d
    using that assms(3) by (cases d) (simp_all add: wait_event_def)
  show ?thesis
  proof (cases pc)
    case (N_Outer j)
    have "destroy_message_container (q_server q) \<noteq> None" "destroy_message_container (q_client q) \<noteq> None"
      using ok(1) by (auto simp: pong_ok_def msg_ok_def destroy_message_container_def split: option.splits)
    then show ?thesis using N_Outer pn_send_ok [OF ok(1) strings_fit(1)] by auto
  next
    case (N_Inner j i)
    show ?thesis
    proof (cases "i < 1000")
      case True
      obtain rest where rest: "pn_queue s = (q_pid q, ping_bytes) # rest"
        using pn_queue_nonempty [OF _ True assms(2,3), of "q_pid q" j] f N_Inner by (cases "pn_queue s") (auto simp: thread_fine_def)
      obtain q1 where q1: "pn_receive ping_bytes q = Some q1" "pong_ok q1" using pn_receive_ok [OF ok(1,3)] by blast
      obtain q2 packet where "pn_send pong_string q1 = Some (q2, packet)" using pn_send_ok [OF q1(2) strings_fit(2)] by blast
      then show ?thesis using N_Inner True rest q1(1) by simp
    qed (use N_Inner in simp)
  next
    case (N_Init j d)
    then show ?thesis using dr [of d] by (cases d) auto
  next
    case (N_Pong j i d)
    then show ?thesis using dr [of d] by (cases d) auto
  qed (use ok(2) assms(4) in simp)
qed

lemma pn_progress:
  assumes "pn_inv (s, t, q, pc)" "\<not> pn_final (s, t, q, pc)"
  shows "\<exists>k. pn_step hz (s, t, q, pc) k"
proof (cases "t_waiting t \<and> pn_wq_flag s = 0")
  case True
  then have "pc \<noteq> N_Exit 0" using assms pn_exit_final [of s t "q_pid q"] by auto
  then obtain r where "pn_pong_step calm s q pc = Go r" using pn_pong_progress [OF assms(1)] True by blast
  then show ?thesis by (cases r) (blast intro: pn_step.pong)
next
  case False
  have f: "thread_fine s t (q_pid q) (p_sends pc) (p_recvs pc)" using assms(1) by simp
  have "\<exists>s' t'. pn_thread_code_step calm hz 0 s t = Go (s', t')"
  proof (cases t)
    case (NC_Test x)
    then show ?thesis using f False by (cases x) (auto simp: thread_fine_def pn_recv_wait_def calm_def)
  qed (use f in \<open>simp_all add: thread_fine_def\<close>)
  then show ?thesis by (blast intro: pn_step.ping)
qed

lemma pn_step_ok: "pn_step hz k k' \<Longrightarrow> pn_inv k \<Longrightarrow> pn_inv k' \<and> pn_work k' < pn_work k"
proof (induction rule: pn_step.induct)
  case (ping jiffies s t s' t' q pc)
  then have f: "thread_fine s t (q_pid q) (p_sends pc) (p_recvs pc)" "dr_ok (q_pid q) s (p_data pc)" by simp_all
  show ?case using pn_ping_fine [OF ping(1) f(1)] pn_ping_data [OF ping(1) f] pn_ping_work [OF ping(1) f(1)] ping(2) by simp
next
  case (pong s q pc s' q' pc' t)
  then show ?case by (rule pn_pong_ok)
qed

interpretation pn_run: live_system "pn_step hz" pn_inv pn_work pn_final for hz
proof
  show "pn_inv k'" if "pn_inv k" "pn_step hz k k'" for k k' using pn_step_ok [OF that(2,1)] by simp
  show "pn_work k' < pn_work k" if "pn_inv k" "pn_step hz k k'" for k k' using pn_step_ok [OF that(2,1)] by simp
  show "\<exists>k'. pn_step hz k k'" if "pn_inv k" "\<not> pn_final k" for k
    using that pn_progress by (cases k rule: pn_final.cases) auto
qed

lemma pn_inv_init: "length junk = 1024 \<Longrightarrow> pn_inv (pn_init, NC_Loop, pn_pong_init pid junk, N_Outer 0)"
  by (simp add: pn_init_def pn_pong_init_def thread_fine_def answered_def pong_fine_def pong_ok_def msg_ok_def
      gen_message_container_def MAX_PAYLOAD_def)

text \<open>C32. The ping-pong over netlink that the kernel starts: if no allocation and no send fails and no signal arrives,
  every run is of bounded length and ends with the program returned, every one of its messages
  answered. The kernel thread is then waiting for a first message of a further test, and the
  module cannot be unloaded: \<open>mod_exit\<close> sets the flag, but the thread never looks at it again, and
  the wait for its completion blocks for good.\<close>

theorem netlink_ping_pong_ends:
  assumes "length junk = 1024" "(pn_step hz ^^ k) (pn_init, NC_Loop, pn_pong_init pid junk, N_Outer 0) (s, t, q, pc)"
  shows "k \<le> 960966 \<and> (\<exists>x. pn_step hz (s, t, q, pc) x) \<or>
    k \<le> 960966 \<and> pc = N_Exit 0 \<and> take 5 (q_buffer q) = ping_bytes @ [0] \<and> pn_queue s = [] \<and> length (pn_log s) = 30 \<and>
    (\<nexists>x. pn_step hz (pn_mod_exit_flag s, t, q, pc) x) \<and>
    (\<forall>m. pn_state m = pn_mod_exit_flag s \<longrightarrow> pn_mod_exit_wait m = Block)"
proof -
  have "pn_work (pn_init, NC_Loop, pn_pong_init pid junk, N_Outer 0) = 960966" by (simp add: pn_init_def answered_def)
  then have k: "pn_inv (s, t, q, pc)" "k \<le> 960966"
    using pn_run.run_length [OF assms(2) pn_inv_init [OF assms(1)]] by simp_all
  show ?thesis
  proof (cases "pn_final (s, t, q, pc)")
    case True
    then have f: "pc = N_Exit 0" "t = NC_Test NT_Wait" "pn_wq_flag s = 0" by simp_all
    have stuck: "pn_thread_code_step calm hz j (pn_mod_exit_flag s) t = Block" "pn_pong_step calm s' q pc = Block" for j s'
      using f by (simp_all add: pn_mod_exit_flag_def pn_recv_wait_def calm_def)
    have "\<not> pn_step hz (pn_mod_exit_flag s, t, q, pc) x" for x
      by (rule notI, erule pn_step.cases) (use stuck in auto)
    moreover have "take 5 (q_buffer q) = ping_bytes @ [0]" "pn_queue s = []" "length (pn_log s) = 30" "pn_on_exit s = 0"
      using k(1) f by (auto simp: pong_fine_def heard_def thread_fine_def answered_def)
    ultimately show ?thesis using k(2) f(1) by (simp add: pn_mod_exit_wait_def pn_mod_exit_flag_def)
  next
    case False
    then show ?thesis using pn_progress [OF k(1)] k(2) by blast
  qed
qed

theorem netlink_ping_pong_ends_witness:
  "\<exists>s t q pc. (pn_step 250)\<^sup>*\<^sup>* (pn_init, NC_Loop, pn_pong_init 7 (replicate 1024 3), N_Outer 0) (s, t, q, pc) \<and>
     length (pn_log s) = 30 \<and> (\<forall>m. pn_state m = pn_mod_exit_flag s \<longrightarrow> pn_mod_exit_wait m = Block)"
proof -
  let ?k = "(pn_init, NC_Loop, pn_pong_init 7 (replicate 1024 3), N_Outer 0)"
  have l: "length (replicate 1024 (3 :: u8)) = 1024" by (rule length_replicate)
  obtain s t q pc where r: "(pn_step 250)\<^sup>*\<^sup>* ?k (s, t, q, pc)" "pn_final (s, t, q, pc)"
    using pn_run.ends [OF pn_inv_init [OF l, of 7], of 250] by (metis prod_cases4)
  then obtain k where k: "(pn_step 250 ^^ k) ?k (s, t, q, pc)" by (auto dest: rtranclp_imp_relpowp)
  have "\<not> pn_step 250 (s, t, q, pc) x" for x
    by (rule notI, erule pn_step.cases) (use r(2) in \<open>auto simp: pn_recv_wait_def calm_def\<close>)
  then show ?thesis using netlink_ping_pong_ends [OF l k] r(1) by blast
qed

section \<open>Ping from the program\<close>

text \<open>The module answers each message within \<open>sendmsg\<close>. \<open>nlmsg_put\<close> reports a failure by a null pointer,
  which \<open>IS_ERR\<close> does not recognise, so that \<open>strcpy\<close> writes to it; \<open>nlmsg_end\<close> stores a length into the
  message received, where nobody reads it.\<close>

record server_env =
  nlmsg_new_ok :: bool
  nlmsg_put_ok :: bool
  unicast_ok :: bool

definition pong_bytes :: "u8 list" where
  "pong_bytes = [112, 111, 110, 103]"

definition reed_solomon_netlink_server :: "server_env \<Rightarrow> nl_packet \<Rightarrow> nl_packet list \<Rightarrow> nl_packet list outcome" where
  "reed_solomon_netlink_server e skb queue =
     (let pid = fst skb in
      if \<not> nlmsg_new_ok e then Go queue
      else if \<not> nlmsg_put_ok e then Fault
      else Go (if unicast_ok e then queue @ [(pid, pong_bytes)] else queue))"

definition ping_string :: "u8 list" where
  "ping_string = ping_bytes @ [0]"

text \<open>\<open>env n\<close> is what the kernel does for message number \<open>n\<close>.\<close>

fun pu_inner :: "(nat \<Rightarrow> server_env) \<Rightarrow> nat \<Rightarrow> nat \<Rightarrow> pn_pong \<Rightarrow> nl_packet list \<Rightarrow> (pn_pong \<times> nl_packet list) outcome" where
  "pu_inner env n 0 q queue = Go (q, queue)"
| "pu_inner env n (Suc k) q queue =
     obind (or_fault (pn_send ping_string q)) (\<lambda>(q, packet).
     obind (reed_solomon_netlink_server (env n) packet queue) (\<lambda>queue.
     case queue of [] \<Rightarrow> Block
     | (to, reply) # rest \<Rightarrow> if to \<noteq> q_pid q then Block
         else obind (or_fault (pn_receive reply q)) (\<lambda>q. pu_inner env (Suc n) k q rest)))"

fun pu_outer :: "(nat \<Rightarrow> server_env) \<Rightarrow> nat \<Rightarrow> nat \<Rightarrow> pn_pong \<Rightarrow> nl_packet list \<Rightarrow> (pn_pong \<times> nl_packet list) outcome" where
  "pu_outer env n 0 q queue = Go (q, queue)"
| "pu_outer env n (Suc j) q queue =
     obind (pu_inner env n RUNS q queue) (\<lambda>(q, queue).
     pu_outer env (n + RUNS) j (q\<lparr>q_times := q_times q + 1\<rparr>) queue)"

definition pu_main :: "(nat \<Rightarrow> server_env) \<Rightarrow> u32 \<Rightarrow> u8 list \<Rightarrow> (int \<times> pn_pong) outcome" where
  "pu_main env pid junk =
     obind (pu_outer env 0 30 (pn_pong_init pid junk) []) (\<lambda>(q, queue).
     obind (or_fault (do {
       sv \<leftarrow> destroy_message_container (q_server q);
       cl \<leftarrow> destroy_message_container (q_client q);
       Some (q\<lparr>q_server := sv, q_client := cl\<rparr>) })) (\<lambda>q. Go (0, q)))"

text \<open>Loading and unloading; the result of \<open>netlink_kernel_create\<close> is not looked at.\<close>

definition pu_mod_init :: "bool \<Rightarrow> int \<times> bool" where
  "pu_mod_init create_ok = (let nl_sk = create_ok in (0, nl_sk))"

definition pu_mod_exit :: "bool \<Rightarrow> bool" where
  "pu_mod_exit nl_sk = (if nl_sk then False else nl_sk)"

definition all_ok :: "server_env \<Rightarrow> bool" where
  "all_ok e \<longleftrightarrow> nlmsg_new_ok e \<and> nlmsg_put_ok e \<and> unicast_ok e"

definition pu_fine :: "u32 \<Rightarrow> pn_pong \<Rightarrow> bool" where
  "pu_fine pid q \<longleftrightarrow> pong_ok q \<and> length (q_buffer q) = 1024 \<and> q_pid q = pid"

text \<open>One round trip, for every way the kernel may answer.\<close>

lemma pu_round:
  assumes "pu_fine pid q"
  shows "\<exists>q'. pu_fine pid q' \<and> q_times q' = q_times q \<and> take 5 (q_buffer q') = pong_string \<and>
    pu_inner env n (Suc k) q [] =
      (if all_ok (env n) then pu_inner env (Suc n) k q' []
       else if nlmsg_new_ok (env n) \<and> \<not> nlmsg_put_ok (env n) then Fault else Block)"
proof -
  have f: "c_strcpy (replicate 1024 0) ping_string \<noteq> None" by (simp add: c_strcpy_def ping_string_def ping_bytes_def)
  obtain q1 packet where q1: "pn_send ping_string q = Some (q1, packet)" "pong_ok q1" "fst packet = pid" "q_pid q1 = pid"
    "q_buffer q1 = q_buffer q" "q_times q1 = q_times q"
    using pn_send_ok [OF _ f, of q] assms by (auto simp: pu_fine_def)
  obtain q2 where q2: "pn_receive pong_bytes q1 = Some q2" "pong_ok q2" "q_pid q2 = pid" "length (q_buffer q2) = 1024"
    "take 5 (q_buffer q2) = pong_string" "q_times q2 = q_times q"
    using pn_receive_word [OF q1(2), of pong_bytes] q1 assms by (auto simp: pu_fine_def pong_bytes_def pong_string_def)
  show ?thesis
    using q1 q2 by (intro exI [of _ q2]) (auto simp: pu_fine_def reed_solomon_netlink_server_def all_ok_def)
qed

lemma pu_inner_ok:
  assumes "pu_fine pid q" "\<forall>i \<in> {n..<n + k}. all_ok (env i)"
  shows "\<exists>q'. pu_inner env n k q [] = Go (q', []) \<and> pu_fine pid q' \<and> q_times q' = q_times q \<and>
    (0 < k \<longrightarrow> take 5 (q_buffer q') = pong_string)"
  using assms
proof (induction k arbitrary: n q)
  case (Suc k)
  obtain q1 where q1: "pu_fine pid q1" "q_times q1 = q_times q" "take 5 (q_buffer q1) = pong_string"
    "pu_inner env n (Suc k) q [] = pu_inner env (Suc n) k q1 []"
    using pu_round [OF Suc.prems(1), of env n k] Suc.prems(2) by auto
  then show ?case using Suc.IH [OF q1(1), of "Suc n"] Suc.prems(2) by (cases "k = 0") auto
qed auto

lemma pu_outer_ok:
  assumes "pu_fine pid q" "\<forall>i \<in> {n..<n + j * RUNS}. all_ok (env i)"
  shows "\<exists>q'. pu_outer env n j q [] = Go (q', []) \<and> pu_fine pid q' \<and> q_times q' = q_times q + j \<and>
    (0 < j \<longrightarrow> take 5 (q_buffer q') = pong_string)"
  using assms
proof (induction j arbitrary: n q)
  case (Suc j)
  obtain q1 where q1: "pu_inner env n RUNS q [] = Go (q1, [])" "pu_fine pid q1" "q_times q1 = q_times q"
    "take 5 (q_buffer q1) = pong_string"
    using pu_inner_ok [OF Suc.prems(1), of n RUNS env] Suc.prems(2) RUNS_pos by auto
  have "pu_fine pid (q1\<lparr>q_times := q_times q1 + 1\<rparr>)" using q1(2) by (auto simp: pu_fine_def pong_ok_def)
  then show ?case using Suc.IH [of "q1\<lparr>q_times := q_times q1 + 1\<rparr>" "n + RUNS"] Suc.prems(2) q1 by (cases "j = 0") auto
qed auto

lemma pu_fine_init: "length junk = 1024 \<Longrightarrow> pu_fine pid (pn_pong_init pid junk)"
  by (simp add: pu_fine_def pn_pong_init_def pong_ok_def msg_ok_def gen_message_container_def MAX_PAYLOAD_def)

text \<open>A kernel that fails at message \<open>n\<close> stops the inner loop there.\<close>

lemma pu_inner_fails:
  assumes "pu_fine pid q" "n \<le> f" "f < n + k" "\<forall>i \<in> {n..<f}. all_ok (env i)" "\<not> all_ok (env f)"
  shows "pu_inner env n k q [] = (if nlmsg_new_ok (env f) \<and> \<not> nlmsg_put_ok (env f) then Fault else Block)"
  using assms
proof (induction k arbitrary: n q)
  case (Suc k)
  obtain q1 where q1: "pu_fine pid q1" "pu_inner env n (Suc k) q [] = (if all_ok (env n) then pu_inner env (Suc n) k q1 []
      else if nlmsg_new_ok (env n) \<and> \<not> nlmsg_put_ok (env n) then Fault else Block)"
    using pu_round [OF Suc.prems(1), of env n k] by blast
  show ?case
  proof (cases "n = f")
    case False
    then have "all_ok (env n)" "Suc n \<le> f" using Suc.prems(2,4) by simp_all
    then show ?thesis using q1 Suc.IH [OF q1(1), of "Suc n"] Suc.prems(3-5) by auto
  qed (use q1(2) Suc.prems(5) in simp)
qed simp

lemma pu_outer_fails:
  assumes "pu_fine pid q" "n \<le> f" "f < n + j * RUNS" "\<forall>i \<in> {n..<f}. all_ok (env i)" "\<not> all_ok (env f)"
  shows "pu_outer env n j q [] = (if nlmsg_new_ok (env f) \<and> \<not> nlmsg_put_ok (env f) then Fault else Block)"
  using assms
proof (induction j arbitrary: n q)
  case (Suc j)
  show ?case
  proof (cases "f < n + RUNS")
    case True
    then show ?thesis using pu_inner_fails [OF Suc.prems(1,2), of RUNS env] Suc.prems(4,5) by simp
  next
    case False
    obtain q1 where q1: "pu_inner env n RUNS q [] = Go (q1, [])" "pu_fine pid q1"
      using pu_inner_ok [OF Suc.prems(1), of n RUNS env] Suc.prems(4) False by fastforce
    have "pu_fine pid (q1\<lparr>q_times := q_times q1 + 1\<rparr>)" using q1(2) by (auto simp: pu_fine_def pong_ok_def)
    then show ?thesis using Suc.IH [of _ "n + RUNS"] Suc.prems(3-5) False q1(1) by (auto simp: add.assoc)
  qed
qed simp

text \<open>The ping-pong over netlink that the program starts, for every behaviour of the kernel: if all
  30000 messages can be answered the program returns 0 with 30 times measured and the answer in
  its buffer. Otherwise it ends at the first message that is not answered: it waits for the reply
  forever, or the module has written through a null pointer.\<close>

theorem netlink_program_ping:
  assumes "length junk = 1024"
  shows "((\<forall>i < 30000. all_ok (env i)) \<longrightarrow>
      (\<exists>q. pu_main env pid junk = Go (0, q) \<and> q_times q = 30 \<and> take 5 (q_buffer q) = pong_string)) \<and>
    (\<forall>f < 30000. (\<forall>i < f. all_ok (env i)) \<longrightarrow> \<not> all_ok (env f) \<longrightarrow>
      pu_main env pid junk = (if nlmsg_new_ok (env f) \<and> \<not> nlmsg_put_ok (env f) then Fault else Block))"
proof (intro conjI impI allI)
  note init = pu_fine_init [OF assms, of pid]
  {
    assume "\<forall>i < 30000. all_ok (env i)"
    then obtain q where q: "pu_outer env 0 30 (pn_pong_init pid junk) [] = Go (q, [])" "pu_fine pid q" "q_times q = 30"
      "take 5 (q_buffer q) = pong_string"
      using pu_outer_ok [OF init, of 0 30 env] by (auto simp: pn_pong_init_def)
    obtain sv cl where "destroy_message_container (q_server q) = Some sv" "destroy_message_container (q_client q) = Some cl"
      using q(2) by (auto simp: pu_fine_def pong_ok_def msg_ok_def destroy_message_container_def split: option.splits)
    then show "\<exists>q. pu_main env pid junk = Go (0, q) \<and> q_times q = 30 \<and> take 5 (q_buffer q) = pong_string"
      using q by (simp add: pu_main_def)
  next
    fix f
    assume "f < 30000" "\<forall>i < f. all_ok (env i)" "\<not> all_ok (env f)"
    then show "pu_main env pid junk = (if nlmsg_new_ok (env f) \<and> \<not> nlmsg_put_ok (env f) then Fault else Block)"
      using pu_outer_fails [OF init, of 0 f 30 env] by (simp add: pu_main_def)
  }
qed

theorem netlink_program_ping_witness:
  "(\<exists>q. pu_main (\<lambda>i. \<lparr>nlmsg_new_ok = True, nlmsg_put_ok = True, unicast_ok = True\<rparr>) 7 (replicate 1024 3) = Go (0, q) \<and> q_times q = 30) \<and>
   pu_main (\<lambda>i. \<lparr>nlmsg_new_ok = i \<noteq> 1234, nlmsg_put_ok = True, unicast_ok = True\<rparr>) 7 (replicate 1024 3) = Block"
proof -
  have l: "length (replicate 1024 (3 :: u8)) = 1024" by (rule length_replicate)
  have "\<exists>q. pu_main (\<lambda>i. \<lparr>nlmsg_new_ok = True, nlmsg_put_ok = True, unicast_ok = True\<rparr>) 7 (replicate 1024 3) = Go (0, q) \<and> q_times q = 30"
    using netlink_program_ping [OF l, of "\<lambda>i. \<lparr>nlmsg_new_ok = True, nlmsg_put_ok = True, unicast_ok = True\<rparr>" 7]
    unfolding all_ok_def by (auto simp del: replicate.simps)
  moreover have "pu_main (\<lambda>i. \<lparr>nlmsg_new_ok = i \<noteq> 1234, nlmsg_put_ok = True, unicast_ok = True\<rparr>) 7 (replicate 1024 3) = Block"
    using netlink_program_ping [OF l, of "\<lambda>i. \<lparr>nlmsg_new_ok = i \<noteq> 1234, nlmsg_put_ok = True, unicast_ok = True\<rparr>" 7]
    unfolding all_ok_def by (auto dest!: conjunct2 spec [of _ 1234] simp del: replicate.simps)
  ultimately show ?thesis by blast
qed

end
