(* ===== verification/User_Transports.thy ===== *)
theory User_Transports
  imports User_Server
begin

text \<open>
  A request from end to end over the two other transports, ioctl and netlink: the caller of the
  kernel module and the server loop of the daemon run against each other until the caller returns.
  The work on the request itself is the same for all three servers (locale \<open>request_server\<close>); what
  differs is how the daemon learns of it and how it reports.
\<close>

section \<open>What a served request leaves behind\<close>

definition request_done :: "usys \<Rightarrow> usys \<Rightarrow> ptr list \<Rightarrow> nat \<Rightarrow> syndrome_container \<Rightarrow> nat \<Rightarrow> bool" where
  "request_done u u' ps bytes snc i \<longleftrightarrow> k_threads (u_sys u') ! i = Gen G_Ret \<and>
     (\<forall>j < bytes. column (k_mem (k_state (u_sys u'))) ps (length ps) j =
        codeword (column (k_mem (k_state (u_sys u))) ps (length ps - 2) j)) \<and>
     (\<forall>p. p \<notin> {ps ! (length ps - 2), ps ! (length ps - 1), global_dptrs (u_daemon u), sc_ptrs snc} \<longrightarrow>
        k_mem (k_state (u_sys u')) p = k_mem (k_state (u_sys u)) p) \<and>
     k_mem (k_state (u_sys u')) (sc_ptrs snc) = None \<and>
     gen_syndrome_mutex (k_state (u_sys u')) = gen_syndrome_mutex (k_state (u_sys u)) + 1 \<and>
     maps (u_daemon u') = maps (u_daemon u) \<and> containers (u_daemon u') = containers (u_daemon u)"

text \<open>A request the encoder can serve: the module has published it, and its buffers are long enough.\<close>

definition servable :: "gen_syndrome \<Rightarrow> uenv \<Rightarrow> daemon \<Rightarrow> kstate \<Rightarrow> ptr list \<Rightarrow> nat \<Rightarrow> (nat \<Rightarrow> nat) \<Rightarrow> (nat \<Rightarrow> bool) \<Rightarrow> bool" where
  "servable gen e d s ps bytes need ok \<longleftrightarrow> raid6_encoder gen need ok \<and> mappable e ps bytes \<and> u_malloc e \<and>
     request_ok d s ps bytes \<and> distinct ps \<and> 3 \<le> length ps \<and> ok bytes \<and>
     (\<forall>p \<in> set ps. case bytes_at (k_mem s) p of None \<Rightarrow> False | Some bs \<Rightarrow> need bytes \<le> length bs)"

context request_server
begin

lemma serves_servable:
  assumes "servable generator ue (u_daemon u) (k_state (u_sys u)) ps bytes need ok"
    and "actual_snc (k_state (u_sys u)) = Some snc" "u_pc u = S_Get"
  obtains m' where "usteps server (replicate 3 U_Server) u =
      Go (set_state ((k_state (u_sys u))\<lparr>k_mem := m'\<rparr>) u\<lparr>u_daemon := (u_daemon u)\<lparr>smc_flag := True\<rparr>, u_pc := report\<rparr>)"
    "m' (sc_ptrs snc) = Some (Ptrs ps)" "sc_ptrs snc \<noteq> null"
    "\<forall>j < bytes. column (m'(sc_ptrs snc := None)) ps (length ps) j =
       codeword (column (k_mem (k_state (u_sys u))) ps (length ps - 2) j)"
    "\<forall>p. p \<notin> {ps ! (length ps - 2), ps ! (length ps - 1), global_dptrs (u_daemon u)} \<longrightarrow>
       m' p = k_mem (k_state (u_sys u)) p"
  using serves_request [of need ok ps bytes u snc] assms unfolding servable_def by blast

end

section \<open>ioctl\<close>

text \<open>The caller waits over ioctl, and so does the daemon: its ioctl has reached the wait for work.\<close>

definition ioctl_waits :: "usys \<Rightarrow> nat \<Rightarrow> nat \<Rightarrow> syndrome_container \<Rightarrow> bool" where
  "ioctl_waits u i t snc \<longleftrightarrow> (let k = u_sys u; s = k_state k in
     i < length (k_threads k) \<and> k_threads k ! i = Gen (G_Ioctl snc CI_Wait) \<and> actual_snc s = Some snc \<and>
     t < length (k_threads k) \<and> k_threads k ! t = Ioctl IO_Wait \<and> ioctl_wq_enter_flag s = 0 \<and>
     u_pc u = S_Call t \<and> keep_going (u_daemon u))"

text \<open>The pending ioctl returns, the daemon serves the request, its next ioctl reports and waits
  again; then the caller runs on.\<close>

definition ioctl_round_trip :: "nat \<Rightarrow> nat \<Rightarrow> nat \<Rightarrow> uevent list" where
  "ioctl_round_trip n i t = [U_Kernel (Run t calm), U_Kernel (Run t calm), U_Server] @ replicate 3 U_Server @
     (U_Server # replicate 5 (U_Kernel (Run n calm))) @ replicate 5 (U_Kernel (Run i calm))"

lemma ioctl_wake_phase:
  assumes "ioctl_waits u i t snc"
  shows "usteps (server_ioctl_callback_step gen e) [U_Kernel (Run t calm), U_Kernel (Run t calm), U_Server] u =
    Go (u\<lparr>u_sys := (u_sys u)\<lparr>k_threads := (k_threads (u_sys u))[t := Ioctl (IO_Ret 0 (Some ''flag''))]\<rparr>, u_pc := S_Get\<rparr>)"
  using assms
  by (cases "u_sys u") (simp add: ioctl_waits_def Let_def eval_nat_numeral calm_def wait_event_def)

lemma ioctl_report_phase:
  assumes "u_pc u = S_Loop" "keep_going (u_daemon u)" "n = length (k_threads (u_sys u))"
  shows "usteps (server_ioctl_callback_step gen e) (U_Server # replicate 5 (U_Kernel (Run n calm))) u =
    Go (u\<lparr>u_sys := \<lparr>k_state = (k_state (u_sys u))\<lparr>ioctl_wq_enter_flag := 1, ioctl_init_mutex := ioctl_init_mutex (k_state (u_sys u)) + 1\<rparr>,
            k_threads = k_threads (u_sys u) @ [Ioctl IO_Wait]\<rparr>, u_pc := S_Call n\<rparr>)"
  using assms
  by (cases "u_sys u") (simp add: eval_nat_numeral enter_call_def calm_def nth_append c_string_def)

lemma ioctl_return_phase:
  assumes "i < length (k_threads (u_sys u))" "k_threads (u_sys u) ! i = Gen (G_Ioctl snc CI_Wait)"
    and "ioctl_wq_enter_flag (k_state (u_sys u)) = 1" "k_mem (k_state (u_sys u)) (sc_ptrs snc) = Some x" "sc_ptrs snc \<noteq> null"
  shows "\<exists>u'. usteps server (replicate 5 (U_Kernel (Run i calm))) u = Go u' \<and>
    k_threads (u_sys u') = (k_threads (u_sys u))[i := Gen G_Ret] \<and> u_pc u' = u_pc u \<and> u_daemon u' = u_daemon u \<and>
    k_mem (k_state (u_sys u')) = (k_mem (k_state (u_sys u)))(sc_ptrs snc := None) \<and>
    gen_syndrome_mutex (k_state (u_sys u')) = gen_syndrome_mutex (k_state (u_sys u)) + 1"
  using assms
  by (simp add: eval_nat_numeral calm_def wait_event_def kill_smc_def c_free_def)

text \<open>C3. A request from end to end over ioctl: from any state in which a caller waits and the daemon's
  ioctl waits for work, that ioctl returns, the request is encoded, the daemon's next ioctl reports
  it, and the caller returns. Its stripe is then a codeword in every column over the data it
  passed, all other memory is as before, its container is freed, the semaphore is released, and the
  daemon waits in its new ioctl for the next request.\<close>

theorem ioctl_request_end_to_end:
  assumes "ioctl_waits u i t snc" "servable gen e (u_daemon u) (k_state (u_sys u)) ps bytes need ok"
    and "n = length (k_threads (u_sys u))"
  shows "\<exists>u'. usteps (server_ioctl_callback_step gen e) (ioctl_round_trip n i t) u = Go u' \<and>
    request_done u u' ps bytes snc i \<and> u_pc u' = S_Call n \<and> k_threads (u_sys u') ! n = Ioctl IO_Wait"
proof -
  let ?s = "k_state (u_sys u)" and ?d = "u_daemon u" and ?srv = "server_ioctl_callback_step gen e"
  let ?t = "(k_threads (u_sys u))[t := Ioctl (IO_Ret 0 (Some ''flag''))]"
  let ?u1 = "u\<lparr>u_sys := (u_sys u)\<lparr>k_threads := ?t\<rparr>, u_pc := S_Get\<rparr>"
  have w: "actual_snc ?s = Some snc" "i < n" "t < n" "k_threads (u_sys u) ! i = Gen (G_Ioctl snc CI_Wait)"
    "k_threads (u_sys u) ! t = Ioctl IO_Wait" "keep_going ?d"
    using assms(1,3) by (simp_all add: ioctl_waits_def Let_def)
  then have it: "i \<noteq> t" by auto
  obtain m' where two: "usteps ?srv (replicate 3 U_Server) ?u1 =
      Go (set_state (?s\<lparr>k_mem := m'\<rparr>) ?u1\<lparr>u_daemon := ?d\<lparr>smc_flag := True\<rparr>, u_pc := S_Loop\<rparr>)"
    and m': "m' (sc_ptrs snc) = Some (Ptrs ps)" "sc_ptrs snc \<noteq> null"
      "\<forall>j < bytes. column (m'(sc_ptrs snc := None)) ps (length ps) j = codeword (column (k_mem ?s) ps (length ps - 2) j)"
      "\<forall>p. p \<notin> {ps ! (length ps - 2), ps ! (length ps - 1), global_dptrs ?d} \<longrightarrow> m' p = k_mem ?s p"
    using ioctl_server.serves_servable [of gen e ?u1 ps bytes need ok snc] assms(2) w(1) by auto
  let ?u2 = "set_state (?s\<lparr>k_mem := m'\<rparr>) ?u1\<lparr>u_daemon := ?d\<lparr>smc_flag := True\<rparr>, u_pc := S_Loop\<rparr>"
  let ?s' = "?s\<lparr>k_mem := m', ioctl_wq_enter_flag := 1, ioctl_init_mutex := ioctl_init_mutex ?s + 1\<rparr>"
  let ?u3 = "?u2\<lparr>u_sys := \<lparr>k_state = ?s', k_threads = ?t @ [Ioctl IO_Wait]\<rparr>, u_pc := S_Call n\<rparr>"
  have three: "usteps ?srv (U_Server # replicate 5 (U_Kernel (Run n calm))) ?u2 = Go ?u3"
    using ioctl_report_phase [of ?u2 n gen e] w(6) assms(3) by (simp add: set_state_def)
  obtain u' where u': "usteps ?srv (replicate 5 (U_Kernel (Run i calm))) ?u3 = Go u'"
    "k_threads (u_sys u') = (?t @ [Ioctl IO_Wait])[i := Gen G_Ret]"
    "u_pc u' = S_Call n" "u_daemon u' = ?d\<lparr>smc_flag := True\<rparr>" "k_mem (k_state (u_sys u')) = m'(sc_ptrs snc := None)"
    "gen_syndrome_mutex (k_state (u_sys u')) = gen_syndrome_mutex ?s + 1"
    using ioctl_return_phase [of i ?u3 snc "Ptrs ps" ?srv] w it m'(1,2) assms(3) by (auto simp: nth_append)
  have "usteps ?srv (ioctl_round_trip n i t) u = Go u'"
    unfolding ioctl_round_trip_def usteps_append ioctl_wake_phase [OF assms(1)] obind.simps two three u'(1) ..
  moreover have "k_threads (u_sys u') ! i = Gen G_Ret" "k_threads (u_sys u') ! n = Ioctl IO_Wait"
    using w(2) assms(3) unfolding u'(2) by (simp_all add: nth_append)
  ultimately show ?thesis using u' m'(3,4) by (auto simp: request_done_def)
qed

definition sample_snc :: syndrome_container where
  "sample_snc = \<lparr>sc_disks = 4, sc_bytes = 16, sc_ptrs = 1\<rparr>"

lemma sample_servable:
  assumes "k_mem s = k_mem sample_job" "actual_snc s = Some sample_snc"
  shows "servable raid6_vanilla_gen_syndrome sample_uenv sample_daemon s [2, 3, 4, 5] 16 vanilla_need vanilla_ok"
proof -
  have "raid6_encoder raid6_vanilla_gen_syndrome vanilla_need vanilla_ok" by (simp add: raid6_encoder_def)
  moreover have n: "vanilla_need 16 = 16" "vanilla_ok 16" by (simp_all add: vanilla_need_def vanilla_ok_def)
  moreover have "request_ok sample_daemon s [2, 3, 4, 5] 16"
    using sample_job_ok(1) assms unfolding request_ok_def by (simp add: sample_job_def sample_snc_def cong: option.case_cong)
  ultimately show ?thesis unfolding servable_def assms(1) n(1) using sample_job_ok(2-4) by simp
qed

definition sample_ioctl :: usys where
  "sample_ioctl = sample_usys\<lparr>u_sys := \<lparr>k_state = sample_job\<lparr>ioctl_wq_enter_flag := 0\<rparr>,
     k_threads = [Gen (G_Ioctl sample_snc CI_Wait), Ioctl IO_Wait]\<rparr>, u_pc := S_Call 1\<rparr>"

theorem ioctl_request_end_to_end_witness:
  "\<exists>u'. usteps (server_ioctl_callback_step raid6_vanilla_gen_syndrome sample_uenv) (ioctl_round_trip 2 0 1) sample_ioctl = Go u' \<and>
     request_done sample_ioctl u' [2, 3, 4, 5] 16 sample_snc 0 \<and> k_threads (u_sys u') ! 2 = Ioctl IO_Wait"
proof -
  have d: "u_daemon sample_ioctl = sample_daemon" by (simp add: sample_ioctl_def sample_usys_def)
  have "ioctl_waits sample_ioctl 0 1 sample_snc"
    by (simp add: ioctl_waits_def sample_ioctl_def sample_usys_def sample_daemon_def sample_job_def sample_snc_def)
  moreover have "servable raid6_vanilla_gen_syndrome sample_uenv (u_daemon sample_ioctl) (k_state (u_sys sample_ioctl)) [2, 3, 4, 5] 16
      vanilla_need vanilla_ok"
    unfolding d by (rule sample_servable) (simp_all add: sample_ioctl_def sample_job_def sample_snc_def)
  moreover have "2 = length (k_threads (u_sys sample_ioctl))" by (simp add: sample_ioctl_def)
  ultimately show ?thesis using ioctl_request_end_to_end by blast
qed

section \<open>netlink\<close>

text \<open>The caller waits for the daemon's first message, the daemon is at the head of its loop. \<open>S\<close> is the
  payload of the server's packet; the address of the container is one of the kernel's, so its top
  byte is not zero.\<close>

definition nl_waits :: "usys \<Rightarrow> nat \<Rightarrow> syndrome_container \<Rightarrow> nlmsghdr \<Rightarrow> u32 \<Rightarrow> u8 list \<Rightarrow> bool" where
  "nl_waits u i snc nlh pid S \<longleftrightarrow> (let k = u_sys u; s = k_state k in
     i < length (k_threads k) \<and> k_threads k ! i = Gen (G_Nl snc CN_Wait) \<and> actual_snc s \<noteq> None \<and>
     nl_receive_flag s = 0 \<and> PID s = pid \<and> byte_of (snc_addr s) 7 \<noteq> 0 \<and>
     u_server u = (gen_message_container pid)\<lparr>msg_iov := Some (nlh\<lparr>nlmsg_data := S, nlmsg_pid := pid\<rparr>)\<rparr> \<and>
     length S = 1024 \<and> S ! 7 = 0 \<and> u_client u = gen_message_container pid \<and> length (u_payload u) = 1024 \<and>
     u_read u = length (nl_sent s) \<and> u_pc u = S_Loop \<and> keep_going (u_daemon u))"

text \<open>The daemon announces itself; the caller publishes the request and sends its address; the daemon
  receives it, serves the request and replies with the address; the caller checks it. An address
  with a zero byte fails the check, and the caller returns one step earlier, without \<open>up\<close>.\<close>

definition nl_round_trip :: "nat \<Rightarrow> nat \<Rightarrow> nat \<Rightarrow> uevent list" where
  "nl_round_trip n i r = (U_Server # replicate 3 (U_Kernel (Run n calm)) @ [U_Server]) @ replicate 7 (U_Kernel (Run i calm)) @
     [U_Server] @ replicate 3 U_Server @ (U_Server # replicate 3 (U_Kernel (Run (Suc n) calm)) @ [U_Server]) @
     replicate r (U_Kernel (Run i calm))"

lemma nl_announce_phase:
  assumes "u_pc u = S_Loop" "keep_going (u_daemon u)" "nl_init u = Some (msg, packet)"
    and "nl_receive_flag (k_state (u_sys u)) = 0" "n = length (k_threads (u_sys u))"
  shows "usteps (server_netlink_step gen e) (U_Server # replicate 3 (U_Kernel (Run n calm)) @ [U_Server]) u =
    Go (u\<lparr>u_sys := \<lparr>k_state = (k_state (u_sys u))\<lparr>skb_global := Some packet, nl_receive_flag := 1\<rparr>,
            k_threads = k_threads (u_sys u) @ [Nl_Ready ND_Ret]\<rparr>, u_server := msg, u_pc := S_Recv\<rparr>)"
  using assms
  by (cases "u_sys u") (simp add: eval_nat_numeral enter_call_def calm_def wait_event_def nth_append)

lemma nl_publish_phase:
  assumes "i < length (k_threads (u_sys u))" "k_threads (u_sys u) ! i = Gen (G_Nl snc CN_Wait)"
    and "nl_receive_flag (k_state (u_sys u)) = 1" "skb_global (k_state (u_sys u)) = Some skb"
    and "skb_pid skb = PID (k_state (u_sys u))" "actual_snc (k_state (u_sys u)) \<noteq> None"
  shows "usteps server (replicate 7 (U_Kernel (Run i calm))) u =
    Go (u\<lparr>u_sys := \<lparr>k_state = (k_state (u_sys u))\<lparr>actual_snc := Some snc, nl_receive_flag := 0,
              nl_sent := nl_sent (k_state (u_sys u)) @ [(PID (k_state (u_sys u)), snc_addr (k_state (u_sys u)))]\<rparr>,
            k_threads = (k_threads (u_sys u))[i := Gen (G_Nl snc CN_Wait2)]\<rparr>\<rparr>)"
  using assms
  by (cases "u_sys u")
     (auto simp: eval_nat_numeral calm_def nl_recv_wait_def nl_recv_ask_def copy_snc_def)

lemma nl_reply_phase:
  assumes "u_pc u = S_Report" "nl_reply u = Some (msg, packet)"
    and "nl_receive_flag (k_state (u_sys u)) = 0" "n = length (k_threads (u_sys u))"
  shows "usteps (server_netlink_step gen e) (U_Server # replicate 3 (U_Kernel (Run n calm)) @ [U_Server]) u =
    Go (u\<lparr>u_sys := \<lparr>k_state = (k_state (u_sys u))\<lparr>skb_global := Some packet, nl_receive_flag := 1\<rparr>,
            k_threads = k_threads (u_sys u) @ [Nl_Ready ND_Ret]\<rparr>, u_server := msg, u_pc := S_Loop\<rparr>)"
  using assms
  by (cases "u_sys u") (simp add: eval_nat_numeral enter_call_def calm_def wait_event_def nth_append)

lemma nl_return_phase:
  assumes "i < length (k_threads (u_sys u))" "k_threads (u_sys u) ! i = Gen (G_Nl snc CN_Wait2)"
    and "nl_receive_flag (k_state (u_sys u)) = 1" "skb_global (k_state (u_sys u)) = Some skb"
    and "k_mem (k_state (u_sys u)) (sc_ptrs snc) = Some x" "sc_ptrs snc \<noteq> null"
    and "r = (if skb_data skb = snc_addr (k_state (u_sys u)) then 6 else 5)"
  shows "\<exists>u'. usteps server (replicate r (U_Kernel (Run i calm))) u = Go u' \<and>
    k_threads (u_sys u') ! i = Gen G_Ret \<and> u_pc u' = u_pc u \<and> u_daemon u' = u_daemon u \<and>
    k_mem (k_state (u_sys u')) = (k_mem (k_state (u_sys u)))(sc_ptrs snc := None) \<and>
    gen_syndrome_mutex (k_state (u_sys u')) = gen_syndrome_mutex (k_state (u_sys u)) + 1 \<and>
    call_usp_nl_mutex (k_state (u_sys u')) = call_usp_nl_mutex (k_state (u_sys u)) +
      (if skb_data skb = snc_addr (k_state (u_sys u)) then 1 else 0)"
  using assms
  by (cases "skb_data skb = snc_addr (k_state (u_sys u))")
     (simp_all add: eval_nat_numeral calm_def nl_recv_wait_def kill_smc_def c_free_def)


definition sample_netlink :: usys where
  "sample_netlink = sample_usys\<lparr>u_sys := \<lparr>k_state = sample_job\<lparr>nl_receive_flag := 0, PID := 7, call_usp_nl_mutex := 0,
     snc_addr := 0xffffffff81234567\<rparr>, k_threads = [Gen (G_Nl sample_snc CN_Wait)]\<rparr>\<rparr>"


end
