(* ===== verification/Rs_Kernel.thy ===== *)
theory Rs_Kernel
  imports MultRS Cuda_Raid6
begin

unbundle bit_operations_syntax

text \<open>
  The kernel \<open>rs_kernel\<close> of \<open>multrs/raid6multrs.cu\<close>, the build with CUDA, and of its prototype
  \<open>multi_rs_cuda/rs_encoder.cu\<close>, which differs in the number of check disks (the parameter \<open>cs\<close>).

  The threads of a block share the two tables, the arrays \<open>fetch_tmp\<close> and \<open>accu\<close>, and the two pointers
  \<open>local_accu\<close> and \<open>local_fetch_tmp\<close> into them. The pointers are declared \<open>__shared__\<close>, so each thread
  overwrites those of the others. Every load and store of shared memory is a step of its own,
  except that a thread writes its part of the tables in one step: nothing reads them before the
  barrier. A grid is run by interleaving the steps of its threads; a \<open>policy\<close> restricts which thread
  may move. Blocks have their shared memory to themselves and share the buffer of the check disks.

  Shown here: every interleaving ends, after a bounded number of steps, without an invalid access. What
  the kernel computes depends on the order of its threads and is the subject of \<open>Rs_Orders\<close>.
\<close>

section \<open>Tables\<close>

text \<open>The constants that thread \<open>tx\<close> writes from entry \<open>32 * tx\<close> on.\<close>

definition k_gflog_part :: "nat \<Rightarrow> u8 list" where
  "k_gflog_part tx =
    (if tx = 0 then [0, 0, 1, 25, 2, 50, 26, 198, 3, 223, 51, 238, 27, 104, 199, 75, 4, 100, 224, 14, 52,
       141, 239, 129, 28, 193, 105, 248, 200, 8, 76, 113]
     else if tx = 1 then [5, 138, 101, 47, 225, 36, 15, 33, 53, 147, 142, 218, 240, 18, 130, 69, 29, 181, 194,
       125, 106, 39, 249, 185, 201, 154, 9, 120, 77, 228, 114, 166]
     else if tx = 2 then [6, 191, 139, 98, 102, 221, 48, 253, 226, 152, 37, 179, 16, 145, 34, 136, 54, 208,
       148, 206, 143, 150, 219, 189, 241, 210, 19, 92, 131, 56, 70, 64]
     else if tx = 3 then [30, 66, 182, 163, 195, 72, 126, 110, 107, 58, 40, 84, 250, 133, 186, 61, 202, 94,
       155, 159, 10, 21, 121, 43, 78, 212, 229, 172, 115, 243, 167, 87]
     else if tx = 4 then [7, 112, 192, 247, 140, 128, 99, 13, 103, 74, 222, 237, 49, 197, 254, 24, 227, 165,
       153, 119, 38, 184, 180, 124, 17, 68, 146, 217, 35, 32, 137, 46]
     else if tx = 5 then [55, 63, 209, 91, 149, 188, 207, 205, 144, 135, 151, 178, 220, 252, 190, 97, 242, 86,
       211, 171, 20, 42, 93, 158, 132, 60, 57, 83, 71, 109, 65, 162]
     else if tx = 6 then [31, 45, 67, 216, 183, 123, 164, 118, 196, 23, 73, 236, 127, 12, 111, 246, 108, 161,
       59, 82, 41, 157, 85, 170, 251, 96, 134, 177, 187, 204, 62, 90]
     else if tx = 7 then [203, 89, 95, 176, 156, 169, 160, 81, 11, 245, 22, 235, 122, 117, 44, 215, 79, 174,
       213, 233, 230, 231, 173, 232, 116, 214, 244, 234, 168, 80, 88]
     else [])"

definition k_gfilog_part :: "nat \<Rightarrow> u8 list" where
  "k_gfilog_part tx =
    (if tx = 0 then [1, 2, 4, 8, 16, 32, 64, 128, 29, 58, 116, 232, 205, 135, 19, 38, 76, 152, 45, 90,
       180, 117, 234, 201, 143, 3, 6, 12, 24, 48, 96, 192]
     else if tx = 1 then [157, 39, 78, 156, 37, 74, 148, 53, 106, 212, 181, 119, 238, 193, 159, 35, 70, 140,
       5, 10, 20, 40, 80, 160, 93, 186, 105, 210, 185, 111, 222, 161]
     else if tx = 2 then [95, 190, 97, 194, 153, 47, 94, 188, 101, 202, 137, 15, 30, 60, 120, 240, 253, 231,
       211, 187, 107, 214, 177, 127, 254, 225, 223, 163, 91, 182, 113, 226]
     else if tx = 3 then [217, 175, 67, 134, 17, 34, 68, 136, 13, 26, 52, 104, 208, 189, 103, 206, 129, 31,
       62, 124, 248, 237, 199, 147, 59, 118, 236, 197, 151, 51, 102, 204]
     else if tx = 4 then [133, 23, 46, 92, 184, 109, 218, 169, 79, 158, 33, 66, 132, 21, 42, 84, 168, 77, 154,
       41, 82, 164, 85, 170, 73, 146, 57, 114, 228, 213, 183, 115]
     else if tx = 5 then [230, 209, 191, 99, 198, 145, 63, 126, 252, 229, 215, 179, 123, 246, 241, 255, 227,
       219, 171, 75, 150, 49, 98, 196, 149, 55, 110, 220, 165, 87, 174, 65]
     else if tx = 6 then [130, 25, 50, 100, 200, 141, 7, 14, 28, 56, 112, 224, 221, 167, 83, 166, 81, 162, 89,
       178, 121, 242, 249, 239, 195, 155, 43, 86, 172, 69, 138, 9]
     else if tx = 7 then [18, 36, 72, 144, 61, 122, 244, 245, 247, 243, 251, 235, 203, 139, 11, 22, 44, 88,
       176, 125, 250, 233, 207, 131, 27, 54, 108, 216, 173, 71, 142]
     else [])"

definition mult_gf_shader :: "u8 \<Rightarrow> u8 \<Rightarrow> u8 list \<Rightarrow> u8 list \<Rightarrow> u8 option" where
  "mult_gf_shader a b logs ilogs = (if a = 0 \<or> b = 0 then Some 0 else do {
     la \<leftarrow> table_at logs (unat a);
     lb \<leftarrow> table_at logs (unat b);
     let sum = la + lb;
     let sum = (if 255 \<le> unat sum then sum - 255 else sum);
     table_at ilogs (unat sum) })"

section \<open>State\<close>

text \<open>The shared memory of a block. A pointer into \<open>accu\<close> or \<open>fetch_tmp\<close> is the index of a word,
  \<^term>\<open>None\<close> before the first assignment; the arrays have \<open>THREAD_BLOCKSIZE\<close> words.\<close>

record rs_shared =
  k_gflog :: "u8 list"
  k_gfilog :: "u8 list"
  fetch_tmp :: "nat \<Rightarrow> u64"
  accu :: "nat \<Rightarrow> u64"
  local_accu :: "nat option"
  local_fetch_tmp :: "nat option"

text \<open>Where a thread is: \<open>j\<close> and \<open>i\<close> are the loop variables, \<open>k\<close> the byte of the word; the statement
  \<open>local_accu[k] ^= mult_gf_shader(local_fetch_tmp[k], mult, ...)\<close> takes the five steps from
  \<open>Fetch_ptr\<close> to \<open>Accu_store\<close>.\<close>

datatype rs_pc = Load_tables | Sync | Set_accu | Set_fetch | Clear nat | Fetch nat nat
  | Fetch_ptr nat nat nat | Fetch_byte nat nat nat | Accu_ptr nat nat nat | Accu_byte nat nat nat | Accu_store nat nat nat
  | Next_mult nat nat | Write_back nat | Finished

record rs_thread =
  pc :: rs_pc
  mult :: u8
  reg_fetch :: "nat option"
  reg_prod :: u8
  reg_accu :: "nat option"
  reg_old :: u8

record rs_grid =
  dimGrid :: nat
  sh :: "nat \<Rightarrow> rs_shared"
  thr :: "nat \<Rightarrow> nat \<Rightarrow> rs_thread"
  DEVICE_PQ :: "u8 list"

section \<open>One thread\<close>

definition set_lane :: "u64 \<Rightarrow> nat \<Rightarrow> u8 \<Rightarrow> u64" where
  "set_lane w k b = word_of_bytes ((bytes_of_word w)[k := b])"

definition load_tables :: "nat \<Rightarrow> rs_shared \<Rightarrow> rs_shared" where
  "load_tables tx s = s\<lparr>k_gflog := overwrite (k_gflog s) (32 * tx) (k_gflog_part tx),
     k_gfilog := overwrite (k_gfilog s) (32 * tx) (k_gfilog_part tx)\<rparr>"

text \<open>The tests of the two loops, with \<open>high_disk = disks - CHECK_SYMBOLS\<close>.\<close>

definition check_loop :: "nat \<Rightarrow> nat \<Rightarrow> rs_pc" where
  "check_loop cs j = (if j \<le> cs then Clear j else Finished)"

definition disk_loop :: "int \<Rightarrow> nat \<Rightarrow> nat \<Rightarrow> rs_pc" where
  "disk_loop high_disk j i = (if int i \<le> high_disk then Fetch j i else Write_back j)"

text \<open>A step of thread \<open>tx\<close> of block \<open>bx\<close>.\<close>

fun rs_exec :: "nat \<Rightarrow> int \<Rightarrow> u8 list \<Rightarrow> nat \<Rightarrow> nat \<Rightarrow> rs_pc \<Rightarrow> rs_thread \<times> rs_shared \<times> u8 list \<Rightarrow>
    (rs_thread \<times> rs_shared \<times> u8 list) option" where
  "rs_exec cs disks DP bx tx Load_tables (t, s, pq) = Some (t\<lparr>pc := Sync\<rparr>, load_tables tx s, pq)"
| "rs_exec cs disks DP bx tx Sync (t, s, pq) = Some (t\<lparr>pc := Set_accu\<rparr>, s, pq)"
| "rs_exec cs disks DP bx tx Set_accu (t, s, pq) = Some (t\<lparr>pc := Set_fetch\<rparr>, s\<lparr>local_accu := Some tx\<rparr>, pq)"
| "rs_exec cs disks DP bx tx Set_fetch (t, s, pq) = Some (t\<lparr>pc := check_loop cs 1\<rparr>, s\<lparr>local_fetch_tmp := Some tx\<rparr>, pq)"
| "rs_exec cs disks DP bx tx (Clear j) (t, s, pq) =
     Some (t\<lparr>pc := disk_loop (disks - int cs) j 0, mult := of_nat j\<rparr>, s\<lparr>accu := (accu s)(tx := 0)\<rparr>, pq)"
| "rs_exec cs disks DP bx tx (Fetch j i) (t, s, pq) = do {
     let th = bx * THREAD_BLOCKSIZE + tx;
     w \<leftarrow> dload64 DP (int (i * DMA_BLOCKSIZE + th * 8));
     Some (t\<lparr>pc := Fetch_ptr j i 0\<rparr>, s\<lparr>fetch_tmp := (fetch_tmp s)(tx := w)\<rparr>, pq) }"
| "rs_exec cs disks DP bx tx (Fetch_ptr j i k) (t, s, pq) =
     Some (t\<lparr>pc := Fetch_byte j i k, reg_fetch := local_fetch_tmp s\<rparr>, s, pq)"
| "rs_exec cs disks DP bx tx (Fetch_byte j i k) (t, s, pq) = do {
     p \<leftarrow> reg_fetch t;
     r \<leftarrow> mult_gf_shader (byte_of (fetch_tmp s p) k) (mult t) (k_gflog s) (k_gfilog s);
     Some (t\<lparr>pc := Accu_ptr j i k, reg_prod := r\<rparr>, s, pq) }"
| "rs_exec cs disks DP bx tx (Accu_ptr j i k) (t, s, pq) =
     Some (t\<lparr>pc := Accu_byte j i k, reg_accu := local_accu s\<rparr>, s, pq)"
| "rs_exec cs disks DP bx tx (Accu_byte j i k) (t, s, pq) = do {
     p \<leftarrow> reg_accu t;
     Some (t\<lparr>pc := Accu_store j i k, reg_old := byte_of (accu s p) k\<rparr>, s, pq) }"
| "rs_exec cs disks DP bx tx (Accu_store j i k) (t, s, pq) = do {
     p \<leftarrow> reg_accu t;
     Some (t\<lparr>pc := (if k < 7 then Fetch_ptr j i (Suc k) else Next_mult j i)\<rparr>,
       s\<lparr>accu := (accu s)(p := set_lane (accu s p) k (reg_old t XOR reg_prod t))\<rparr>, pq) }"
| "rs_exec cs disks DP bx tx (Next_mult j i) (t, s, pq) = do {
     r \<leftarrow> mult_gf_shader (mult t) (of_nat j) (k_gflog s) (k_gfilog s);
     Some (t\<lparr>pc := disk_loop (disks - int cs) j (Suc i), mult := r\<rparr>, s, pq) }"
| "rs_exec cs disks DP bx tx (Write_back j) (t, s, pq) = do {
     let th = bx * THREAD_BLOCKSIZE + tx;
     pq \<leftarrow> dstore64 pq ((j - 1) * DMA_BLOCKSIZE + th * 8) (accu s tx);
     Some (t\<lparr>pc := check_loop cs (Suc j)\<rparr>, s, pq) }"
| "rs_exec cs disks DP bx tx Finished (t, s, pq) = Some (t, s, pq)"

section \<open>A grid\<close>

text \<open>A thread waits at the barrier until every thread of its block has arrived; a finished thread
  does not move.\<close>

definition rs_runnable :: "rs_grid \<Rightarrow> nat \<Rightarrow> nat \<Rightarrow> bool" where
  "rs_runnable g bx tx \<longleftrightarrow> bx < dimGrid g \<and> tx < THREAD_BLOCKSIZE \<and>
     (case pc (thr g bx tx) of
        Finished \<Rightarrow> False
      | Sync \<Rightarrow> list_all (\<lambda>t. pc (thr g bx t) \<noteq> Load_tables) [0..<THREAD_BLOCKSIZE]
      | _ \<Rightarrow> True)"

definition rs_kernel :: "nat \<Rightarrow> int \<Rightarrow> u8 list \<Rightarrow> nat \<Rightarrow> nat \<Rightarrow> rs_grid \<Rightarrow> rs_grid option" where
  "rs_kernel cs disks DP bx tx g = do {
     (t, s, pq) \<leftarrow> rs_exec cs disks DP bx tx (pc (thr g bx tx)) (thr g bx tx, sh g bx, DEVICE_PQ g);
     Some (g\<lparr>sh := (sh g)(bx := s), thr := (thr g)(bx := (thr g bx)(tx := t)), DEVICE_PQ := pq\<rparr>) }"

definition rs_finished :: "rs_grid \<Rightarrow> bool" where
  "rs_finished g \<longleftrightarrow> list_all (\<lambda>bx. list_all (\<lambda>tx. pc (thr g bx tx) = Finished) [0..<THREAD_BLOCKSIZE]) [0..<dimGrid g]"

type_synonym policy = "rs_grid \<Rightarrow> nat \<Rightarrow> nat \<Rightarrow> bool"

inductive rs_step :: "nat \<Rightarrow> int \<Rightarrow> u8 list \<Rightarrow> policy \<Rightarrow> rs_grid \<Rightarrow> rs_grid \<Rightarrow> bool"
  for cs disks DP allow where
  move: "rs_runnable g bx tx \<Longrightarrow> allow g bx tx \<Longrightarrow> rs_kernel cs disks DP bx tx g = Some g' \<Longrightarrow>
    rs_step cs disks DP allow g g'"

text \<open>A launch: the grid starts with the shared memory \<open>S\<close>, and \<open>pick\<close> names the thread that moves
  next. A run that is out of fuel before all threads are finished, and a thread that cannot
  move, give \<^term>\<open>None\<close>.\<close>

definition rs_start :: "nat \<Rightarrow> (nat \<Rightarrow> rs_shared) \<Rightarrow> u8 list \<Rightarrow> rs_grid" where
  "rs_start n S pq = \<lparr>dimGrid = n, sh = S, thr = \<lambda>bx tx. \<lparr>pc = Load_tables, mult = 0, reg_fetch = None, reg_prod = 0,
     reg_accu = None, reg_old = 0\<rparr>, DEVICE_PQ = pq\<rparr>"

fun rs_run :: "nat \<Rightarrow> (rs_grid \<Rightarrow> nat \<times> nat) \<Rightarrow> nat \<Rightarrow> int \<Rightarrow> u8 list \<Rightarrow> rs_grid \<Rightarrow> rs_grid option" where
  "rs_run 0 pick cs disks DP g = (if rs_finished g then Some g else None)"
| "rs_run (Suc n) pick cs disks DP g =
     (if rs_finished g then Some g
      else case pick g of (bx, tx) \<Rightarrow>
        if rs_runnable g bx tx then (case rs_kernel cs disks DP bx tx g of None \<Rightarrow> None | Some g \<Rightarrow> rs_run n pick cs disks DP g)
        else None)"

section \<open>The tables of a block\<close>

lemma part_lengths:
  "length (k_gflog_part tx) = (if tx < 7 then 32 else if tx = 7 then 31 else 0)"
  "length (k_gfilog_part tx) = (if tx < 7 then 32 else if tx = 7 then 31 else 0)"
  by (simp_all add: k_gflog_part_def k_gfilog_part_def)

lemma less_8_cases: "tx < 8 \<Longrightarrow> tx = 0 \<or> tx = 1 \<or> tx = 2 \<or> tx = 3 \<or> tx = 4 \<or> tx = 5 \<or> tx = 6 \<or> tx = (7 :: nat)"
  by linarith

lemma parts_take: "tx < 8 \<Longrightarrow> k_gflog_part tx = take 32 (drop (32 * tx) gflog) \<and> k_gfilog_part tx = take 32 (drop (32 * tx) gfilog)"
  by (drule less_8_cases) (elim disjE; simp add: k_gflog_part_def k_gfilog_part_def gflog_def gfilog_def)

text \<open>The constants of the kernel are the tables of the CPU version, entry by entry.\<close>

lemma part_nth:
  assumes "i < 255"
  shows "k_gflog_part (i div 32) ! (i mod 32) = gflog ! i" "k_gfilog_part (i div 32) ! (i mod 32) = gfilog ! i"
proof -
  have "i div 32 < 8" using assms by auto
  moreover have "32 * (i div 32) + i mod 32 = i" by simp
  ultimately show "k_gflog_part (i div 32) ! (i mod 32) = gflog ! i" "k_gfilog_part (i div 32) ! (i mod 32) = gfilog ! i"
    using parts_take [of "i div 32"] assms by simp_all
qed

lemma load_tables_nth:
  assumes len: "length (k_gflog s) = 256" "length (k_gfilog s) = 256" and tx: "tx < 256" and i: "i < 255"
  shows "length (k_gflog (load_tables tx s)) = 256" "length (k_gfilog (load_tables tx s)) = 256"
    "k_gflog (load_tables tx s) ! i = (if i div 32 = tx then gflog ! i else k_gflog s ! i)"
    "k_gfilog (load_tables tx s) ! i = (if i div 32 = tx then gfilog ! i else k_gfilog s ! i)"
proof -
  show l: "length (k_gflog (load_tables tx s)) = 256" "length (k_gfilog (load_tables tx s)) = 256"
    using len part_lengths [of tx] by (auto simp: load_tables_def overwrite_def)
  have big: "i div 32 < 8" using i by auto
  show "k_gflog (load_tables tx s) ! i = (if i div 32 = tx then gflog ! i else k_gflog s ! i)"
    "k_gfilog (load_tables tx s) ! i = (if i div 32 = tx then gfilog ! i else k_gfilog s ! i)"
  proof (atomize (full), cases "tx < 8")
    case True
    have sub: "i - 32 * tx = i mod 32 \<and> 32 * tx \<le> i \<and> i < 32 * tx + (if tx < 7 then 32 else 31)" if "i div 32 = tx"
      using that i by (auto simp: minus_mult_div_eq_mod)
    have "32 * tx + (if tx < 7 then 32 else if tx = 7 then 31 else 0) \<le> (256 :: nat)" using True by auto
    moreover have "\<not> (32 * tx \<le> i \<and> i < 32 * tx + (if tx < 7 then 32 else 31))" if "i div 32 \<noteq> tx" using that by auto
    ultimately show "k_gflog (load_tables tx s) ! i = (if i div 32 = tx then gflog ! i else k_gflog s ! i) \<and>
        k_gfilog (load_tables tx s) ! i = (if i div 32 = tx then gfilog ! i else k_gfilog s ! i)"
      using len i sub part_nth [OF i] True part_lengths [of tx]
      by (cases "i div 32 = tx") (auto simp: load_tables_def nth_overwrite)
  next
    case False
    then show "k_gflog (load_tables tx s) ! i = (if i div 32 = tx then gflog ! i else k_gflog s ! i) \<and>
        k_gfilog (load_tables tx s) ! i = (if i div 32 = tx then gfilog ! i else k_gfilog s ! i)"
      using big part_lengths [of tx] by (auto simp: load_tables_def overwrite_def)
  qed
qed

lemma mult_gf_shader_tables: "mult_gf_shader a b gflog gfilog = mult_gf a b"
  by (simp add: mult_gf_shader_def mult_gf_def)

lemma mult_gf_shader_defined:
  "length lt = 256 \<Longrightarrow> length it = 256 \<Longrightarrow> \<exists>r. mult_gf_shader a b lt it = Some r"
  using unat_u8_less by (auto simp: mult_gf_shader_def table_at_def Let_def)

section \<open>Every interleaving ends without an invalid access\<close>

text \<open>What holds of a thread at each place: the loop variables are in range, and each pointer it
  will follow has been assigned.\<close>

definition pointers_set :: "rs_shared \<Rightarrow> bool" where
  "pointers_set s \<longleftrightarrow> local_accu s \<noteq> None \<and> local_fetch_tmp s \<noteq> None"

fun at_ok :: "nat \<Rightarrow> nat \<Rightarrow> rs_pc \<Rightarrow> rs_thread \<Rightarrow> rs_shared \<Rightarrow> bool" where
  "at_ok cs h Set_fetch t s \<longleftrightarrow> local_accu s \<noteq> None"
| "at_ok cs h (Clear j) t s \<longleftrightarrow> 1 \<le> j \<and> j \<le> cs \<and> pointers_set s"
| "at_ok cs h (Fetch j i) t s \<longleftrightarrow> 1 \<le> j \<and> j \<le> cs \<and> i \<le> h \<and> pointers_set s"
| "at_ok cs h (Fetch_ptr j i k) t s \<longleftrightarrow> 1 \<le> j \<and> j \<le> cs \<and> i \<le> h \<and> k < 8 \<and> pointers_set s"
| "at_ok cs h (Fetch_byte j i k) t s \<longleftrightarrow> 1 \<le> j \<and> j \<le> cs \<and> i \<le> h \<and> k < 8 \<and> pointers_set s \<and> reg_fetch t \<noteq> None"
| "at_ok cs h (Accu_ptr j i k) t s \<longleftrightarrow> 1 \<le> j \<and> j \<le> cs \<and> i \<le> h \<and> k < 8 \<and> pointers_set s"
| "at_ok cs h (Accu_byte j i k) t s \<longleftrightarrow> 1 \<le> j \<and> j \<le> cs \<and> i \<le> h \<and> k < 8 \<and> pointers_set s \<and> reg_accu t \<noteq> None"
| "at_ok cs h (Accu_store j i k) t s \<longleftrightarrow> 1 \<le> j \<and> j \<le> cs \<and> i \<le> h \<and> k < 8 \<and> pointers_set s \<and> reg_accu t \<noteq> None"
| "at_ok cs h (Next_mult j i) t s \<longleftrightarrow> 1 \<le> j \<and> j \<le> cs \<and> i \<le> h \<and> pointers_set s"
| "at_ok cs h (Write_back j) t s \<longleftrightarrow> 1 \<le> j \<and> j \<le> cs \<and> pointers_set s"
| "at_ok cs h _ t s \<longleftrightarrow> True"

text \<open>The number of steps a thread has left; a disk takes 42, a check disk two more than its disks.\<close>

fun rank :: "nat \<Rightarrow> nat \<Rightarrow> rs_pc \<Rightarrow> nat" where
  "rank cs h Load_tables = cs * (42 * Suc h + 2) + 4"
| "rank cs h Sync = cs * (42 * Suc h + 2) + 3"
| "rank cs h Set_accu = cs * (42 * Suc h + 2) + 2"
| "rank cs h Set_fetch = cs * (42 * Suc h + 2) + 1"
| "rank cs h (Clear j) = (Suc cs - j) * (42 * Suc h + 2)"
| "rank cs h (Fetch j i) = (cs - j) * (42 * Suc h + 2) + 1 + (Suc h - i) * 42"
| "rank cs h (Fetch_ptr j i k) = (cs - j) * (42 * Suc h + 2) + 1 + (h - i) * 42 + 1 + (8 - k) * 5"
| "rank cs h (Fetch_byte j i k) = (cs - j) * (42 * Suc h + 2) + 1 + (h - i) * 42 + (8 - k) * 5"
| "rank cs h (Accu_ptr j i k) = (cs - j) * (42 * Suc h + 2) + (h - i) * 42 + (8 - k) * 5"
| "rank cs h (Accu_byte j i k) = (cs - j) * (42 * Suc h + 2) + (h - i) * 42 + (8 - k) * 5 - 1"
| "rank cs h (Accu_store j i k) = (cs - j) * (42 * Suc h + 2) + (h - i) * 42 + (8 - k) * 5 - 2"
| "rank cs h (Next_mult j i) = (cs - j) * (42 * Suc h + 2) + 1 + (h - i) * 42 + 1"
| "rank cs h (Write_back j) = (cs - j) * (42 * Suc h + 2) + 1"
| "rank cs h Finished = 0"

text \<open>What a step keeps of the shared memory: pointers stay assigned, and after the barrier the
  tables stay.\<close>

definition shared_keeps :: "rs_pc \<Rightarrow> nat \<Rightarrow> rs_shared \<Rightarrow> rs_shared \<Rightarrow> bool" where
  "shared_keeps p tx s s' \<longleftrightarrow> (local_accu s \<noteq> None \<longrightarrow> local_accu s' \<noteq> None) \<and>
     (local_fetch_tmp s \<noteq> None \<longrightarrow> local_fetch_tmp s' \<noteq> None) \<and>
     (if p = Load_tables then s' = load_tables tx s else k_gflog s' = k_gflog s \<and> k_gfilog s' = k_gfilog s)"

lemma at_ok_keeps: "at_ok cs h p t s \<Longrightarrow> shared_keeps q tx s s' \<Longrightarrow> at_ok cs h p t s'"
  by (cases p) (auto simp: shared_keeps_def pointers_set_def)

lemma device_fits:
  assumes "Suc h * DMA_BLOCKSIZE \<le> n" "i \<le> h" "th * 8 + 8 \<le> DMA_BLOCKSIZE"
  shows "i * DMA_BLOCKSIZE + th * 8 + 8 \<le> n"
proof -
  have "i * DMA_BLOCKSIZE \<le> h * DMA_BLOCKSIZE" using assms(2) by (rule mult_le_mono1)
  then show ?thesis using assms(1,3) unfolding mult_Suc by linarith
qed

lemma dload64_defined: "i + 8 \<le> length dev \<Longrightarrow> \<exists>w. dload64 dev (int i) = Some w"
  by (simp add: dload64_def)

lemma rs_exec_ok:
  assumes t: "at_ok cs h (pc t) t s" "pc t \<noteq> Finished"
    and tab: "length (k_gflog s) = 256" "length (k_gfilog s) = 256"
    and th: "(bx * THREAD_BLOCKSIZE + tx) * 8 + 8 \<le> DMA_BLOCKSIZE"
    and dev: "Suc h * DMA_BLOCKSIZE \<le> length DP" "cs * DMA_BLOCKSIZE \<le> length pq"
  shows "\<exists>t' s' pq'. rs_exec cs (int (h + cs)) DP bx tx (pc t) (t, s, pq) = Some (t', s', pq') \<and>
    at_ok cs h (pc t') t' s' \<and> rank cs h (pc t') < rank cs h (pc t) \<and> length pq' = length pq \<and>
    shared_keeps (pc t) tx s s' \<and> pc t' \<noteq> Load_tables"
proof (cases "pc t")
  case (Fetch j i)
  then have "i \<le> h" using t by simp
  from dload64_defined [OF device_fits [OF dev(1) this th]] obtain w
    where "dload64 DP (int (i * DMA_BLOCKSIZE + (bx * THREAD_BLOCKSIZE + tx) * 8)) = Some w" by blast
  then show ?thesis using Fetch t by (auto simp: shared_keeps_def pointers_set_def Suc_diff_le)
next
  case (Fetch_byte j i k)
  then obtain p where "reg_fetch t = Some p" using t by auto
  then show ?thesis
    using Fetch_byte t mult_gf_shader_defined [OF tab, of "byte_of (fetch_tmp s p) k" "mult t"]
    by (auto simp: shared_keeps_def pointers_set_def)
next
  case (Next_mult j i)
  then show ?thesis
    using t mult_gf_shader_defined [OF tab, of "mult t" "of_nat j"]
    by (auto simp: shared_keeps_def pointers_set_def disk_loop_def Suc_diff_Suc)
next
  case (Write_back j)
  then obtain j' where j: "j = Suc j'" "j' < cs" using t by (cases j) auto
  then have "Suc j' * DMA_BLOCKSIZE \<le> cs * DMA_BLOCKSIZE" by (intro mult_le_mono1) simp
  then have "Suc j' * DMA_BLOCKSIZE \<le> length pq" using dev(2) by simp
  from device_fits [OF this le_refl th] show ?thesis
    using Write_back j t by (auto simp: shared_keeps_def pointers_set_def check_loop_def dstore64_def Let_def Suc_diff_Suc)
next
  case (Accu_store j i k)
  then obtain p where "reg_accu t = Some p" using t by auto
  then show ?thesis using Accu_store t by (auto simp: shared_keeps_def pointers_set_def)
next
  case (Clear j)
  then show ?thesis using t by (auto simp: shared_keeps_def pointers_set_def disk_loop_def Suc_diff_le)
next
  case Set_fetch
  then show ?thesis using t by (cases cs) (auto simp: shared_keeps_def pointers_set_def check_loop_def)
next
  case Load_tables
  then show ?thesis by (simp add: shared_keeps_def load_tables_def)
qed (use t in \<open>auto simp: shared_keeps_def pointers_set_def\<close>)

text \<open>The invariant of a grid: the buffers are large enough, the tables have 256 entries, the part of
  each thread that has left its first step is in them, every thread is in order, and a thread
  behind the barrier means that all have reached it.\<close>

fun behind :: "rs_pc \<Rightarrow> bool" where
  "behind Load_tables = False"
| "behind Sync = False"
| "behind _ = True"

definition grid_fits :: "nat \<Rightarrow> nat \<Rightarrow> u8 list \<Rightarrow> rs_grid \<Rightarrow> bool" where
  "grid_fits cs h DP g \<longleftrightarrow> dimGrid g * THREAD_BLOCKSIZE * 8 \<le> DMA_BLOCKSIZE \<and>
     Suc h * DMA_BLOCKSIZE \<le> length DP \<and> cs * DMA_BLOCKSIZE \<le> length (DEVICE_PQ g)"

definition tables_ok :: "rs_shared \<Rightarrow> (nat \<Rightarrow> rs_thread) \<Rightarrow> bool" where
  "tables_ok s ts \<longleftrightarrow> length (k_gflog s) = 256 \<and> length (k_gfilog s) = 256 \<and>
     (\<forall>i < 255. pc (ts (i div 32)) \<noteq> Load_tables \<longrightarrow> k_gflog s ! i = gflog ! i \<and> k_gfilog s ! i = gfilog ! i)"

definition threads_ok :: "nat \<Rightarrow> nat \<Rightarrow> rs_shared \<Rightarrow> (nat \<Rightarrow> rs_thread) \<Rightarrow> bool" where
  "threads_ok cs h s ts \<longleftrightarrow> (\<forall>tx < THREAD_BLOCKSIZE. at_ok cs h (pc (ts tx)) (ts tx) s \<and>
     (behind (pc (ts tx)) \<longrightarrow> (\<forall>t < THREAD_BLOCKSIZE. pc (ts t) \<noteq> Load_tables)))"

definition rs_ok :: "nat \<Rightarrow> nat \<Rightarrow> u8 list \<Rightarrow> rs_grid \<Rightarrow> bool" where
  "rs_ok cs h DP g \<longleftrightarrow> grid_fits cs h DP g \<and>
     (\<forall>bx < dimGrid g. tables_ok (sh g bx) (thr g bx) \<and> threads_ok cs h (sh g bx) (thr g bx))"

definition rs_work :: "nat \<Rightarrow> nat \<Rightarrow> rs_grid \<Rightarrow> nat" where
  "rs_work cs h g = (\<Sum>bx < dimGrid g. \<Sum>tx < THREAD_BLOCKSIZE. rank cs h (pc (thr g bx tx)))"

lemma sum_less_at:
  fixes f :: "'a \<Rightarrow> nat"
  assumes "finite A" "a \<in> A" "f' a < f a" "\<And>x. x \<noteq> a \<Longrightarrow> f' x = f x"
  shows "sum f' A < sum f A"
proof (rule sum_strict_mono_ex1 [OF assms(1)])
  show "\<forall>x \<in> A. f' x \<le> f x" using assms(3,4) by (metis less_imp_le order_refl)
qed (use assms(2,3) in blast)

lemma thread_fits:
  assumes "n * THREAD_BLOCKSIZE * 8 \<le> DMA_BLOCKSIZE" "bx < n" "tx < THREAD_BLOCKSIZE"
  shows "(bx * THREAD_BLOCKSIZE + tx) * 8 + 8 \<le> DMA_BLOCKSIZE"
proof -
  have "Suc bx * THREAD_BLOCKSIZE \<le> n * THREAD_BLOCKSIZE" using assms(2) by (intro mult_le_mono1) simp
  then have "Suc (bx * THREAD_BLOCKSIZE + tx) \<le> n * THREAD_BLOCKSIZE" using assms(3) by simp
  from mult_le_mono1 [OF this, of 8] show ?thesis using assms(1) by simp
qed

lemma runnable_cases:
  assumes "rs_runnable g bx tx"
  shows "bx < dimGrid g" "tx < THREAD_BLOCKSIZE" "pc (thr g bx tx) \<noteq> Finished"
    "pc (thr g bx tx) = Sync \<Longrightarrow> \<forall>t < THREAD_BLOCKSIZE. pc (thr g bx t) \<noteq> Load_tables"
  using assms by (auto simp: rs_runnable_def list_all_iff)

text \<open>The effect of a thread's step on its grid.\<close>

definition put :: "rs_grid \<Rightarrow> nat \<Rightarrow> nat \<Rightarrow> rs_thread \<Rightarrow> rs_shared \<Rightarrow> u8 list \<Rightarrow> rs_grid" where
  "put g bx tx t s pq = g\<lparr>sh := (sh g)(bx := s), thr := (thr g)(bx := (thr g bx)(tx := t)), DEVICE_PQ := pq\<rparr>"

lemma put_simps [simp]:
  "dimGrid (put g bx tx t s pq) = dimGrid g" "DEVICE_PQ (put g bx tx t s pq) = pq"
  "sh (put g bx tx t s pq) = (sh g)(bx := s)" "thr (put g bx tx t s pq) = (thr g)(bx := (thr g bx)(tx := t))"
  by (simp_all add: put_def)

lemma rs_kernel_put:
  "rs_kernel cs disks DP bx tx g = map_option (\<lambda>(t, s, pq). put g bx tx t s pq)
     (rs_exec cs disks DP bx tx (pc (thr g bx tx)) (thr g bx tx, sh g bx, DEVICE_PQ g))"
  by (cases "rs_exec cs disks DP bx tx (pc (thr g bx tx)) (thr g bx tx, sh g bx, DEVICE_PQ g)") (auto simp: rs_kernel_def put_def)

lemma rs_work_put:
  assumes "bx < dimGrid g" "tx < THREAD_BLOCKSIZE" "rank cs h (pc t) < rank cs h (pc (thr g bx tx))"
  shows "rs_work cs h (put g bx tx t s pq) < rs_work cs h g"
proof -
  let ?r = "\<lambda>ts. \<Sum>tx < THREAD_BLOCKSIZE. rank cs h (pc (ts tx))"
  have less: "?r ((thr g bx)(tx := t)) < ?r (thr g bx)" by (rule sum_less_at [of _ tx]) (use assms in simp_all)
  show ?thesis
    unfolding rs_work_def put_simps(1) by (rule sum_less_at [of _ bx]) (use less assms(1) in simp_all)
qed

lemma rs_ok_parts:
  assumes "rs_ok cs h DP g" "bx < dimGrid g"
  shows "length (k_gflog (sh g bx)) = 256" "length (k_gfilog (sh g bx)) = 256"
    "tx < THREAD_BLOCKSIZE \<Longrightarrow> at_ok cs h (pc (thr g bx tx)) (thr g bx tx) (sh g bx)"
    "tx < THREAD_BLOCKSIZE \<Longrightarrow> (bx * THREAD_BLOCKSIZE + tx) * 8 + 8 \<le> DMA_BLOCKSIZE"
    "tx < THREAD_BLOCKSIZE \<Longrightarrow> behind (pc (thr g bx tx)) \<Longrightarrow> t < THREAD_BLOCKSIZE \<Longrightarrow> pc (thr g bx t) \<noteq> Load_tables"
    "Suc h * DMA_BLOCKSIZE \<le> length DP" "cs * DMA_BLOCKSIZE \<le> length (DEVICE_PQ g)"
  using assms thread_fits [of "dimGrid g" bx tx] by (auto simp: rs_ok_def grid_fits_def tables_ok_def threads_ok_def)

lemma tables_ok_step:
  assumes "tables_ok s ts" "tx < THREAD_BLOCKSIZE" "shared_keeps (pc (ts tx)) tx s s'"
  shows "tables_ok s' (ts(tx := t'))"
proof (cases "pc (ts tx) = Load_tables")
  case True
  then have s': "s' = load_tables tx s" using assms(3) by (simp add: shared_keeps_def)
  have tx: "tx < 256" using assms(2) by (simp add: THREAD_BLOCKSIZE_def)
  have len: "length (k_gflog s) = 256" "length (k_gfilog s) = 256" using assms(1) by (simp_all add: tables_ok_def)
  show ?thesis
    unfolding s' tables_ok_def using assms(1) load_tables_nth [OF len tx] load_tables_nth(1,2) [OF len tx, of 0]
    by (auto simp: tables_ok_def)
qed (use assms in \<open>auto simp: tables_ok_def shared_keeps_def\<close>)

lemma threads_ok_step:
  assumes ok: "threads_ok cs h s ts" and tx: "tx < THREAD_BLOCKSIZE" and keep: "shared_keeps p tx s s'"
    and t: "at_ok cs h (pc t) t s'" "pc t \<noteq> Load_tables"
    and sync: "behind (pc t) \<Longrightarrow> \<forall>t < THREAD_BLOCKSIZE. pc (ts t) \<noteq> Load_tables"
  shows "threads_ok cs h s' (ts(tx := t))"
  unfolding threads_ok_def
proof (intro allI impI)
  fix x assume x: "x < THREAD_BLOCKSIZE"
  show "at_ok cs h (pc ((ts(tx := t)) x)) ((ts(tx := t)) x) s' \<and>
      (behind (pc ((ts(tx := t)) x)) \<longrightarrow> (\<forall>y < THREAD_BLOCKSIZE. pc ((ts(tx := t)) y) \<noteq> Load_tables))"
  proof (cases "x = tx")
    case False
    then show ?thesis using ok x t(2) at_ok_keeps [OF _ keep] unfolding threads_ok_def by (metis fun_upd_apply)
  qed (use t sync in auto)
qed

text \<open>Every move of a runnable thread succeeds, keeps the invariant and does some of the work.\<close>

lemma rs_kernel_ok:
  assumes ok: "rs_ok cs h DP g" and run: "rs_runnable g bx tx"
  obtains t s pq where "rs_exec cs (int (h + cs)) DP bx tx (pc (thr g bx tx)) (thr g bx tx, sh g bx, DEVICE_PQ g) = Some (t, s, pq)"
    "rs_kernel cs (int (h + cs)) DP bx tx g = Some (put g bx tx t s pq)"
    "rs_ok cs h DP (put g bx tx t s pq)" "rs_work cs h (put g bx tx t s pq) < rs_work cs h g"
    "shared_keeps (pc (thr g bx tx)) tx (sh g bx) s"
proof -
  note r = runnable_cases [OF run] and parts = rs_ok_parts [OF ok runnable_cases(1) [OF run]]
  let ?t = "thr g bx tx"
  obtain t s pq where e: "rs_exec cs (int (h + cs)) DP bx tx (pc ?t) (?t, sh g bx, DEVICE_PQ g) = Some (t, s, pq)"
    "at_ok cs h (pc t) t s" "rank cs h (pc t) < rank cs h (pc ?t)" "length pq = length (DEVICE_PQ g)"
    "shared_keeps (pc ?t) tx (sh g bx) s" "pc t \<noteq> Load_tables"
    using rs_exec_ok [OF parts(3) [OF r(2)] r(3) parts(1,2) parts(4) [OF r(2)] parts(6,7)] by blast
  have "\<forall>t < THREAD_BLOCKSIZE. pc (thr g bx t) \<noteq> Load_tables" if "behind (pc t)"
  proof (cases "behind (pc ?t)")
    case True
    then show ?thesis using parts(5) [OF r(2)] by blast
  next
    case False
    then have "pc ?t = Sync \<or> pc ?t = Load_tables" by (cases "pc ?t") auto
    moreover have "pc ?t \<noteq> Load_tables" using e(1) that by auto
    ultimately show ?thesis using r(4) by blast
  qed
  then have "threads_ok cs h s ((thr g bx)(tx := t))" "tables_ok s ((thr g bx)(tx := t))"
    using ok r(1) threads_ok_step [OF _ r(2) e(5,2,6)] tables_ok_step [of "sh g bx" "thr g bx" tx s t] r(2) e(5) unfolding rs_ok_def by blast+
  then have "rs_ok cs h DP (put g bx tx t s pq)" using ok e(4) by (auto simp: rs_ok_def grid_fits_def)
  moreover have "rs_kernel cs (int (h + cs)) DP bx tx g = Some (put g bx tx t s pq)" using e(1) by (simp add: rs_kernel_put)
  ultimately show thesis using that e(1,5) rs_work_put [OF r(1,2) e(3)] by blast
qed

lemma rs_stepE:
  assumes "rs_step cs (int (h + cs)) DP allow g g'" "rs_ok cs h DP g"
  obtains bx tx t s pq where "rs_runnable g bx tx" "allow g bx tx" "bx < dimGrid g" "tx < THREAD_BLOCKSIZE"
    "rs_exec cs (int (h + cs)) DP bx tx (pc (thr g bx tx)) (thr g bx tx, sh g bx, DEVICE_PQ g) = Some (t, s, pq)"
    "g' = put g bx tx t s pq" "rs_ok cs h DP g'" "rs_work cs h g' < rs_work cs h g" "shared_keeps (pc (thr g bx tx)) tx (sh g bx) s"
  using assms(1)
proof (cases rule: rs_step.cases)
  case (move bx tx)
  then show ?thesis using that rs_kernel_ok [OF assms(2) move(1)] runnable_cases(1,2) [OF move(1)] by (metis option.inject)
qed

text \<open>A policy under which some thread may always move, and a scheduler that follows it.\<close>

definition schedules :: "policy \<Rightarrow> (rs_grid \<Rightarrow> nat \<times> nat) \<Rightarrow> bool" where
  "schedules allow pick \<longleftrightarrow> (\<forall>g bx tx. rs_runnable g bx tx \<and> allow g bx tx \<longrightarrow>
     rs_runnable g (fst (pick g)) (snd (pick g)) \<and> allow g (fst (pick g)) (snd (pick g)))"

locale rs_policy = live_system "rs_step cs (int (h + cs)) DP allow" inv "rs_work cs h" rs_finished
  for cs :: nat and h :: nat and DP :: "u8 list" and allow :: policy and inv :: "rs_grid \<Rightarrow> bool" +
  assumes can_move: "inv g \<Longrightarrow> rs_runnable g bx tx \<Longrightarrow> \<exists>g'. rs_kernel cs (int (h + cs)) DP bx tx g = Some g'"
begin

lemma run_ends:
  assumes "schedules allow pick" "inv g" "rs_work cs h g \<le> n"
  shows "\<exists>g'. rs_run n pick cs (int (h + cs)) DP g = Some g' \<and> (rs_step cs (int (h + cs)) DP allow)\<^sup>*\<^sup>* g g' \<and> rs_finished g' \<and> inv g'"
  using assms(2,3)
proof (induction n arbitrary: g)
  case 0
  then have "rs_finished g" using progress work_step by fastforce
  then show ?case using 0 by auto
next
  case (Suc n)
  show ?case
  proof (cases "rs_finished g")
    case False
    obtain bx tx where p: "pick g = (bx, tx)" by fastforce
    obtain u where "rs_step cs (int (h + cs)) DP allow g u" using progress [OF Suc.prems(1) False] by blast
    then have run: "rs_runnable g bx tx" "allow g bx tx"
      using assms(1) p unfolding schedules_def by (cases rule: rs_step.cases; force)+
    obtain g1 where g1: "rs_kernel cs (int (h + cs)) DP bx tx g = Some g1"
      using can_move [OF Suc.prems(1) run(1)] by blast
    then have step: "rs_step cs (int (h + cs)) DP allow g g1" using run by (blast intro: rs_step.move)
    have "rs_work cs h g1 \<le> n" using work_step [OF Suc.prems(1) step] Suc.prems(2) by simp
    then show ?thesis
      using Suc.IH [OF inv_step [OF Suc.prems(1) step]] step False p run(1) g1 by (auto intro: converse_rtranclp_into_rtranclp)
  qed (use Suc.prems in auto)
qed

end

text \<open>The free policy: any runnable thread may move.\<close>

definition any_order :: policy where
  "any_order g bx tx \<longleftrightarrow> True"

lemma rs_some_runnable:
  assumes "\<not> rs_finished g"
  obtains bx tx where "bx < dimGrid g" "tx < THREAD_BLOCKSIZE" "pc (thr g bx tx) \<noteq> Finished"
  using assms by (auto simp: rs_finished_def list_all_iff)

lemma unfinished_runnable:
  assumes "bx < dimGrid g" "tx < THREAD_BLOCKSIZE" "pc (thr g bx tx) \<noteq> Finished"
  obtains t where "rs_runnable g bx t" "t = tx \<or> pc (thr g bx tx) = Sync \<and> pc (thr g bx t) = Load_tables"
proof (cases "\<exists>t < THREAD_BLOCKSIZE. pc (thr g bx t) = Load_tables")
  case True
  then obtain t where t: "t < THREAD_BLOCKSIZE" "pc (thr g bx t) = Load_tables" by blast
  show ?thesis
  proof (cases "pc (thr g bx tx) = Sync")
    case False
    then have "rs_runnable g bx tx" using assms by (cases "pc (thr g bx tx)") (auto simp: rs_runnable_def)
    then show ?thesis using that by blast
  next
    case True
    moreover have "rs_runnable g bx t" using assms(1) t by (simp add: rs_runnable_def)
    ultimately show ?thesis using that t(2) by blast
  qed
next
  case False
  then have "rs_runnable g bx tx" using assms by (cases "pc (thr g bx tx)") (auto simp: rs_runnable_def list_all_iff)
  then show ?thesis using that by blast
qed

interpretation free: rs_policy cs h DP any_order "rs_ok cs h DP"
proof
  fix g assume ok: "rs_ok cs h DP g" and fin: "\<not> rs_finished g"
  obtain bx tx where "rs_runnable g bx tx" using rs_some_runnable [OF fin] unfinished_runnable by metis
  then show "\<exists>t. rs_step cs (int (h + cs)) DP any_order g t" using rs_kernel_ok [OF ok] rs_step.move any_order_def by metis
next
  fix g bx tx assume "rs_ok cs h DP g" "rs_runnable g bx tx"
  then show "\<exists>g'. rs_kernel cs (int (h + cs)) DP bx tx g = Some g'" using rs_kernel_ok by metis
qed (blast elim: rs_stepE)+

section \<open>Launches\<close>

text \<open>The steps of a grid of \<open>n\<close> blocks, over \<open>Suc h\<close> disks each.\<close>

definition rs_fuel :: "nat \<Rightarrow> nat \<Rightarrow> nat \<Rightarrow> nat" where
  "rs_fuel cs h n = n * THREAD_BLOCKSIZE * (cs * (42 * Suc h + 2) + 4)"

definition shared_ok :: "(nat \<Rightarrow> rs_shared) \<Rightarrow> bool" where
  "shared_ok S \<longleftrightarrow> (\<forall>bx. length (k_gflog (S bx)) = 256 \<and> length (k_gfilog (S bx)) = 256)"

lemma rs_start_simps [simp]:
  "dimGrid (rs_start n S pq) = n" "sh (rs_start n S pq) = S" "DEVICE_PQ (rs_start n S pq) = pq" "pc (thr (rs_start n S pq) bx tx) = Load_tables"
  by (simp_all add: rs_start_def)

lemma rs_start_work: "rs_work cs h (rs_start n S pq) = rs_fuel cs h n"
  by (simp add: rs_work_def rs_fuel_def)

lemma rs_start_rs_ok:
  assumes "grid_fits cs h DP (rs_start n S pq)" "shared_ok S"
  shows "rs_ok cs h DP (rs_start n S pq)"
proof -
  have "tx div 32 < THREAD_BLOCKSIZE" if "tx < 255" for tx :: nat using that by (simp add: THREAD_BLOCKSIZE_def)
  then show ?thesis using assms by (simp add: rs_ok_def tables_ok_def threads_ok_def shared_ok_def)
qed

lemma finished_thread:
  "rs_finished g \<Longrightarrow> bx < dimGrid g \<Longrightarrow> tx < THREAD_BLOCKSIZE \<Longrightarrow> pc (thr g bx tx) = Finished"
  by (simp add: rs_finished_def list_all_iff)

text \<open>A scheduler for a policy: the first thread that may move.\<close>

definition first_thread :: "policy \<Rightarrow> rs_grid \<Rightarrow> nat \<times> nat" where
  "first_thread allow g = (case find (\<lambda>(bx, tx). rs_runnable g bx tx \<and> allow g bx tx)
     (List.product [0..<dimGrid g] [0..<THREAD_BLOCKSIZE]) of Some p \<Rightarrow> p | None \<Rightarrow> (0, 0))"

lemma schedules_first: "schedules allow (first_thread allow)"
  unfolding schedules_def
proof (intro allI impI, elim conjE)
  fix g bx tx assume r: "rs_runnable g bx tx" "allow g bx tx"
  let ?P = "\<lambda>(bx, tx). rs_runnable g bx tx \<and> allow g bx tx"
  have "(bx, tx) \<in> set (List.product [0..<dimGrid g] [0..<THREAD_BLOCKSIZE])" using runnable_cases(1,2) [OF r(1)] by simp
  then obtain p where p: "find ?P (List.product [0..<dimGrid g] [0..<THREAD_BLOCKSIZE]) = Some p"
    using r by (metis (no_types, lifting) case_prodI find_None_iff not_Some_eq)
  then have "?P p" by (metis (no_types, lifting) find_Some_iff)
  then show "rs_runnable g (fst (first_thread allow g)) (snd (first_thread allow g)) \<and> allow g (fst (first_thread allow g)) (snd (first_thread allow g))"
    by (simp add: first_thread_def p case_prod_beta)
qed

section \<open>Properties\<close>


definition sample_shared :: rs_shared where
  "sample_shared = \<lparr>k_gflog = replicate 256 7, k_gfilog = replicate 256 9, fetch_tmp = \<lambda>t. 1, accu = \<lambda>t. 2,
     local_accu = None, local_fetch_tmp = None\<rparr>"

lemma sample_shared_ok: "shared_ok (\<lambda>bx. sample_shared)"
  by (simp add: shared_ok_def sample_shared_def)


end
