(* ===== verification/Rs_Orders.thy ===== *)
theory Rs_Orders
  imports Rs_Kernel
begin

unbundle bit_operations_syntax

text \<open>
  What \<open>rs_kernel\<close> computes, which depends on the order in which the threads of a block run, as they
  share their pointers \<open>local_accu\<close> and \<open>local_fetch_tmp\<close>.
  \<^item> If the threads of a block run one after the other (\<open>one_by_one\<close>), the check bytes are those of the CPU
    version, over one disk too many: the loop ends at \<open>i <= high_disk\<close>.
  \<^item> If they run in step (\<open>in_step\<close>), \<open>local_accu\<close> is what the last thread left in it, all threads add to the word of that
    one thread, and every other thread of the block writes zeros.

  Both are invariants of the steps under a policy, split into what holds of the thread that moves
  and what its move leaves alone of the others; the interpretations \<open>solo\<close> and \<open>step\<close> give that runs end.
\<close>

section \<open>What has been written\<close>

text \<open>The number of check words a thread has written, and their values \<open>V j l\<close> for byte \<open>l\<close> of word
  \<open>th\<close> of check disk \<open>j\<close>.\<close>

fun checks_done :: "nat \<Rightarrow> rs_pc \<Rightarrow> nat" where
  "checks_done cs (Clear j) = j - 1"
| "checks_done cs (Fetch j i) = j - 1"
| "checks_done cs (Fetch_ptr j i k) = j - 1"
| "checks_done cs (Fetch_byte j i k) = j - 1"
| "checks_done cs (Accu_ptr j i k) = j - 1"
| "checks_done cs (Accu_byte j i k) = j - 1"
| "checks_done cs (Accu_store j i k) = j - 1"
| "checks_done cs (Next_mult j i) = j - 1"
| "checks_done cs (Write_back j) = j - 1"
| "checks_done cs Finished = cs"
| "checks_done cs _ = 0"

definition pq_holds :: "u8 list \<Rightarrow> nat \<Rightarrow> nat \<Rightarrow> (nat \<Rightarrow> nat \<Rightarrow> u8) \<Rightarrow> bool" where
  "pq_holds pq th c V \<longleftrightarrow> (\<forall>j < c. \<forall>l < 8. pq ! (j * DMA_BLOCKSIZE + th * 8 + l) = V j l)"

lemma checks_done_le: "at_ok cs h p t s \<Longrightarrow> checks_done cs p \<le> cs"
  by (cases p) auto

lemma block_offset_cases:
  assumes "j \<noteq> j' \<or> th \<noteq> th'" "th * 8 + 8 \<le> DMA_BLOCKSIZE" "th' * 8 + 8 \<le> DMA_BLOCKSIZE" "l < 8"
  shows "\<not> (j' * DMA_BLOCKSIZE + th' * 8 \<le> j * DMA_BLOCKSIZE + th * 8 + l \<and> j * DMA_BLOCKSIZE + th * 8 + l < j' * DMA_BLOCKSIZE + th' * 8 + 8)"
proof -
  consider "j < j'" | "j' < j" | "j = j'" by linarith
  then show ?thesis
  proof cases
    case 1
    then have "Suc j * DMA_BLOCKSIZE \<le> j' * DMA_BLOCKSIZE" by (intro mult_le_mono1) simp
    then show ?thesis using assms by simp
  next
    case 2
    then have "Suc j' * DMA_BLOCKSIZE \<le> j * DMA_BLOCKSIZE" by (intro mult_le_mono1) simp
    then show ?thesis using assms by simp
  qed (use assms in auto)
qed

lemma dstore64_nth:
  assumes st: "dstore64 pq (j' * DMA_BLOCKSIZE + th' * 8) w = Some pq'" and c: "j < c" "c * DMA_BLOCKSIZE \<le> length pq"
    and th: "th * 8 + 8 \<le> DMA_BLOCKSIZE" "th' * 8 + 8 \<le> DMA_BLOCKSIZE" and l: "l < 8"
  shows "pq' ! (j * DMA_BLOCKSIZE + th * 8 + l) = (if j = j' \<and> th = th' then byte_of w l else pq ! (j * DMA_BLOCKSIZE + th * 8 + l))"
proof -
  have "Suc j * DMA_BLOCKSIZE \<le> c * DMA_BLOCKSIZE" using c(1) by (intro mult_le_mono1) simp
  then have "j * DMA_BLOCKSIZE + th * 8 + l < length pq" using c(2) th(1) l by simp
  then show ?thesis
    using st block_offset_cases [of j j' th th' l] th l
    by (auto simp: dstore64_def nth_overwrite nth_bytes_of_word split: if_splits)
qed

text \<open>A step writes at most one word, its own.\<close>

lemma rs_exec_written:
  assumes ex: "rs_exec cs disks DP bx tx (pc t) (t, s, pq) = Some (t', s', pq')" and ok: "at_ok cs h (pc t) t s"
    and th: "th = bx * THREAD_BLOCKSIZE + tx" "th * 8 + 8 \<le> DMA_BLOCKSIZE" and pq: "cs * DMA_BLOCKSIZE \<le> length pq"
  shows "c \<le> cs \<Longrightarrow> th' \<noteq> th \<Longrightarrow> th' * 8 + 8 \<le> DMA_BLOCKSIZE \<Longrightarrow> pq_holds pq th' c V \<Longrightarrow> pq_holds pq' th' c V"
    and "pq_holds pq th (checks_done cs (pc t)) V \<Longrightarrow>
      (\<And>j l. pc t = Write_back (Suc j) \<Longrightarrow> l < 8 \<Longrightarrow> byte_of (accu s tx) l = V j l) \<Longrightarrow> pq_holds pq' th (checks_done cs (pc t')) V"
proof -
  consider (store) j where "pc t = Write_back (Suc j)" "j < cs" "dstore64 pq (j * DMA_BLOCKSIZE + th * 8) (accu s tx) = Some pq'"
      "checks_done cs (pc t') = Suc j"
    | (other) "pq' = pq" "checks_done cs (pc t') = checks_done cs (pc t) \<or> checks_done cs (pc t') = 0"
  proof (cases "pc t")
    case (Write_back i)
    then obtain j where "i = Suc j" "j < cs" using ok by (cases i) auto
    then show ?thesis using that(1) [of j] ex Write_back th(1) by (auto simp: check_loop_def Let_def bind_eq_Some_conv)
  qed (use ex that(2) in \<open>auto simp: check_loop_def disk_loop_def Let_def bind_eq_Some_conv split: if_splits\<close>)
  note cases = this
  show "pq_holds pq' th' c V" if "c \<le> cs" "th' \<noteq> th" "th' * 8 + 8 \<le> DMA_BLOCKSIZE" "pq_holds pq th' c V"
  proof (cases rule: cases)
    case (store j)
    have "c * DMA_BLOCKSIZE \<le> length pq" by (rule le_trans [OF mult_le_mono1 [OF that(1)] pq])
    then show ?thesis using that dstore64_nth [OF store(3)] th(2) by (simp add: pq_holds_def)
  qed (use that in simp)
  show "pq_holds pq' th (checks_done cs (pc t')) V" if "pq_holds pq th (checks_done cs (pc t)) V"
    "\<And>j l. pc t = Write_back (Suc j) \<Longrightarrow> l < 8 \<Longrightarrow> byte_of (accu s tx) l = V j l"
  proof (cases rule: cases)
    case (store j)
    have "Suc j * DMA_BLOCKSIZE \<le> length pq" by (rule le_trans [OF mult_le_mono1 pq]) (use store(2) in simp)
    then show ?thesis
      using that store dstore64_nth [OF store(3), of _ "Suc j" th] th(2) by (auto simp: pq_holds_def less_Suc_eq)
  qed (use that in \<open>auto simp: pq_holds_def\<close>)
qed

section \<open>Threads of a block one after the other\<close>

text \<open>The product with the tables of the card, the coefficient of disk \<open>i\<close> for check disk \<open>y\<close> and the sum over the
  first \<open>i\<close> disks at offset \<open>x\<close> of the block.\<close>

definition shader :: "u8 list \<Rightarrow> u8 list \<Rightarrow> u8 \<Rightarrow> u8 \<Rightarrow> u8" where
  "shader lt it a b = (case mult_gf_shader a b lt it of Some r \<Rightarrow> r | None \<Rightarrow> 0)"

definition k_coef :: "(u8 \<Rightarrow> u8 \<Rightarrow> u8) \<Rightarrow> u8 \<Rightarrow> nat \<Rightarrow> u8" where
  "k_coef f y i = ((\<lambda>x. f x y) ^^ i) y"

definition k_check :: "(u8 \<Rightarrow> u8 \<Rightarrow> u8) \<Rightarrow> u8 \<Rightarrow> u8 list \<Rightarrow> nat \<Rightarrow> nat \<Rightarrow> u8" where
  "k_check f y DP i x = xor_list (map (\<lambda>z. f (DP ! (z * DMA_BLOCKSIZE + x)) (k_coef f y z)) [0..<i])"

lemma k_coef_simps: "k_coef f y 0 = y" "k_coef f y (Suc i) = f (k_coef f y i) y"
  by (simp_all add: k_coef_def)

lemma k_check_simps: "k_check f y DP 0 x = 0"
  "k_check f y DP (Suc i) x = k_check f y DP i x XOR f (DP ! (i * DMA_BLOCKSIZE + x)) (k_coef f y i)"
  by (simp_all add: k_check_def xor_list_append)

lemma byte_of_set_lane: "k < 8 \<Longrightarrow> l < 8 \<Longrightarrow> byte_of (set_lane w k b) l = (if l = k then b else byte_of w l)"
  by (simp add: set_lane_def lane_simps nth_list_update)

text \<open>What holds at each place of a thread \<open>tx\<close> that has the shared pointers to itself; \<open>x0\<close> is the
  offset of its word.\<close>

definition owns :: "nat \<Rightarrow> rs_shared \<Rightarrow> bool" where
  "owns tx s \<longleftrightarrow> local_accu s = Some tx \<and> local_fetch_tmp s = Some tx"

definition summing :: "(u8 \<Rightarrow> u8 \<Rightarrow> u8) \<Rightarrow> u8 list \<Rightarrow> nat \<Rightarrow> nat \<Rightarrow> nat \<Rightarrow> nat \<Rightarrow> nat \<Rightarrow> rs_thread \<Rightarrow> rs_shared \<Rightarrow> bool" where
  "summing f DP x0 tx j i k t s \<longleftrightarrow> mult t = k_coef f (of_nat j) i \<and>
     (\<forall>l < 8. byte_of (accu s tx) l = k_check f (of_nat j) DP (if l < k then Suc i else i) (x0 + l))"

definition fetched :: "u8 list \<Rightarrow> nat \<Rightarrow> nat \<Rightarrow> nat \<Rightarrow> rs_shared \<Rightarrow> bool" where
  "fetched DP x0 tx i s \<longleftrightarrow> (\<forall>l < 8. byte_of (fetch_tmp s tx) l = DP ! (i * DMA_BLOCKSIZE + x0 + l))"

fun at_solo :: "(u8 \<Rightarrow> u8 \<Rightarrow> u8) \<Rightarrow> nat \<Rightarrow> u8 list \<Rightarrow> nat \<Rightarrow> nat \<Rightarrow> rs_pc \<Rightarrow> rs_thread \<Rightarrow> rs_shared \<Rightarrow> bool" where
  "at_solo f h DP x0 tx Set_fetch t s \<longleftrightarrow> local_accu s = Some tx"
| "at_solo f h DP x0 tx (Clear j) t s \<longleftrightarrow> owns tx s"
| "at_solo f h DP x0 tx (Fetch j i) t s \<longleftrightarrow> owns tx s \<and> summing f DP x0 tx j i 0 t s"
| "at_solo f h DP x0 tx (Fetch_ptr j i k) t s \<longleftrightarrow> owns tx s \<and> summing f DP x0 tx j i k t s \<and> fetched DP x0 tx i s"
| "at_solo f h DP x0 tx (Fetch_byte j i k) t s \<longleftrightarrow> owns tx s \<and> summing f DP x0 tx j i k t s \<and> fetched DP x0 tx i s \<and> reg_fetch t = Some tx"
| "at_solo f h DP x0 tx (Accu_ptr j i k) t s \<longleftrightarrow> owns tx s \<and> summing f DP x0 tx j i k t s \<and> fetched DP x0 tx i s \<and>
     reg_prod t = f (DP ! (i * DMA_BLOCKSIZE + x0 + k)) (mult t)"
| "at_solo f h DP x0 tx (Accu_byte j i k) t s \<longleftrightarrow> owns tx s \<and> summing f DP x0 tx j i k t s \<and> fetched DP x0 tx i s \<and>
     reg_prod t = f (DP ! (i * DMA_BLOCKSIZE + x0 + k)) (mult t) \<and> reg_accu t = Some tx"
| "at_solo f h DP x0 tx (Accu_store j i k) t s \<longleftrightarrow> owns tx s \<and> summing f DP x0 tx j i k t s \<and> fetched DP x0 tx i s \<and>
     reg_prod t = f (DP ! (i * DMA_BLOCKSIZE + x0 + k)) (mult t) \<and> reg_accu t = Some tx \<and> reg_old t = byte_of (accu s tx) k"
| "at_solo f h DP x0 tx (Next_mult j i) t s \<longleftrightarrow> owns tx s \<and> summing f DP x0 tx j i 8 t s"
| "at_solo f h DP x0 tx (Write_back j) t s \<longleftrightarrow> owns tx s \<and> (\<forall>l < 8. byte_of (accu s tx) l = k_check f (of_nat j) DP (Suc h) (x0 + l))"
| "at_solo f h DP x0 tx _ t s \<longleftrightarrow> True"

lemma at_solo_exec:
  assumes ex: "rs_exec cs (int (h + cs)) DP bx tx (pc t) (t, s, pq) = Some (t', s', pq')"
    and ok: "at_ok cs h (pc t) t s" and solo: "at_solo f h DP ((bx * THREAD_BLOCKSIZE + tx) * 8) tx (pc t) t s"
    and f: "f = shader (k_gflog s) (k_gfilog s)"
    and th: "(bx * THREAD_BLOCKSIZE + tx) * 8 + 8 \<le> DMA_BLOCKSIZE" and dev: "Suc h * DMA_BLOCKSIZE \<le> length DP"
  shows "at_solo f h DP ((bx * THREAD_BLOCKSIZE + tx) * 8) tx (pc t') t' s'"
proof (cases "pc t")
  case (Clear j)
  then show ?thesis using ex ok solo by (auto simp: disk_loop_def owns_def summing_def k_coef_simps k_check_simps)
next
  case (Fetch j i)
  let ?o = "i * DMA_BLOCKSIZE + (bx * THREAD_BLOCKSIZE + tx) * 8"
  have "i \<le> h" using ok Fetch by simp
  from dload64_lane [OF device_fits [OF dev this th]] obtain w
    where "dload64 DP (int ?o) = Some w" "\<forall>k < 8. byte_of w k = DP ! (?o + k)" by blast
  then show ?thesis using ex solo Fetch by (auto simp: owns_def summing_def fetched_def)
next
  case (Fetch_byte j i k)
  then show ?thesis using ex ok solo f by (auto simp: bind_eq_Some_conv summing_def fetched_def shader_def)
next
  case (Accu_store j i k)
  then have k: "k < 8" using ok by simp
  have sum: "summing f DP ((bx * THREAD_BLOCKSIZE + tx) * 8) tx j i (Suc k) t' s'"
    using ex solo k Accu_store by (auto simp: summing_def byte_of_set_lane k_check_simps less_Suc_eq add.assoc)
  show ?thesis
  proof (cases "k < 7")
    case True
    then show ?thesis using sum ex solo Accu_store by (auto simp: owns_def fetched_def)
  next
    case False
    then have "k = 7" using k by simp
    then show ?thesis using sum ex solo Accu_store by (auto simp: owns_def)
  qed
next
  case (Next_mult j i)
  then show ?thesis
    using ex ok solo f
    by (cases "i = h") (auto simp: bind_eq_Some_conv disk_loop_def owns_def summing_def shader_def k_coef_simps)
next
  case (Write_back j)
  then show ?thesis using ex solo by (auto simp: check_loop_def Let_def bind_eq_Some_conv)
next
  case Set_fetch
  then show ?thesis using ex solo by (auto simp: check_loop_def owns_def)
qed (use ex ok solo f in \<open>auto simp: owns_def summing_def fetched_def bind_eq_Some_conv\<close>)

text \<open>The policy: a thread moves only while every other thread of its block is waiting or finished.\<close>

definition inside :: "rs_pc \<Rightarrow> bool" where
  "inside p \<longleftrightarrow> behind p \<and> p \<noteq> Finished"

definition one_by_one :: policy where
  "one_by_one g bx tx \<longleftrightarrow> list_all (\<lambda>t. t \<noteq> tx \<longrightarrow> \<not> inside (pc (thr g bx t))) [0..<THREAD_BLOCKSIZE]"

definition card_shader :: "rs_shared \<Rightarrow> u8 \<Rightarrow> u8 \<Rightarrow> u8" where
  "card_shader s = shader (k_gflog s) (k_gfilog s)"

definition solo_word :: "rs_shared \<Rightarrow> nat \<Rightarrow> u8 list \<Rightarrow> nat \<Rightarrow> nat \<Rightarrow> nat \<Rightarrow> u8" where
  "solo_word s h DP th j l = k_check (card_shader s) (of_nat (Suc j)) DP (Suc h) (th * 8 + l)"

definition solo_thread :: "nat \<Rightarrow> nat \<Rightarrow> u8 list \<Rightarrow> nat \<Rightarrow> nat \<Rightarrow> rs_shared \<Rightarrow> rs_thread \<Rightarrow> u8 list \<Rightarrow> bool" where
  "solo_thread cs h DP bx tx s t pq \<longleftrightarrow> at_solo (card_shader s) h DP ((bx * THREAD_BLOCKSIZE + tx) * 8) tx (pc t) t s \<and>
     pq_holds pq (bx * THREAD_BLOCKSIZE + tx) (checks_done cs (pc t)) (solo_word s h DP (bx * THREAD_BLOCKSIZE + tx))"

definition solo_ok :: "nat \<Rightarrow> nat \<Rightarrow> u8 list \<Rightarrow> rs_grid \<Rightarrow> bool" where
  "solo_ok cs h DP g \<longleftrightarrow> rs_ok cs h DP g \<and> (\<forall>bx < dimGrid g. \<forall>tx < THREAD_BLOCKSIZE.
     solo_thread cs h DP bx tx (sh g bx) (thr g bx tx) (DEVICE_PQ g) \<and>
     (\<forall>t < THREAD_BLOCKSIZE. inside (pc (thr g bx tx)) \<and> inside (pc (thr g bx t)) \<longrightarrow> t = tx))"

lemma thread_number_eq:
  assumes "tx < THREAD_BLOCKSIZE" "tx' < THREAD_BLOCKSIZE"
  shows "bx * THREAD_BLOCKSIZE + tx = bx' * THREAD_BLOCKSIZE + tx' \<longleftrightarrow> bx = bx' \<and> tx = tx'"
proof
  assume eq: "bx * THREAD_BLOCKSIZE + tx = bx' * THREAD_BLOCKSIZE + tx'"
  show "bx = bx' \<and> tx = tx'"
    using assms arg_cong [OF eq, of "\<lambda>n. n div THREAD_BLOCKSIZE"] arg_cong [OF eq, of "\<lambda>n. n mod THREAD_BLOCKSIZE"] by simp
qed simp

lemma solo_outside: "\<not> inside p \<Longrightarrow> at_solo f h DP x0 tx p t s"
  by (cases p) (auto simp: inside_def)

lemma checks_done_behind: "\<not> behind p \<Longrightarrow> checks_done cs p = 0"
  by (cases p) auto

lemma keeps_shader: "shared_keeps p tx s s' \<Longrightarrow> p \<noteq> Load_tables \<Longrightarrow> card_shader s' = card_shader s"
  by (simp add: shared_keeps_def card_shader_def)

lemma solo_word_cong: "card_shader s = card_shader s' \<Longrightarrow> solo_word s h DP = solo_word s' h DP"
  by (intro ext) (simp add: solo_word_def)

lemma one_by_one_others:
  "one_by_one g bx tx \<Longrightarrow> t < THREAD_BLOCKSIZE \<Longrightarrow> t \<noteq> tx \<Longrightarrow> \<not> inside (pc (thr g bx t))"
  by (simp add: one_by_one_def list_all_iff)

text \<open>The words of the other threads, of this block and of others, are left alone.\<close>

lemma others_written:
  assumes ok: "rs_ok cs h DP g" and ex: "rs_exec cs disks DP bx tx (pc (thr g bx tx)) (thr g bx tx, sh g bx, DEVICE_PQ g) = Some (t, s, pq)"
    and this_one: "bx < dimGrid g" "tx < THREAD_BLOCKSIZE" and other: "bx' < dimGrid g" "tx' < THREAD_BLOCKSIZE" "(bx', tx') \<noteq> (bx, tx)"
    and V: "pq_holds (DEVICE_PQ g) (bx' * THREAD_BLOCKSIZE + tx') (checks_done cs (pc (thr g bx' tx'))) V"
  shows "pq_holds pq (bx' * THREAD_BLOCKSIZE + tx') (checks_done cs (pc (thr g bx' tx'))) V"
proof -
  note parts = rs_ok_parts [OF ok this_one(1)] and parts' = rs_ok_parts [OF ok other(1)]
  have "bx' * THREAD_BLOCKSIZE + tx' \<noteq> bx * THREAD_BLOCKSIZE + tx" using thread_number_eq this_one(2) other(2,3) by auto
  then show ?thesis
    using rs_exec_written(1) [OF ex parts(3) [OF this_one(2)] refl parts(4) [OF this_one(2)] parts(7)
      checks_done_le [OF parts'(3) [OF other(2)]] _ parts'(4) [OF other(2)] V] by blast
qed

lemma solo_sibling:
  assumes ok: "rs_ok cs h DP g" and ex: "rs_exec cs disks DP bx tx (pc (thr g bx tx)) (thr g bx tx, sh g bx, DEVICE_PQ g) = Some (t, s, pq)"
    and tx: "bx < dimGrid g" "tx < THREAD_BLOCKSIZE" "tx' < THREAD_BLOCKSIZE" "tx' \<noteq> tx" and allow: "one_by_one g bx tx"
    and keep: "shared_keeps (pc (thr g bx tx)) tx (sh g bx) s"
    and old: "solo_thread cs h DP bx tx' (sh g bx) (thr g bx tx') (DEVICE_PQ g)"
  shows "solo_thread cs h DP bx tx' s (thr g bx tx') pq"
proof (cases "behind (pc (thr g bx tx'))")
  case True
  then have "pc (thr g bx tx) \<noteq> Load_tables" using rs_ok_parts(5) [OF ok tx(1,3)] tx(2) by blast
  then have "card_shader s = card_shader (sh g bx)" by (rule keeps_shader [OF keep])
  then have "solo_word s h DP = solo_word (sh g bx) h DP" by (rule solo_word_cong)
  then show ?thesis
    using old others_written [OF ok ex tx(1,2,1,3)] tx(4) solo_outside [OF one_by_one_others [OF allow tx(3,4)]]
    by (auto simp: solo_thread_def)
next
  case False
  then show ?thesis
    using solo_outside [OF one_by_one_others [OF allow tx(3,4)]] by (simp add: solo_thread_def checks_done_behind pq_holds_def)
qed

lemma solo_own:
  assumes ok: "rs_ok cs h DP g" and ex: "rs_exec cs (int (h + cs)) DP bx tx (pc (thr g bx tx)) (thr g bx tx, sh g bx, DEVICE_PQ g) = Some (t, s, pq)"
    and tx: "bx < dimGrid g" "tx < THREAD_BLOCKSIZE" and keep: "shared_keeps (pc (thr g bx tx)) tx (sh g bx) s"
    and old: "solo_thread cs h DP bx tx (sh g bx) (thr g bx tx) (DEVICE_PQ g)"
  shows "solo_thread cs h DP bx tx s t pq"
proof (cases "pc (thr g bx tx) = Load_tables")
  case True
  then show ?thesis using ex by (auto simp: solo_thread_def pq_holds_def)
next
  case False
  note parts = rs_ok_parts [OF ok tx(1)]
  have f: "card_shader s = card_shader (sh g bx)" by (rule keeps_shader [OF keep False])
  then have V: "solo_word s h DP = solo_word (sh g bx) h DP" by (rule solo_word_cong)
  have "at_solo (card_shader s) h DP ((bx * THREAD_BLOCKSIZE + tx) * 8) tx (pc t) t s"
    unfolding f by (rule at_solo_exec [OF ex parts(3) [OF tx(2)] _ card_shader_def parts(4) [OF tx(2)] parts(6)])
      (use old in \<open>simp add: solo_thread_def\<close>)
  moreover have "byte_of (accu (sh g bx) tx) l = solo_word (sh g bx) h DP (bx * THREAD_BLOCKSIZE + tx) j l"
    if "pc (thr g bx tx) = Write_back (Suc j)" "l < 8" for j l
    using old that unfolding solo_thread_def by (simp add: solo_word_def)
  ultimately show ?thesis
    using old rs_exec_written(2) [OF ex parts(3) [OF tx(2)] refl parts(4) [OF tx(2)] parts(7), of "solo_word (sh g bx) h DP (bx * THREAD_BLOCKSIZE + tx)"]
    unfolding V by (simp add: solo_thread_def V)
qed

lemma solo_step:
  assumes ok: "solo_ok cs h DP g" and st: "rs_step cs (int (h + cs)) DP one_by_one g g'"
  shows "solo_ok cs h DP g'"
proof -
  have rs: "rs_ok cs h DP g" using ok by (simp add: solo_ok_def)
  obtain bx tx t s pq where r: "one_by_one g bx tx" "bx < dimGrid g" "tx < THREAD_BLOCKSIZE"
    and ex: "rs_exec cs (int (h + cs)) DP bx tx (pc (thr g bx tx)) (thr g bx tx, sh g bx, DEVICE_PQ g) = Some (t, s, pq)"
    and g': "g' = put g bx tx t s pq" "rs_ok cs h DP g'" and keep: "shared_keeps (pc (thr g bx tx)) tx (sh g bx) s"
    using rs_stepE [OF st rs] by metis
  have old: "solo_thread cs h DP b x (sh g b) (thr g b x) (DEVICE_PQ g)" if "b < dimGrid g" "x < THREAD_BLOCKSIZE" for b x
    using ok that by (simp add: solo_ok_def)
  have "solo_thread cs h DP b x (sh g' b) (thr g' b x) (DEVICE_PQ g')" if b: "b < dimGrid g" "x < THREAD_BLOCKSIZE" for b x
  proof (cases "b = bx")
    case False
    then show ?thesis using old [OF b] others_written [OF rs ex r(2,3) b] by (auto simp: g' solo_thread_def)
  next
    case True
    then show ?thesis
      using solo_own [OF rs ex r(2,3) keep old [OF r(2,3)]] solo_sibling [OF rs ex r(2,3) b(2) _ r(1) keep old [OF r(2) b(2)]]
      by (cases "x = tx") (auto simp: g')
  qed
  moreover have "y = x" if "b < dimGrid g" "x < THREAD_BLOCKSIZE" "y < THREAD_BLOCKSIZE" "inside (pc (thr g' b x))" "inside (pc (thr g' b y))" for b x y
    using that ok one_by_one_others [OF r(1)] unfolding g' solo_ok_def by (auto split: if_splits)
  ultimately show ?thesis using g' unfolding solo_ok_def by simp
qed

lemma solo_progress:
  assumes ok: "solo_ok cs h DP g" and fin: "\<not> rs_finished g"
  obtains bx tx where "rs_runnable g bx tx" "one_by_one g bx tx"
proof -
  obtain bx tx where b: "bx < dimGrid g" "tx < THREAD_BLOCKSIZE" "pc (thr g bx tx) \<noteq> Finished" using rs_some_runnable [OF fin] .
  show thesis
  proof (cases "\<exists>x < THREAD_BLOCKSIZE. inside (pc (thr g bx x))")
    case True
    then obtain x where x: "x < THREAD_BLOCKSIZE" "inside (pc (thr g bx x))" by blast
    then have "rs_runnable g bx x" using b(1) by (cases "pc (thr g bx x)") (auto simp: rs_runnable_def inside_def)
    moreover have "one_by_one g bx x" using ok b(1) x unfolding solo_ok_def one_by_one_def list_all_iff by auto
    ultimately show ?thesis using that by blast
  next
    case False
    obtain x where "rs_runnable g bx x" using unfinished_runnable [OF b] by metis
    then show ?thesis using that False by (auto simp: one_by_one_def list_all_iff)
  qed
qed

interpretation solo: rs_policy cs h DP one_by_one "solo_ok cs h DP"
proof
  fix g g' assume ok: "solo_ok cs h DP g" and st: "rs_step cs (int (h + cs)) DP one_by_one g g'"
  show "solo_ok cs h DP g'" by (rule solo_step [OF ok st])
  show "rs_work cs h g' < rs_work cs h g" using ok st unfolding solo_ok_def by (blast elim: rs_stepE)
next
  fix g assume ok: "solo_ok cs h DP g" and fin: "\<not> rs_finished g"
  obtain bx tx where "rs_runnable g bx tx" "one_by_one g bx tx" using solo_progress [OF ok fin] .
  moreover have "rs_ok cs h DP g" using ok by (simp add: solo_ok_def)
  ultimately show "\<exists>t. rs_step cs (int (h + cs)) DP one_by_one g t" using rs_kernel_ok rs_step.move by metis
next
  fix g bx tx assume "solo_ok cs h DP g" "rs_runnable g bx tx"
  then show "\<exists>g'. rs_kernel cs (int (h + cs)) DP bx tx g = Some g'" using rs_kernel_ok unfolding solo_ok_def by metis
qed

section \<open>Threads of a block in step\<close>

text \<open>The policy: no thread enters the loops before every thread of its block has assigned \<open>local_accu\<close>, as
  it is when the threads of a block execute the kernel in step. From then on \<open>local_accu\<close> points at
  the word of one thread, and all threads of the block sum into that word.\<close>

fun settled_pc :: "rs_pc \<Rightarrow> bool" where
  "settled_pc Load_tables = False"
| "settled_pc Sync = False"
| "settled_pc Set_accu = False"
| "settled_pc _ = True"

fun in_loop :: "rs_pc \<Rightarrow> bool" where
  "in_loop Set_fetch = False"
| "in_loop Finished = False"
| "in_loop p = settled_pc p"

definition settled :: "(nat \<Rightarrow> rs_thread) \<Rightarrow> bool" where
  "settled ts \<longleftrightarrow> list_all (\<lambda>t. settled_pc (pc (ts t))) [0..<THREAD_BLOCKSIZE]"

definition in_step :: policy where
  "in_step g bx tx \<longleftrightarrow> (in_loop (pc (thr g bx tx)) \<longrightarrow> settled (thr g bx))"

text \<open>A thread that has left its first \<open>Clear\<close>, and one whose sum is under way.\<close>

fun started :: "rs_pc \<Rightarrow> bool" where
  "started Set_fetch = False"
| "started (Clear j) = (j \<noteq> 1)"
| "started p = settled_pc p"

fun in_sum :: "rs_pc \<Rightarrow> bool" where
  "in_sum (Clear j) = False"
| "in_sum p = in_loop p"

fun holds_accu :: "rs_pc \<Rightarrow> bool" where
  "holds_accu (Accu_byte j i k) = True"
| "holds_accu (Accu_store j i k) = True"
| "holds_accu _ = False"

definition step_thread :: "nat \<Rightarrow> nat \<Rightarrow> nat \<Rightarrow> rs_shared \<Rightarrow> rs_thread \<Rightarrow> u8 list \<Rightarrow> bool" where
  "step_thread cs bx tx s t pq \<longleftrightarrow> (holds_accu (pc t) \<longrightarrow> reg_accu t = local_accu s) \<and>
     (local_accu s \<noteq> Some tx \<longrightarrow> (in_sum (pc t) \<longrightarrow> accu s tx = 0) \<and>
        pq_holds pq (bx * THREAD_BLOCKSIZE + tx) (checks_done cs (pc t)) (\<lambda>j l. 0))"

definition step_ok :: "nat \<Rightarrow> nat \<Rightarrow> u8 list \<Rightarrow> rs_grid \<Rightarrow> bool" where
  "step_ok cs h DP g \<longleftrightarrow> rs_ok cs h DP g \<and> 1 \<le> cs \<and> (\<forall>bx < dimGrid g. \<forall>tx < THREAD_BLOCKSIZE.
     step_thread cs bx tx (sh g bx) (thr g bx tx) (DEVICE_PQ g) \<and> (started (pc (thr g bx tx)) \<longrightarrow> settled (thr g bx)))"

lemma settled_thread: "settled ts \<Longrightarrow> tx < THREAD_BLOCKSIZE \<Longrightarrow> settled_pc (pc (ts tx))"
  by (simp add: settled_def list_all_iff)

lemma not_started: "\<not> started p \<Longrightarrow> \<not> holds_accu p \<and> \<not> in_sum p \<and> checks_done cs p = 0"
  by (cases p) auto

lemma settled_exec:
  assumes "rs_exec cs disks DP bx tx p (t, s, pq) = Some (t', s', pq')" "p \<noteq> Finished" "settled_pc p"
  shows "settled_pc (pc t')"
  using assms by (cases p) (auto simp: check_loop_def disk_loop_def bind_eq_Some_conv Let_def)

lemma started_exec:
  assumes "rs_exec cs disks DP bx tx p (t, s, pq) = Some (t', s', pq')" "started (pc t')" "1 \<le> cs" "p \<noteq> Finished"
  shows "in_loop p"
  using assms by (cases p) (auto simp: check_loop_def)

text \<open>The accumulators of the other threads: only \<open>Clear\<close> and \<open>Accu_store\<close> write one, the former its
  own, the latter the one \<open>local_accu\<close> points at.\<close>

lemma exec_shared:
  assumes "rs_exec cs disks DP bx tx (pc t) (t, s, pq) = Some (t', s', pq')" "holds_accu (pc t) \<longrightarrow> reg_accu t = local_accu s"
  shows "settled_pc (pc t) \<Longrightarrow> local_accu s' = local_accu s"
    "x \<noteq> tx \<Longrightarrow> local_accu s \<noteq> Some x \<Longrightarrow> accu s' x = accu s x"
  using assms by (cases "pc t"; auto simp: bind_eq_Some_conv load_tables_def Let_def)+

lemma step_own:
  assumes ex: "rs_exec cs disks DP bx tx (pc t) (t, s, pq) = Some (t', s', pq')"
    and old: "holds_accu (pc t) \<longrightarrow> reg_accu t = local_accu s" "local_accu s \<noteq> Some tx \<longrightarrow> in_sum (pc t) \<longrightarrow> accu s tx = 0"
  shows "holds_accu (pc t') \<longrightarrow> reg_accu t' = local_accu s'" "local_accu s' \<noteq> Some tx \<longrightarrow> in_sum (pc t') \<longrightarrow> accu s' tx = 0"
proof -
  show "holds_accu (pc t') \<longrightarrow> reg_accu t' = local_accu s'"
    using ex old by (cases "pc t") (auto simp: check_loop_def disk_loop_def bind_eq_Some_conv Let_def split: if_splits)
  show "local_accu s' \<noteq> Some tx \<longrightarrow> in_sum (pc t') \<longrightarrow> accu s' tx = 0"
    using ex old by (cases "pc t") (auto simp: check_loop_def disk_loop_def bind_eq_Some_conv Let_def split: if_splits)
qed

lemma step_own_thread:
  assumes ok: "rs_ok cs h DP g" and tx: "bx < dimGrid g" "tx < THREAD_BLOCKSIZE"
    and ex: "rs_exec cs disks DP bx tx (pc (thr g bx tx)) (thr g bx tx, sh g bx, DEVICE_PQ g) = Some (t, s, pq)"
    and old: "step_thread cs bx tx (sh g bx) (thr g bx tx) (DEVICE_PQ g)"
  shows "step_thread cs bx tx s t pq"
proof -
  note parts = rs_ok_parts [OF ok tx(1)]
  have reg: "holds_accu (pc (thr g bx tx)) \<longrightarrow> reg_accu (thr g bx tx) = local_accu (sh g bx)" using old by (simp add: step_thread_def)
  have "pq_holds pq (bx * THREAD_BLOCKSIZE + tx) (checks_done cs (pc t)) (\<lambda>j l. 0)" if ne: "local_accu s \<noteq> Some tx"
  proof (cases "settled_pc (pc (thr g bx tx))")
    case True
    then have "local_accu (sh g bx) \<noteq> Some tx" using exec_shared(1) [OF ex reg] ne by simp
    then show ?thesis
      using old by (intro rs_exec_written(2) [OF ex parts(3) [OF tx(2)] refl parts(4) [OF tx(2)] parts(7)]) (simp_all add: step_thread_def)
  next
    case False
    then have "checks_done cs (pc t) = 0" using ex by (cases "pc (thr g bx tx)") auto
    then show ?thesis by (simp add: pq_holds_def)
  qed
  then show ?thesis using step_own [OF ex reg] old by (auto simp: step_thread_def)
qed

lemma step_sibling:
  assumes ok: "rs_ok cs h DP g" and tx: "bx < dimGrid g" "tx < THREAD_BLOCKSIZE" "x < THREAD_BLOCKSIZE" "x \<noteq> tx"
    and ex: "rs_exec cs disks DP bx tx (pc (thr g bx tx)) (thr g bx tx, sh g bx, DEVICE_PQ g) = Some (t, s, pq)"
    and mover: "step_thread cs bx tx (sh g bx) (thr g bx tx) (DEVICE_PQ g)"
    and old: "step_thread cs bx x (sh g bx) (thr g bx x) (DEVICE_PQ g)" "started (pc (thr g bx x)) \<longrightarrow> settled (thr g bx)"
  shows "step_thread cs bx x s (thr g bx x) pq"
proof (cases "started (pc (thr g bx x))")
  case True
  have reg: "holds_accu (pc (thr g bx tx)) \<longrightarrow> reg_accu (thr g bx tx) = local_accu (sh g bx)" using mover by (simp add: step_thread_def)
  have "settled_pc (pc (thr g bx tx))" using old(2) True settled_thread tx(2) by blast
  then show ?thesis
    using old(1) others_written [OF ok ex tx(1,2,1,3)] exec_shared(1) [OF ex reg] exec_shared(2) [OF ex reg tx(4)] tx(4)
    by (auto simp: step_thread_def)
next
  case False
  then show ?thesis using not_started [OF False, of cs] by (simp add: step_thread_def pq_holds_def)
qed

lemma step_step:
  assumes ok: "step_ok cs h DP g" and st: "rs_step cs (int (h + cs)) DP in_step g g'"
  shows "step_ok cs h DP g'"
proof -
  have rs: "rs_ok cs h DP g" "1 \<le> cs" using ok by (simp_all add: step_ok_def)
  obtain bx tx t s pq where run: "rs_runnable g bx tx" and r: "in_step g bx tx" "bx < dimGrid g" "tx < THREAD_BLOCKSIZE"
    and ex: "rs_exec cs (int (h + cs)) DP bx tx (pc (thr g bx tx)) (thr g bx tx, sh g bx, DEVICE_PQ g) = Some (t, s, pq)"
    and g': "g' = put g bx tx t s pq" "rs_ok cs h DP g'"
    using rs_stepE [OF st rs(1)] by metis
  note nf = runnable_cases(3) [OF run]
  have old: "step_thread cs b x (sh g b) (thr g b x) (DEVICE_PQ g)" "started (pc (thr g b x)) \<longrightarrow> settled (thr g b)"
    if "b < dimGrid g" "x < THREAD_BLOCKSIZE" for b x using ok that by (simp_all add: step_ok_def)
  have settled: "settled (thr g' b)" if "settled (thr g b)" for b
    using that settled_exec [OF ex nf] settled_thread [of "thr g bx" tx] r(3) by (auto simp: g' settled_def list_all_iff)
  have "step_thread cs b x (sh g' b) (thr g' b x) (DEVICE_PQ g')" if b: "b < dimGrid g" "x < THREAD_BLOCKSIZE" for b x
  proof (cases "b = bx")
    case False
    then show ?thesis using old(1) [OF b] others_written [OF rs(1) ex r(2,3) b] by (auto simp: g' step_thread_def)
  next
    case True
    then show ?thesis
      using step_own_thread [OF rs(1) r(2,3) ex old(1) [OF r(2,3)]] step_sibling [OF rs(1) r(2,3) b(2) _ ex old(1) [OF r(2,3)] old [OF r(2) b(2)]]
      by (cases "x = tx") (auto simp: g')
  qed
  moreover have "settled (thr g' b)" if b: "b < dimGrid g" "x < THREAD_BLOCKSIZE" "started (pc (thr g' b x))" for b x
  proof (cases "b = bx \<and> x = tx")
    case True
    then have "in_loop (pc (thr g bx tx))" using b(3) started_exec [OF ex _ rs(2) nf] by (simp add: g')
    then show ?thesis using settled r(1) True by (simp add: in_step_def)
  next
    case False
    then have "started (pc (thr g b x))" using b(3) by (auto simp: g' split: if_splits)
    then show ?thesis using settled old(2) [OF b(1,2)] by blast
  qed
  ultimately show ?thesis using g' rs(2) unfolding step_ok_def by simp
qed

lemma step_progress:
  assumes fin: "\<not> rs_finished g"
  obtains bx tx where "rs_runnable g bx tx" "in_step g bx tx"
proof -
  obtain bx tx where b: "bx < dimGrid g" "tx < THREAD_BLOCKSIZE" "pc (thr g bx tx) \<noteq> Finished" using rs_some_runnable [OF fin] .
  show thesis
  proof (cases "settled (thr g bx)")
    case True
    obtain x where "rs_runnable g bx x" using unfinished_runnable [OF b] by metis
    then show ?thesis using that True by (simp add: in_step_def)
  next
    case False
    then obtain x where x: "x < THREAD_BLOCKSIZE" "\<not> settled_pc (pc (thr g bx x))" by (auto simp: settled_def list_all_iff)
    then have "pc (thr g bx x) \<noteq> Finished" by auto
    then obtain y where "rs_runnable g bx y" "y = x \<or> pc (thr g bx y) = Load_tables" using unfinished_runnable [OF b(1) x(1)] by metis
    moreover have "\<not> in_loop (pc (thr g bx x))" using x(2) by (cases "pc (thr g bx x)") auto
    ultimately show ?thesis using that [of bx y] by (auto simp: in_step_def)
  qed
qed

interpretation step: rs_policy cs h DP in_step "step_ok cs h DP"
proof
  fix g g' assume ok: "step_ok cs h DP g" and st: "rs_step cs (int (h + cs)) DP in_step g g'"
  show "step_ok cs h DP g'" by (rule step_step [OF ok st])
  show "rs_work cs h g' < rs_work cs h g" using ok st unfolding step_ok_def by (blast elim: rs_stepE)
next
  fix g assume ok: "step_ok cs h DP g" and fin: "\<not> rs_finished g"
  obtain bx tx where "rs_runnable g bx tx" "in_step g bx tx" using step_progress [OF fin] .
  moreover have "rs_ok cs h DP g" using ok by (simp add: step_ok_def)
  ultimately show "\<exists>t. rs_step cs (int (h + cs)) DP in_step g t" using rs_kernel_ok rs_step.move by metis
next
  fix g bx tx assume "step_ok cs h DP g" "rs_runnable g bx tx"
  then show "\<exists>g'. rs_kernel cs (int (h + cs)) DP bx tx g = Some g'" using rs_kernel_ok unfolding step_ok_def by metis
qed

section \<open>Launches\<close>

lemma rs_start_ok:
  assumes "grid_fits cs h DP (rs_start n S pq)" "shared_ok S"
  shows "solo_ok cs h DP (rs_start n S pq)" "1 \<le> cs \<Longrightarrow> step_ok cs h DP (rs_start n S pq)"
proof -
  note ok = rs_start_rs_ok [OF assms]
  show "solo_ok cs h DP (rs_start n S pq)" using ok by (simp add: solo_ok_def solo_thread_def inside_def pq_holds_def)
  show "step_ok cs h DP (rs_start n S pq)" if "1 \<le> cs" using ok that by (simp add: step_ok_def step_thread_def pq_holds_def)
qed

lemma rs_run_dimGrid: "rs_run n pick cs disks DP g = Some g' \<Longrightarrow> dimGrid g' = dimGrid g"
proof (induction n arbitrary: g)
  case (Suc n)
  show ?case
  proof (cases "rs_finished g")
    case False
    obtain bx tx where "pick g = (bx, tx)" by fastforce
    then obtain g1 where "rs_kernel cs disks DP bx tx g = Some g1" "rs_run n pick cs disks DP g1 = Some g'"
      using Suc.prems False by (auto split: if_splits option.splits)
    then show ?thesis using Suc.IH by (auto simp: rs_kernel_def bind_eq_Some_conv)
  qed (use Suc.prems in simp)
qed (simp split: if_splits)

lemma finished_tables:
  assumes "rs_ok cs h DP g" "rs_finished g" "bx < dimGrid g" "i < 255"
  shows "k_gflog (sh g bx) ! i = gflog ! i" "k_gfilog (sh g bx) ! i = gfilog ! i"
proof -
  have "i div 32 < THREAD_BLOCKSIZE" using assms(4) by (simp add: THREAD_BLOCKSIZE_def)
  then have "pc (thr g bx (i div 32)) = Finished" using finished_thread assms(2,3) by blast
  then show "k_gflog (sh g bx) ! i = gflog ! i" "k_gfilog (sh g bx) ! i = gfilog ! i"
    using assms(1,3,4) by (simp_all add: rs_ok_def tables_ok_def)
qed

text \<open>Where the CPU version has a product, the card has the same.\<close>

lemma mult_gf_shader_eq:
  assumes "length lt = 256" "length it = 256" "\<And>i. i < 255 \<Longrightarrow> lt ! i = gflog ! i \<and> it ! i = gfilog ! i" "mult_gf a b = Some r"
  shows "shader lt it a b = r"
proof (cases "a = 0 \<or> b = 0")
  case True
  then show ?thesis using assms(4) by (auto simp: shader_def mult_gf_shader_def)
next
  case False
  then have 255: "a \<noteq> 255" "b \<noteq> 255" using assms(4) mult_gf_outside by auto
  then have ab: "unat a < 255" "unat b < 255" using unat_u8_less [of a] unat_u8_less [of b] by (auto simp: word_unat_eq_iff)
  have s: "table_at lt (unat a) = table_at gflog (unat a)" "table_at lt (unat b) = table_at gflog (unat b)"
    using ab assms(1,3) by (simp_all add: table_at_def)
  have "i < 255" if "table_at gfilog i = Some r" for i using that by (simp add: table_at_def split: if_splits)
  then have "table_at it i = Some r" if "table_at gfilog i = Some r" for i
    using that assms(2,3) by (fastforce simp: table_at_def split: if_splits)
  then show ?thesis
    using assms(4) False s by (auto simp: shader_def mult_gf_shader_def mult_gf_def Let_def bind_eq_Some_conv)
qed

lemma mult_gf_commute: "mult_gf a b = mult_gf b a"
  by (cases "table_at gflog (unat a)"; cases "table_at gflog (unat b)") (auto simp: mult_gf_def add.commute)

lemma rs_row_k_check:
  assumes f: "\<And>a b r. mult_gf a b = Some r \<Longrightarrow> f a b = r"
    and row: "rs_row y (k_coef f y i) (map (\<lambda>z. DP ! (z * DMA_BLOCKSIZE + x)) [i..<n]) (k_check f y DP i x) = Some v" and i: "i \<le> n"
  shows "k_check f y DP n x = v"
  using row i
proof (induction "n - i" arbitrary: i)
  case (Suc d)
  then have i: "i < n" by simp
  let ?d = "DP ! (i * DMA_BLOCKSIZE + x)"
  obtain r x' where r: "mult_gf (k_coef f y i) ?d = Some r" "mult_gf (k_coef f y i) y = Some x'"
    and rest: "rs_row y x' (map (\<lambda>z. DP ! (z * DMA_BLOCKSIZE + x)) [Suc i..<n]) (k_check f y DP i x XOR r) = Some v"
    using Suc.prems(1) i by (auto simp: upt_conv_Cons bind_eq_Some_conv)
  have "f ?d (k_coef f y i) = r" "x' = k_coef f y (Suc i)" using f r mult_gf_commute by (metis, simp add: f k_coef_simps)
  then show ?case using Suc.hyps(1) [of "Suc i"] Suc.hyps(2) rest i by (simp add: k_check_simps)
qed simp

lemma k_check_cpu:
  assumes f: "\<And>a b r. mult_gf a b = Some r \<Longrightarrow> f a b = r" and v: "rs_check_byte k (dcol DP h x) = Some v"
    and stale: "DP ! (h * DMA_BLOCKSIZE + x) = 0"
  shows "k_check f (of_nat (Suc k)) DP (Suc h) x = v"
proof -
  have "k_check f (of_nat (Suc k)) DP h x = v"
    by (rule rs_row_k_check [OF f, where i = 0]) (use v in \<open>simp_all add: rs_check_byte_def dcol_def k_coef_simps k_check_simps\<close>)
  moreover have "f 0 c = 0" for c using f [of 0 c 0] by simp
  ultimately show ?thesis using stale by (simp add: k_check_simps)
qed

text \<open>The word and the lane of a byte of the block.\<close>

lemma byte_thread:
  assumes "x < n * (THREAD_BLOCKSIZE * 8)"
  obtains bx tx l where "bx < n" "tx < THREAD_BLOCKSIZE" "l < 8" "x = (bx * THREAD_BLOCKSIZE + tx) * 8 + l"
proof
  let ?th = "x div 8"
  show "?th div THREAD_BLOCKSIZE < n" using assms by (simp add: less_mult_imp_div_less div_mult2_eq [symmetric] mult.commute)
  show "?th mod THREAD_BLOCKSIZE < THREAD_BLOCKSIZE" by (simp add: THREAD_BLOCKSIZE_def)
  show "x mod 8 < 8" by simp
  show "x = (?th div THREAD_BLOCKSIZE * THREAD_BLOCKSIZE + ?th mod THREAD_BLOCKSIZE) * 8 + x mod 8" by simp
qed

text \<open>A launch under which the threads of a block run one after the other gives the rows of the CPU version, if
  the disk behind the data is zero.\<close>

lemma solo_launch:
  assumes g: "grid_fits cs h DP (rs_start n S pq)" "shared_ok S" and pick: "schedules one_by_one pick"
  shows "\<exists>g'. rs_run (rs_fuel cs h n) pick cs (int (h + cs)) DP (rs_start n S pq) = Some g' \<and> cs * DMA_BLOCKSIZE \<le> length (DEVICE_PQ g') \<and>
    (\<forall>k < cs. \<forall>x < n * (THREAD_BLOCKSIZE * 8). \<forall>v. DP ! (h * DMA_BLOCKSIZE + x) = 0 \<and> rs_check_byte k (dcol DP h x) = Some v \<longrightarrow>
       DEVICE_PQ g' ! (k * DMA_BLOCKSIZE + x) = v)"
proof -
  obtain g' where g': "rs_run (rs_fuel cs h n) pick cs (int (h + cs)) DP (rs_start n S pq) = Some g'" "rs_finished g'" "solo_ok cs h DP g'"
    using solo.run_ends [OF pick rs_start_ok(1) [OF g]] rs_start_work by (metis le_refl)
  have ok: "rs_ok cs h DP g'" using g'(3) by (simp add: solo_ok_def)
  have n: "dimGrid g' = n" using rs_run_dimGrid [OF g'(1)] by simp
  have "DEVICE_PQ g' ! (k * DMA_BLOCKSIZE + x) = v"
    if k: "k < cs" and x: "x < n * (THREAD_BLOCKSIZE * 8)" and v: "DP ! (h * DMA_BLOCKSIZE + x) = 0" "rs_check_byte k (dcol DP h x) = Some v" for k x v
  proof -
    obtain bx tx l where b: "bx < n" "tx < THREAD_BLOCKSIZE" "l < 8" "x = (bx * THREAD_BLOCKSIZE + tx) * 8 + l" using byte_thread [OF x] .
    have "solo_thread cs h DP bx tx (sh g' bx) (thr g' bx tx) (DEVICE_PQ g')" "pc (thr g' bx tx) = Finished"
      using g'(2,3) b n finished_thread by (auto simp: solo_ok_def)
    then have "DEVICE_PQ g' ! (k * DMA_BLOCKSIZE + (bx * THREAD_BLOCKSIZE + tx) * 8 + l) = solo_word (sh g' bx) h DP (bx * THREAD_BLOCKSIZE + tx) k l"
      using k b(3) unfolding solo_thread_def pq_holds_def by simp
    also have "\<dots> = k_check (card_shader (sh g' bx)) (of_nat (Suc k)) DP (Suc h) x" unfolding solo_word_def b(4) ..
    also have "\<dots> = v"
    proof (rule k_check_cpu [OF _ v(2,1)])
      fix a b' r assume "mult_gf a b' = Some r"
      then show "card_shader (sh g' bx) a b' = r"
        unfolding card_shader_def using rs_ok_parts(1,2) [OF ok] finished_tables [OF ok g'(2)] b(1) n by (intro mult_gf_shader_eq) simp_all
    qed
    finally show ?thesis unfolding b(4) by (simp add: add.assoc)
  qed
  then show ?thesis using g'(1) rs_ok_parts(7) [OF ok] ok unfolding rs_ok_def grid_fits_def by blast
qed

text \<open>A launch under which the threads of a block run in step writes zeros, except for one thread of each block.\<close>

lemma step_launch:
  assumes g: "grid_fits cs h DP (rs_start n S pq)" "shared_ok S" and cs: "1 \<le> cs" and pick: "schedules in_step pick"
  shows "\<exists>g'. rs_run (rs_fuel cs h n) pick cs (int (h + cs)) DP (rs_start n S pq) = Some g' \<and> cs * DMA_BLOCKSIZE \<le> length (DEVICE_PQ g') \<and>
    (\<forall>bx < n. \<exists>w. \<forall>tx < THREAD_BLOCKSIZE. \<forall>k < cs. \<forall>l < 8. tx \<noteq> w \<longrightarrow>
       DEVICE_PQ g' ! (k * DMA_BLOCKSIZE + ((bx * THREAD_BLOCKSIZE + tx) * 8 + l)) = 0)"
proof -
  obtain g' where g': "rs_run (rs_fuel cs h n) pick cs (int (h + cs)) DP (rs_start n S pq) = Some g'" "rs_finished g'" "step_ok cs h DP g'"
    using step.run_ends [OF pick rs_start_ok(2) [OF g cs]] rs_start_work by (metis le_refl)
  have n: "dimGrid g' = n" using rs_run_dimGrid [OF g'(1)] by simp
  have "DEVICE_PQ g' ! (k * DMA_BLOCKSIZE + ((bx * THREAD_BLOCKSIZE + tx) * 8 + l)) = 0"
    if "bx < n" "tx < THREAD_BLOCKSIZE" "k < cs" "l < 8" "local_accu (sh g' bx) \<noteq> Some tx" for bx tx k l
  proof -
    have "step_thread cs bx tx (sh g' bx) (thr g' bx tx) (DEVICE_PQ g')" "pc (thr g' bx tx) = Finished"
      using g'(2,3) that n finished_thread by (auto simp: step_ok_def)
    then show ?thesis using that by (simp add: step_thread_def pq_holds_def add.assoc)
  qed
  then have "\<exists>w. \<forall>tx < THREAD_BLOCKSIZE. \<forall>k < cs. \<forall>l < 8. tx \<noteq> w \<longrightarrow>
      DEVICE_PQ g' ! (k * DMA_BLOCKSIZE + ((bx * THREAD_BLOCKSIZE + tx) * 8 + l)) = 0" if "bx < n" for bx
    using that by (cases "local_accu (sh g' bx)") (auto intro: exI [of _ "the (local_accu (sh g' bx))"])
  then show ?thesis using g'(1,3) unfolding step_ok_def rs_ok_def grid_fits_def by blast
qed

end
