(* ===== verification/Cuda_MultRS.thy ===== *)
theory Cuda_MultRS
  imports Rs_Orders
begin

unbundle bit_operations_syntax

text \<open>
  The host side of the GPU version of the multi-failure encoder (\<open>multrs/raid6multrs.cu\<close> without
  \<open>NOCUDA\<close>): \<open>get_card_mem\<close>, \<open>multi_rs_cuda_gen_syndrome\<close> with its copies in blocks of \<open>DMA_BLOCKSIZE\<close> bytes and the launches of
  \<open>rs_kernel\<close>, and \<open>release_cuda_memory\<close>. The number of check disks is the parameter \<open>cs\<close>, as the prototype has the same
  code with another constant.

  The record \<open>rs_gpu\<close> stands for the CUDA runtime: whether the device buffers can be allocated and what they
  contain, what the shared memory of a block contains before its first write, and which thread
  moves next (\<open>rs_pick\<close>, per launch). A copy beyond a buffer is undefined; a launch of no blocks is
  refused by the runtime and does nothing.

  Requests of whole blocks are served, and what they get depends on the order of the threads as
  \<open>Rs_Orders\<close> says. A request of less than one block reads beyond the buffers of the caller.
\<close>

record rs_gpu =
  rs_device_ok :: bool
  rs_fill :: "nat \<Rightarrow> nat \<Rightarrow> u8"
  rs_shared_mem :: "nat \<Rightarrow> nat \<Rightarrow> rs_shared"
  rs_pick :: "nat \<Rightarrow> rs_grid \<Rightarrow> nat \<times> nat"

text \<open>The static variables; \<open>rs_launches\<close> numbers the launches.\<close>

record rs_state =
  rs_mem_tag :: int
  DEVICE_DP :: "u8 list option"
  DEVICE_CS :: "u8 list option"
  rs_launches :: nat

definition rs_get_card_mem :: "rs_gpu \<Rightarrow> rs_state \<Rightarrow> int + rs_state" where
  "rs_get_card_mem e s =
     (if rs_mem_tag s = 0 then
        if \<not> rs_device_ok e then Inl 1
        else Inr (s\<lparr>rs_mem_tag := 1, DEVICE_DP := Some (map (rs_fill e 0) [0..<DMA_BLOCKSIZE * 256]),
          DEVICE_CS := Some (map (rs_fill e 1) [0..<DMA_BLOCKSIZE * 256])\<rparr>)
      else Inr s)"

text \<open>The two copy loops; \<open>off\<close> is the value of the index expression of the host buffer.\<close>

fun rs_upload :: "mem \<Rightarrow> ptr \<Rightarrow> nat option \<Rightarrow> nat list \<Rightarrow> u8 list \<Rightarrow> u8 list option" where
  "rs_upload m dptrs off [] dev = Some dev"
| "rs_upload m dptrs off (i # is) dev = do {
     p \<leftarrow> ptr_index m dptrs (int i);
     s \<leftarrow> off;
     dev \<leftarrow> h2d m p s DMA_BLOCKSIZE (i * DMA_BLOCKSIZE) dev;
     rs_upload m dptrs off is dev }"

fun rs_download :: "u8 list \<Rightarrow> ptr \<Rightarrow> int \<Rightarrow> nat option \<Rightarrow> nat list \<Rightarrow> mem \<Rightarrow> mem option" where
  "rs_download dev dptrs high_disk off [] m = Some m"
| "rs_download dev dptrs high_disk off (i # is) m = do {
     p \<leftarrow> ptr_index m dptrs (high_disk + int i);
     s \<leftarrow> off;
     m \<leftarrow> d2h m p s DMA_BLOCKSIZE (i * DMA_BLOCKSIZE) dev;
     rs_download dev dptrs high_disk off is m }"

definition rs_launch :: "rs_gpu \<Rightarrow> nat \<Rightarrow> nat \<Rightarrow> int \<Rightarrow> nat \<Rightarrow> u8 list \<Rightarrow> u8 list \<Rightarrow> u8 list option" where
  "rs_launch e l cs disks blocks dp pq = map_option DEVICE_PQ
     (rs_run (rs_fuel cs (nat (disks - int cs)) blocks) (rs_pick e l) cs disks dp (rs_start blocks (rs_shared_mem e l) pq))"

text \<open>One round: upload, launch, download.\<close>

definition rs_round :: "rs_gpu \<Rightarrow> nat \<Rightarrow> nat \<Rightarrow> int \<Rightarrow> ptr \<Rightarrow> nat option \<Rightarrow> nat \<Rightarrow> u8 list \<times> u8 list \<times> mem \<Rightarrow>
    (u8 list \<times> u8 list \<times> mem) option" where
  "rs_round e l cs disks dptrs off blocks = (\<lambda>(dp, pq, m). do {
     dp \<leftarrow> rs_upload m dptrs off [0..<nat (disks - int cs)] dp;
     pq \<leftarrow> rs_launch e l cs disks blocks dp pq;
     m \<leftarrow> rs_download pq dptrs (disks - int cs) off [0..<cs] m;
     Some (dp, pq, m) })"

text \<open>The loop over the whole blocks; \<open>j * DMA_BLOCKSIZE\<close> is an \<open>int\<close>.\<close>

fun rs_rounds :: "rs_gpu \<Rightarrow> nat \<Rightarrow> nat \<Rightarrow> int \<Rightarrow> ptr \<Rightarrow> nat list \<Rightarrow> u8 list \<times> u8 list \<times> mem \<Rightarrow> (u8 list \<times> u8 list \<times> mem) option" where
  "rs_rounds e l cs disks dptrs [] st = Some st"
| "rs_rounds e l cs disks dptrs (j # js) st = do {
     st \<leftarrow> rs_round e l cs disks dptrs (c_nat (j * DMA_BLOCKSIZE)) (DMA_BLOCKSIZE div (THREAD_BLOCKSIZE * 8)) st;
     rs_rounds e (Suc l) cs disks dptrs js st }"

text \<open>After the loop \<open>j\<close> is \<open>runs\<close>, and \<open>j * carry\<close> is an \<open>unsigned long\<close>. The \<open>ceil\<close> of the integer quotient is
  the quotient.\<close>

definition multi_rs_cuda_gen_syndrome ::
    "rs_gpu \<Rightarrow> nat \<Rightarrow> int \<Rightarrow> nat \<Rightarrow> ptr \<Rightarrow> rs_state \<times> mem \<Rightarrow> (int + rs_state \<times> mem) option" where
  "multi_rs_cuda_gen_syndrome e cs disks bytes ptrs = (\<lambda>(s, m).
     let runs = bytes div DMA_BLOCKSIZE; carry = bytes - runs * DMA_BLOCKSIZE in
     case rs_get_card_mem e s of
       Inl r \<Rightarrow> Some (Inl r)
     | Inr s \<Rightarrow> do {
         dp \<leftarrow> DEVICE_DP s;
         pq \<leftarrow> DEVICE_CS s;
         let l = rs_launches s;
         st \<leftarrow> rs_rounds e l cs disks ptrs [0..<runs] (dp, pq, m);
         let l = l + runs;
         (l, dp, pq, m) \<leftarrow> (if 0 < carry then do {
            st \<leftarrow> rs_round e l cs disks ptrs (Some (runs * carry)) (carry div (THREAD_BLOCKSIZE * 8)) st;
            Some (Suc l, st) }
          else Some (l, st));
         Some (Inr (s\<lparr>DEVICE_DP := Some dp, DEVICE_CS := Some pq, rs_launches := l\<rparr>, m)) })"

text \<open>The entry point of the build with CUDA, with four check disks; the release of the buffers leaves
  \<open>mem_tag\<close> set.\<close>

definition multi_rs_gen_syndrome_cuda :: "rs_gpu \<Rightarrow> int \<Rightarrow> nat \<Rightarrow> ptr \<Rightarrow> rs_state \<times> mem \<Rightarrow> (int + rs_state \<times> mem) option" where
  "multi_rs_gen_syndrome_cuda e disks bytes ptrs = multi_rs_cuda_gen_syndrome e CHECK_SYMBOLS disks bytes ptrs"

definition release_cuda_memory :: "rs_state \<Rightarrow> rs_state" where
  "release_cuda_memory s = s\<lparr>DEVICE_DP := None, DEVICE_CS := None\<rparr>"

section \<open>Copies\<close>

lemma rs_upload_upload: "off < 2 ^ 31 \<Longrightarrow> rs_upload m a (Some off) is dev = upload m a off DMA_BLOCKSIZE is dev"
  by (induction "is" arbitrary: dev) (auto split: bind_splits)

lemma rs_upload_frame:
  assumes "rs_upload m a off is dev = Some dev'" "\<forall>i \<in> set is. i < k" "k * DMA_BLOCKSIZE \<le> x" "x < length dev"
  shows "dev' ! x = dev ! x"
  using assms(1,2,4)
proof (induction "is" arbitrary: dev)
  case (Cons i "is")
  have "Suc i * DMA_BLOCKSIZE \<le> k * DMA_BLOCKSIZE" using Cons.prems(2) by (intro mult_le_mono1) simp
  then have x: "i * DMA_BLOCKSIZE + DMA_BLOCKSIZE \<le> x" using assms(3) by simp
  obtain p s dev1 where "h2d m p s DMA_BLOCKSIZE (i * DMA_BLOCKSIZE) dev = Some dev1" "rs_upload m a off is dev1 = Some dev'"
    using Cons.prems(1) by (auto simp: bind_eq_Some_conv)
  moreover then have "length dev1 = length dev" "dev1 ! x = dev ! x"
    using x Cons.prems(3) by (auto simp: h2d_def read_bytes_def bind_eq_Some_conv nth_overwrite split: if_splits)
  ultimately show ?case using Cons.IH Cons.prems(2,3) by simp
qed simp

text \<open>Block \<open>k\<close> of a device buffer.\<close>

definition chunk :: "u8 list \<Rightarrow> nat \<Rightarrow> u8 list" where
  "chunk pq k = take DMA_BLOCKSIZE (drop (k * DMA_BLOCKSIZE) pq)"

lemma chunk_nth:
  assumes "cs * DMA_BLOCKSIZE \<le> length pq" "k < cs"
  shows "length (chunk pq k) = DMA_BLOCKSIZE" "x < DMA_BLOCKSIZE \<Longrightarrow> chunk pq k ! x = pq ! (k * DMA_BLOCKSIZE + x)"
proof -
  have "Suc k * DMA_BLOCKSIZE \<le> cs * DMA_BLOCKSIZE" using assms(2) by (intro mult_le_mono1) simp
  then have "k * DMA_BLOCKSIZE + DMA_BLOCKSIZE \<le> length pq" using assms(1) by simp
  then show "length (chunk pq k) = DMA_BLOCKSIZE" "x < DMA_BLOCKSIZE \<Longrightarrow> chunk pq k ! x = pq ! (k * DMA_BLOCKSIZE + x)"
    by (simp_all add: chunk_def)
qed

text \<open>Between two memories only check disks differ, and the stripe is kept.\<close>

definition only_checks :: "ptr \<Rightarrow> ptr list \<Rightarrow> nat \<Rightarrow> nat \<Rightarrow> mem \<Rightarrow> mem \<Rightarrow> bool" where
  "only_checks a ps h bytes m m' \<longleftrightarrow> stripe m' a ps bytes \<and> (\<forall>z. z \<notin> set (drop h ps) \<longrightarrow> m' z = m z)"

lemma only_checks_trans:
  "only_checks a ps h bytes m m1 \<Longrightarrow> only_checks a ps h bytes m1 m2 \<Longrightarrow> only_checks a ps h bytes m m2"
  by (simp add: only_checks_def)

lemma only_checks_data:
  assumes "stripe m a ps bytes" "only_checks a ps h bytes m m'" "z < h" "h \<le> length ps"
  shows "buf m' (ps ! z) = buf m (ps ! z)"
proof -
  have "distinct ps" "z < length ps" using assms(1,3,4) by (auto simp: stripe_def)
  then have "ps ! z \<notin> set (drop h ps)" using nth_in_drop [of ps z h] assms(3) by simp
  then show ?thesis using assms(2) by (simp add: only_checks_def buf_def bytes_at_def obj_at_def)
qed

lemma rs_download_ok:
  assumes st: "stripe m a ps bytes" and len: "length ps = h + cs" and off: "off + DMA_BLOCKSIZE \<le> bytes"
    and pq: "cs * DMA_BLOCKSIZE \<le> length pq" and i: "i \<le> cs"
  shows "\<exists>m'. rs_download pq a (int h) (Some off) [i..<cs] m = Some m' \<and> only_checks a ps h bytes m m' \<and>
    (\<forall>k < cs. buf m' (ps ! (h + k)) = (if i \<le> k then overwrite (buf m (ps ! (h + k))) off (chunk pq k)
       else buf m (ps ! (h + k))))"
  using i st
proof (induction "cs - i" arbitrary: i m)
  case 0
  then show ?case by (auto simp: only_checks_def)
next
  case (Suc d)
  then have i: "i < cs" "h + i < length ps" and d: "d = cs - Suc i" using len by simp_all
  let ?p = "ps ! (h + i)" and ?ys = "chunk pq i"
  let ?b = "overwrite (buf m ?p) off ?ys" and ?m = "m(ps ! (h + i) \<mapsto> Bytes (overwrite (buf m (ps ! (h + i))) off (chunk pq i)))"
  note b = stripe_bytes_at [OF Suc.prems(2) i(2)]
  have "Suc i * DMA_BLOCKSIZE \<le> cs * DMA_BLOCKSIZE" using i(1) by (intro mult_le_mono1) simp
  then have room: "i * DMA_BLOCKSIZE + DMA_BLOCKSIZE \<le> length pq" using pq by simp
  have ys: "length ?ys = DMA_BLOCKSIZE" by (rule chunk_nth(1) [OF pq i(1)])
  have len': "length ?b = length (buf m ?p)" using ys b(2) off by (intro length_overwrite) simp
  have "ptr_index m a (int h + int i) = Some ?p" using stripe_ptr_index [OF Suc.prems(2), of "int (h + i)"] i(2) by (simp add: nat_add_distrib)
  moreover have "d2h m ?p off DMA_BLOCKSIZE (i * DMA_BLOCKSIZE) pq = Some ?m" using room b off ys by (simp add: d2h_def mem_simps chunk_def [symmetric])
  ultimately have step: "rs_download pq a (int h) (Some off) [i..<cs] m = rs_download pq a (int h) (Some off) [Suc i..<cs] ?m"
    using i(1) by (simp add: upt_conv_Cons)
  have st': "stripe ?m a ps bytes" by (rule stripe_upd [OF Suc.prems(2) i(2)]) (use len' b(2) in simp)
  have one: "only_checks a ps h bytes m ?m"
    using st' nth_in_drop [of ps "h + i" h] Suc.prems(2) i(2) by (auto simp: only_checks_def stripe_def)
  obtain m' where m': "rs_download pq a (int h) (Some off) [Suc i..<cs] ?m = Some m'" "only_checks a ps h bytes ?m m'"
    "\<forall>k < cs. buf m' (ps ! (h + k)) = (if Suc i \<le> k then overwrite (buf ?m (ps ! (h + k))) off (chunk pq k)
       else buf ?m (ps ! (h + k)))"
    using Suc.hyps(1) [OF d Suc_leI [OF i(1)] st'] by blast
  have old: "buf ?m (ps ! (h + k)) = (if k = i then ?b else buf m (ps ! (h + k)))" if "k < cs" for k
    using b(3) stripe_distinct [OF Suc.prems(2), of "h + k" "h + i"] that i len by simp
  have new: "buf m' (ps ! (h + k)) = (if i \<le> k then overwrite (buf m (ps ! (h + k))) off (chunk pq k) else buf m (ps ! (h + k)))"
    if "k < cs" for k using m'(3) old that by (cases "k = i") auto
  show ?case unfolding step using m'(1) only_checks_trans [OF one m'(2)] new by blast
qed

text \<open>A round, given what the launch does with the uploaded data.\<close>

definition uploaded :: "mem \<Rightarrow> ptr list \<Rightarrow> nat \<Rightarrow> nat \<Rightarrow> u8 list \<Rightarrow> u8 list \<Rightarrow> bool" where
  "uploaded m ps h off dp dp' \<longleftrightarrow> length dp' = length dp \<and> (\<forall>x < DMA_BLOCKSIZE. dcol dp' h x = column m ps h (off + x)) \<and>
     (\<forall>x < DMA_BLOCKSIZE. dp' ! (h * DMA_BLOCKSIZE + x) = dp ! (h * DMA_BLOCKSIZE + x))"

lemma rs_upload_ok:
  assumes st: "stripe m a ps bytes" and h: "h \<le> length ps" and off: "off + DMA_BLOCKSIZE \<le> bytes" "off < 2 ^ 31"
    and dp: "Suc h * DMA_BLOCKSIZE \<le> length dp"
  shows "\<exists>dp'. rs_upload m a (Some off) [0..<h] dp = Some dp' \<and> uploaded m ps h off dp dp'"
proof -
  have "h * DMA_BLOCKSIZE \<le> length dp" using dp by simp
  then obtain dp' where up: "upload m a off DMA_BLOCKSIZE [0..<h] dp = Some dp'" "length dp' = length dp"
    and data: "\<forall>z x. z < h \<and> x < DMA_BLOCKSIZE \<longrightarrow> dp' ! (z * DMA_BLOCKSIZE + x) = buf m (ps ! z) ! (off + x)"
    using upload_copies [OF stripe_mono [OF st off(1)] h _ le_refl off(2), of dp 0] by auto
  have run: "rs_upload m a (Some off) [0..<h] dp = Some dp'" using up(1) rs_upload_upload [OF off(2)] by simp
  have "dp' ! (h * DMA_BLOCKSIZE + x) = dp ! (h * DMA_BLOCKSIZE + x)" if "x < DMA_BLOCKSIZE" for x
    by (rule rs_upload_frame [OF run, of h]) (use that dp in simp_all)
  then show ?thesis unfolding uploaded_def using run up(2) column_dcol [OF data] by blast
qed

lemma rs_round_ok:
  assumes st: "stripe m a ps bytes" and len: "length ps = h + cs" and off: "off + DMA_BLOCKSIZE \<le> bytes" "off < 2 ^ 31"
    and dp: "Suc h * DMA_BLOCKSIZE \<le> length dp"
    and launch: "\<And>dp'. uploaded m ps h off dp dp' \<Longrightarrow>
      \<exists>pq'. rs_launch e l cs (int (h + cs)) blocks dp' pq = Some pq' \<and> cs * DMA_BLOCKSIZE \<le> length pq' \<and> Q pq'"
  shows "\<exists>dp' pq' m'. rs_round e l cs (int (h + cs)) a (Some off) blocks (dp, pq, m) = Some (dp', pq', m') \<and>
    uploaded m ps h off dp dp' \<and> cs * DMA_BLOCKSIZE \<le> length pq' \<and> Q pq' \<and> only_checks a ps h bytes m m' \<and>
    (\<forall>k < cs. buf m' (ps ! (h + k)) = overwrite (buf m (ps ! (h + k))) off (chunk pq' k))"
proof -
  have h: "h \<le> length ps" using len by simp
  obtain dp' where up: "rs_upload m a (Some off) [0..<h] dp = Some dp'" "uploaded m ps h off dp dp'"
    using rs_upload_ok [OF st h off dp] by blast
  obtain pq' where l: "rs_launch e l cs (int (h + cs)) blocks dp' pq = Some pq'" "cs * DMA_BLOCKSIZE \<le> length pq'" "Q pq'"
    using launch [OF up(2)] by blast
  obtain m' where "rs_download pq' a (int h) (Some off) [0..<cs] m = Some m'" "only_checks a ps h bytes m m'"
    "\<forall>k < cs. buf m' (ps ! (h + k)) = overwrite (buf m (ps ! (h + k))) off (chunk pq' k)"
    using rs_download_ok [OF st len off(1) l(2), of 0] by auto
  then show ?thesis using up l by (auto simp: rs_round_def)
qed

section \<open>Requests\<close>

text \<open>What a launch on block \<open>j\<close> of the stripe promises of the bytes it computes: \<open>P j R\<close>, where \<open>R k x\<close> is byte \<open>x\<close> of check
  disk \<open>k\<close>; \<open>T\<close> is what the device buffer contains behind the data disks.\<close>

definition launches_give :: "rs_gpu \<Rightarrow> nat \<Rightarrow> nat \<Rightarrow> ptr list \<Rightarrow> mem \<Rightarrow> (nat \<Rightarrow> u8) \<Rightarrow> (nat \<Rightarrow> (nat \<Rightarrow> nat \<Rightarrow> u8) \<Rightarrow> bool) \<Rightarrow> bool" where
  "launches_give e cs h ps m T P \<longleftrightarrow>
     (\<forall>l j dp pq. Suc h * DMA_BLOCKSIZE \<le> length dp \<and> cs * DMA_BLOCKSIZE \<le> length pq \<and>
        (\<forall>x < DMA_BLOCKSIZE. dcol dp h x = column m ps h (j * DMA_BLOCKSIZE + x) \<and> dp ! (h * DMA_BLOCKSIZE + x) = T x) \<longrightarrow>
      (\<exists>pq'. rs_launch e l cs (int (h + cs)) (DMA_BLOCKSIZE div (THREAD_BLOCKSIZE * 8)) dp pq = Some pq' \<and> cs * DMA_BLOCKSIZE \<le> length pq' \<and>
        P j (\<lambda>k x. pq' ! (k * DMA_BLOCKSIZE + x))))"

text \<open>A promise only concerns the bytes of the block.\<close>

definition bytewise :: "nat \<Rightarrow> (nat \<Rightarrow> (nat \<Rightarrow> nat \<Rightarrow> u8) \<Rightarrow> bool) \<Rightarrow> bool" where
  "bytewise cs P \<longleftrightarrow> (\<forall>j R R'. (\<forall>k < cs. \<forall>x < DMA_BLOCKSIZE. R k x = R' k x) \<and> P j R \<longrightarrow> P j R')"

lemma bytewiseD: "bytewise cs P \<Longrightarrow> P j R \<Longrightarrow> (\<And>k x. k < cs \<Longrightarrow> x < DMA_BLOCKSIZE \<Longrightarrow> R k x = R' k x) \<Longrightarrow> P j R'"
  unfolding bytewise_def by blast

lemma rs_round_block:
  assumes st: "stripe m a ps bytes" and len: "length ps = h + cs" and on: "only_checks a ps h bytes m m'"
    and j: "Suc j * DMA_BLOCKSIZE \<le> bytes" "bytes < 2 ^ 31"
    and dp: "Suc h * DMA_BLOCKSIZE \<le> length dp" "cs * DMA_BLOCKSIZE \<le> length pq" "\<And>x. x < DMA_BLOCKSIZE \<Longrightarrow> dp ! (h * DMA_BLOCKSIZE + x) = T x"
    and P: "launches_give e cs h ps m T P" "bytewise cs P"
    and prev: "\<And>i. i < j \<Longrightarrow> P i (\<lambda>k x. buf m' (ps ! (h + k)) ! (i * DMA_BLOCKSIZE + x))"
  shows "\<exists>dp' pq' m''. rs_round e l cs (int (h + cs)) a (c_nat (j * DMA_BLOCKSIZE)) (DMA_BLOCKSIZE div (THREAD_BLOCKSIZE * 8)) (dp, pq, m') = Some (dp', pq', m'') \<and>
    length dp' = length dp \<and> cs * DMA_BLOCKSIZE \<le> length pq' \<and> (\<forall>x < DMA_BLOCKSIZE. dp' ! (h * DMA_BLOCKSIZE + x) = T x) \<and>
    only_checks a ps h bytes m m'' \<and> (\<forall>i < Suc j. P i (\<lambda>k x. buf m'' (ps ! (h + k)) ! (i * DMA_BLOCKSIZE + x)))"
proof -
  let ?off = "j * DMA_BLOCKSIZE"
  have off: "?off + DMA_BLOCKSIZE \<le> bytes" "?off < 2 ^ 31" using j by (simp_all add: DMA_BLOCKSIZE_def)
  have st': "stripe m' a ps bytes" using on by (simp add: only_checks_def)
  have col: "column m' ps h i = column m ps h i" for i
    using only_checks_data [OF st on] len by (intro column_cong) simp
  have launch: "\<exists>pq'. rs_launch e l cs (int (h + cs)) (DMA_BLOCKSIZE div (THREAD_BLOCKSIZE * 8)) dp' pq = Some pq' \<and> cs * DMA_BLOCKSIZE \<le> length pq' \<and>
      P j (\<lambda>k x. pq' ! (k * DMA_BLOCKSIZE + x))" if "uploaded m' ps h ?off dp dp'" for dp'
    using P(1) that dp unfolding launches_give_def uploaded_def col by simp
  obtain dp' pq' m'' where r: "rs_round e l cs (int (h + cs)) a (Some ?off) (DMA_BLOCKSIZE div (THREAD_BLOCKSIZE * 8)) (dp, pq, m') = Some (dp', pq', m'')"
    "uploaded m' ps h ?off dp dp'" "cs * DMA_BLOCKSIZE \<le> length pq'" "P j (\<lambda>k x. pq' ! (k * DMA_BLOCKSIZE + x))" "only_checks a ps h bytes m' m''"
    and b: "\<And>k. k < cs \<Longrightarrow> buf m'' (ps ! (h + k)) = overwrite (buf m' (ps ! (h + k))) ?off (chunk pq' k)"
    using rs_round_ok [OF st' len off dp(1) launch] by blast
  have at: "buf m'' (ps ! (h + k)) ! i = (if ?off \<le> i \<and> i < ?off + DMA_BLOCKSIZE then pq' ! (k * DMA_BLOCKSIZE + (i - ?off)) else buf m' (ps ! (h + k)) ! i)"
    if "k < cs" "i < bytes" for k i
  proof -
    have "i < length (buf m' (ps ! (h + k)))" "?off + DMA_BLOCKSIZE \<le> length (buf m' (ps ! (h + k)))"
      using stripe_bytes_at(2) [OF st', of "h + k"] that off len by simp_all
    moreover have "chunk pq' k ! (i - ?off) = pq' ! (k * DMA_BLOCKSIZE + (i - ?off))" if "?off \<le> i" "i < ?off + DMA_BLOCKSIZE"
      by (rule chunk_nth(2) [OF r(3) \<open>k < cs\<close>]) (use that in linarith)
    ultimately show ?thesis unfolding b [OF that(1)] using chunk_nth(1) [OF r(3) that(1)] by (simp add: nth_overwrite)
  qed
  have "P i (\<lambda>k x. buf m'' (ps ! (h + k)) ! (i * DMA_BLOCKSIZE + x))" if i: "i < Suc j" for i
  proof (cases "i = j")
    case True
    show ?thesis unfolding True by (rule bytewiseD [OF P(2) r(4)]) (use at off in simp)
  next
    case False
    then have "Suc i * DMA_BLOCKSIZE \<le> ?off" using i by (intro mult_le_mono1) simp
    then have "i * DMA_BLOCKSIZE + DMA_BLOCKSIZE \<le> ?off" by simp
    then show ?thesis using i False off by (intro bytewiseD [OF P(2) prev [of i]]) (simp_all add: at)
  qed
  moreover have "c_nat ?off = Some ?off" using off(2) by simp
  ultimately show ?thesis
    using r dp(3) only_checks_trans [OF on r(5)] by (simp add: uploaded_def)
qed

lemma rs_rounds_ok:
  assumes st: "stripe m a ps bytes" and len: "length ps = h + cs" and r: "r * DMA_BLOCKSIZE \<le> bytes" "bytes < 2 ^ 31"
    and P: "launches_give e cs h ps m T P" "bytewise cs P"
    and j: "j \<le> r" and on: "only_checks a ps h bytes m m'"
    and dp: "Suc h * DMA_BLOCKSIZE \<le> length dp" "cs * DMA_BLOCKSIZE \<le> length pq" "\<forall>x < DMA_BLOCKSIZE. dp ! (h * DMA_BLOCKSIZE + x) = T x"
    and prev: "\<forall>i < j. P i (\<lambda>k x. buf m' (ps ! (h + k)) ! (i * DMA_BLOCKSIZE + x))"
  shows "\<exists>dp' pq' m''. rs_rounds e l cs (int (h + cs)) a [j..<r] (dp, pq, m') = Some (dp', pq', m'') \<and>
    length dp' = length dp \<and> cs * DMA_BLOCKSIZE \<le> length pq' \<and> (\<forall>x < DMA_BLOCKSIZE. dp' ! (h * DMA_BLOCKSIZE + x) = T x) \<and>
    only_checks a ps h bytes m m'' \<and> (\<forall>i < r. P i (\<lambda>k x. buf m'' (ps ! (h + k)) ! (i * DMA_BLOCKSIZE + x)))"
  using j on dp prev
proof (induction "r - j" arbitrary: j m' dp pq l)
  case 0
  then show ?case by simp
next
  case (Suc d)
  then have j: "j < r" and d: "d = r - Suc j" by simp_all
  have "Suc j * DMA_BLOCKSIZE \<le> r * DMA_BLOCKSIZE" using j by (intro mult_le_mono1) simp
  then have sj: "Suc j * DMA_BLOCKSIZE \<le> bytes" using r(1) by simp
  obtain dp1 pq1 m1 where 1: "rs_round e l cs (int (h + cs)) a (c_nat (j * DMA_BLOCKSIZE)) (DMA_BLOCKSIZE div (THREAD_BLOCKSIZE * 8)) (dp, pq, m') = Some (dp1, pq1, m1)"
    "length dp1 = length dp" "cs * DMA_BLOCKSIZE \<le> length pq1" "\<forall>x < DMA_BLOCKSIZE. dp1 ! (h * DMA_BLOCKSIZE + x) = T x"
    "only_checks a ps h bytes m m1" "\<forall>i < Suc j. P i (\<lambda>k x. buf m1 (ps ! (h + k)) ! (i * DMA_BLOCKSIZE + x))"
    using rs_round_block [OF st len Suc.prems(2) sj r(2) Suc.prems(3,4) _ P, where l = l] Suc.prems(5,6) by blast
  have dp1: "Suc h * DMA_BLOCKSIZE \<le> length dp1" using 1(2) Suc.prems(3) by simp
  show ?case
    using Suc.hyps(1) [OF d Suc_leI [OF j] 1(5) dp1 1(3,4,6)] 1(1,2) j by (simp add: upt_conv_Cons)
qed

text \<open>The card between two calls: \<open>T\<close> is the content of the device buffer behind the \<open>h\<close> data disks.\<close>

definition rs_ready :: "rs_gpu \<Rightarrow> nat \<Rightarrow> nat \<Rightarrow> (nat \<Rightarrow> u8) \<Rightarrow> rs_state \<Rightarrow> bool" where
  "rs_ready e cs h T s \<longleftrightarrow>
     (if rs_mem_tag s = 0 then rs_device_ok e \<and> h < 256 \<and> cs \<le> 256 \<and> (\<forall>x < DMA_BLOCKSIZE. rs_fill e 0 (h * DMA_BLOCKSIZE + x) = T x)
      else \<exists>dp pq. DEVICE_DP s = Some dp \<and> DEVICE_CS s = Some pq \<and> Suc h * DMA_BLOCKSIZE \<le> length dp \<and>
        cs * DMA_BLOCKSIZE \<le> length pq \<and> (\<forall>x < DMA_BLOCKSIZE. dp ! (h * DMA_BLOCKSIZE + x) = T x))"

lemma rs_ready_card:
  assumes "rs_ready e cs h T s"
  obtains s' dp pq where "rs_get_card_mem e s = Inr s'" "rs_mem_tag s' \<noteq> 0" "DEVICE_DP s' = Some dp" "DEVICE_CS s' = Some pq"
    "Suc h * DMA_BLOCKSIZE \<le> length dp" "cs * DMA_BLOCKSIZE \<le> length pq" "\<forall>x < DMA_BLOCKSIZE. dp ! (h * DMA_BLOCKSIZE + x) = T x"
proof (cases "rs_mem_tag s = 0")
  case True
  then have c: "rs_device_ok e" "Suc h \<le> 256" "cs \<le> 256" "\<forall>x < DMA_BLOCKSIZE. rs_fill e 0 (h * DMA_BLOCKSIZE + x) = T x"
    using assms by (simp_all add: rs_ready_def)
  have fits: "Suc h * DMA_BLOCKSIZE \<le> DMA_BLOCKSIZE * 256" "cs * DMA_BLOCKSIZE \<le> DMA_BLOCKSIZE * 256"
    using mult_le_mono1 [OF c(2), of DMA_BLOCKSIZE] mult_le_mono1 [OF c(3), of DMA_BLOCKSIZE] by (simp_all only: mult.commute [of 256])
  have "h * DMA_BLOCKSIZE + x < DMA_BLOCKSIZE * 256" if "x < DMA_BLOCKSIZE" for x using fits(1) that unfolding mult_Suc by linarith
  then show ?thesis using that [of "s\<lparr>rs_mem_tag := 1, DEVICE_DP := Some (map (rs_fill e 0) [0..<DMA_BLOCKSIZE * 256]),
      DEVICE_CS := Some (map (rs_fill e 1) [0..<DMA_BLOCKSIZE * 256])\<rparr>"] True c fits by (simp add: rs_get_card_mem_def)
next
  case False
  then show ?thesis using that [of s] assms by (auto simp: rs_ready_def rs_get_card_mem_def)
qed

lemma rs_request:
  assumes st: "stripe m a ps bytes" and len: "length ps = h + cs" and r: "bytes = r * DMA_BLOCKSIZE" "bytes < 2 ^ 31"
    and P: "launches_give e cs h ps m T P" "bytewise cs P" and card: "rs_ready e cs h T s"
  shows "\<exists>s' m'. multi_rs_cuda_gen_syndrome e cs (int (length ps)) bytes a (s, m) = Some (Inr (s', m')) \<and> rs_ready e cs h T s' \<and>
    only_checks a ps h bytes m m' \<and> (\<forall>i < r. P i (\<lambda>k x. buf m' (ps ! (h + k)) ! (i * DMA_BLOCKSIZE + x)))"
proof -
  obtain s1 dp pq where c: "rs_get_card_mem e s = Inr s1" "rs_mem_tag s1 \<noteq> 0" "DEVICE_DP s1 = Some dp" "DEVICE_CS s1 = Some pq"
    and dp: "Suc h * DMA_BLOCKSIZE \<le> length dp" "cs * DMA_BLOCKSIZE \<le> length pq" "\<forall>x < DMA_BLOCKSIZE. dp ! (h * DMA_BLOCKSIZE + x) = T x"
    using rs_ready_card [OF card] by metis
  have runs: "bytes div DMA_BLOCKSIZE = r" "bytes - r * DMA_BLOCKSIZE = 0" using r(1) by (simp_all add: DMA_BLOCKSIZE_def)
  have on: "only_checks a ps h bytes m m" using st by (simp add: only_checks_def)
  obtain dp' pq' m' where "rs_rounds e (rs_launches s1) cs (int (h + cs)) a [0..<r] (dp, pq, m) = Some (dp', pq', m')"
    "length dp' = length dp" "cs * DMA_BLOCKSIZE \<le> length pq'" "\<forall>x < DMA_BLOCKSIZE. dp' ! (h * DMA_BLOCKSIZE + x) = T x"
    "only_checks a ps h bytes m m'" "\<forall>i < r. P i (\<lambda>k x. buf m' (ps ! (h + k)) ! (i * DMA_BLOCKSIZE + x))"
    using rs_rounds_ok [OF st len _ r(2) P _ on dp, where r = r and j = 0 and l = "rs_launches s1"] r(1) by auto
  then show ?thesis
    using c dp(1) unfolding multi_rs_cuda_gen_syndrome_def len runs Let_def by (simp add: runs rs_ready_def)
qed

section \<open>The three orders\<close>

lemma full_grid:
  assumes "Suc h * DMA_BLOCKSIZE \<le> length dp" "cs * DMA_BLOCKSIZE \<le> length pq" "n \<le> 256"
  shows "grid_fits cs h dp (rs_start n S pq)"
  using assms by (simp add: grid_fits_def THREAD_BLOCKSIZE_def DMA_BLOCKSIZE_def)

lemma full_grid_size: "DMA_BLOCKSIZE div (THREAD_BLOCKSIZE * 8) = 256" "256 * (THREAD_BLOCKSIZE * 8) = DMA_BLOCKSIZE"
  by (simp_all add: THREAD_BLOCKSIZE_def DMA_BLOCKSIZE_def)

definition gpu_order :: "policy \<Rightarrow> rs_gpu \<Rightarrow> bool" where
  "gpu_order allow e \<longleftrightarrow> (\<forall>l. shared_ok (rs_shared_mem e l) \<and> schedules allow (rs_pick e l))"

lemma any_launch:
  assumes "gpu_order any_order e" "Suc h * DMA_BLOCKSIZE \<le> length dp" "cs * DMA_BLOCKSIZE \<le> length pq" "n \<le> 256"
  shows "\<exists>pq'. rs_launch e l cs (int (h + cs)) n dp pq = Some pq' \<and> cs * DMA_BLOCKSIZE \<le> length pq'"
proof -
  have ok: "rs_ok cs h dp (rs_start n (rs_shared_mem e l) pq)" using rs_start_rs_ok full_grid assms by (simp add: gpu_order_def)
  have "schedules any_order (rs_pick e l)" using assms(1) by (simp add: gpu_order_def)
  then obtain g where "rs_run (rs_fuel cs h n) (rs_pick e l) cs (int (h + cs)) dp (rs_start n (rs_shared_mem e l) pq) = Some g" "rs_ok cs h dp g"
    using free.run_ends [OF _ ok] rs_start_work by (metis le_refl)
  then show ?thesis by (auto simp: rs_launch_def rs_ok_def grid_fits_def)
qed

lemma any_gives: "gpu_order any_order e \<Longrightarrow> launches_give e cs h ps m T (\<lambda>j R. True)"
  unfolding launches_give_def full_grid_size using any_launch by blast

definition solo_promise :: "nat \<Rightarrow> nat \<Rightarrow> ptr list \<Rightarrow> mem \<Rightarrow> nat \<Rightarrow> (nat \<Rightarrow> nat \<Rightarrow> u8) \<Rightarrow> bool" where
  "solo_promise cs h ps m j R \<longleftrightarrow> (\<forall>k < cs. \<forall>x < DMA_BLOCKSIZE. \<forall>v. rs_check_byte k (column m ps h (j * DMA_BLOCKSIZE + x)) = Some v \<longrightarrow> R k x = v)"

lemma solo_gives:
  assumes "gpu_order one_by_one e"
  shows "launches_give e cs h ps m (\<lambda>x. 0) (solo_promise cs h ps m)" "bytewise cs (solo_promise cs h ps m)"
proof -
  show "launches_give e cs h ps m (\<lambda>x. 0) (solo_promise cs h ps m)"
    unfolding launches_give_def full_grid_size
  proof (intro allI impI, elim conjE)
    fix l j and dp pq :: "u8 list"
    assume a: "Suc h * DMA_BLOCKSIZE \<le> length dp" "cs * DMA_BLOCKSIZE \<le> length pq"
      and data: "\<forall>x < DMA_BLOCKSIZE. dcol dp h x = column m ps h (j * DMA_BLOCKSIZE + x) \<and> dp ! (h * DMA_BLOCKSIZE + x) = 0"
    have o: "shared_ok (rs_shared_mem e l)" "schedules one_by_one (rs_pick e l)" using assms by (simp_all add: gpu_order_def)
    have "grid_fits cs h dp (rs_start 256 (rs_shared_mem e l) pq)" by (rule full_grid [OF a]) simp
    from solo_launch [OF this o] show "\<exists>pq'. rs_launch e l cs (int (h + cs)) 256 dp pq = Some pq' \<and>
        cs * DMA_BLOCKSIZE \<le> length pq' \<and> solo_promise cs h ps m j (\<lambda>k x. pq' ! (k * DMA_BLOCKSIZE + x))"
      unfolding full_grid_size rs_launch_def solo_promise_def using data by force
  qed
  show "bytewise cs (solo_promise cs h ps m)" by (auto simp: bytewise_def solo_promise_def)
qed

definition step_promise :: "nat \<Rightarrow> nat \<Rightarrow> (nat \<Rightarrow> nat \<Rightarrow> u8) \<Rightarrow> bool" where
  "step_promise cs j R \<longleftrightarrow> (\<forall>bx < 256. \<exists>w. \<forall>tx < THREAD_BLOCKSIZE. \<forall>k < cs. \<forall>l < 8. tx \<noteq> w \<longrightarrow> R k ((bx * THREAD_BLOCKSIZE + tx) * 8 + l) = 0)"

lemma step_gives:
  assumes "gpu_order in_step e" "1 \<le> cs"
  shows "launches_give e cs h ps m T (step_promise cs)" "bytewise cs (step_promise cs)"
proof -
  show "launches_give e cs h ps m T (step_promise cs)"
    unfolding launches_give_def full_grid_size
  proof (intro allI impI, elim conjE)
    fix l j and dp pq :: "u8 list"
    assume a: "Suc h * DMA_BLOCKSIZE \<le> length dp" "cs * DMA_BLOCKSIZE \<le> length pq"
    have o: "shared_ok (rs_shared_mem e l)" "schedules in_step (rs_pick e l)" using assms(1) by (simp_all add: gpu_order_def)
    have "grid_fits cs h dp (rs_start 256 (rs_shared_mem e l) pq)" by (rule full_grid [OF a]) simp
    from step_launch [OF this o(1) assms(2) o(2)] show "\<exists>pq'. rs_launch e l cs (int (h + cs)) 256 dp pq = Some pq' \<and>
        cs * DMA_BLOCKSIZE \<le> length pq' \<and> step_promise cs j (\<lambda>k x. pq' ! (k * DMA_BLOCKSIZE + x))"
      unfolding rs_launch_def step_promise_def by auto
  qed
  have "(bx * THREAD_BLOCKSIZE + tx) * 8 + l < DMA_BLOCKSIZE" if "bx < 256" "tx < THREAD_BLOCKSIZE" "l < 8" for bx tx l
    using that by (simp add: THREAD_BLOCKSIZE_def DMA_BLOCKSIZE_def)
  then show "bytewise cs (step_promise cs)" unfolding bytewise_def step_promise_def by metis
qed

text \<open>A request of at least one block: the rest behind the whole blocks is copied as another whole block, from offset
  \<open>runs * carry\<close>, which is inside the buffers.\<close>

lemma carry_inside:
  assumes "DMA_BLOCKSIZE \<le> bytes" "r = bytes div DMA_BLOCKSIZE" "c = bytes - r * DMA_BLOCKSIZE"
  shows "r * c + DMA_BLOCKSIZE \<le> bytes" "c < DMA_BLOCKSIZE" "r * DMA_BLOCKSIZE \<le> bytes"
proof -
  have D: "0 < DMA_BLOCKSIZE" by (simp add: DMA_BLOCKSIZE_def)
  show rb: "r * DMA_BLOCKSIZE \<le> bytes" using assms(2) by simp
  show c: "c < DMA_BLOCKSIZE" using assms(2,3) D by (simp add: minus_div_mult_eq_mod)
  have "0 < r" using assms(1,2) D by (simp add: div_greater_zero_iff)
  then obtain r' where r: "r = Suc r'" by (cases r) auto
  have "r' * c \<le> r' * DMA_BLOCKSIZE" using c by simp
  then show "r * c + DMA_BLOCKSIZE \<le> bytes" using rb assms(3) unfolding r mult_Suc by linarith
qed

lemma rs_request_safe:
  assumes e: "gpu_order any_order e" and card: "rs_ready e cs h T s" and st: "stripe m a ps bytes" and len: "length ps = h + cs"
    and b: "DMA_BLOCKSIZE \<le> bytes" "bytes < 2 ^ 31"
  shows "\<exists>s' m'. multi_rs_cuda_gen_syndrome e cs (int (length ps)) bytes a (s, m) = Some (Inr (s', m')) \<and> rs_ready e cs h T s' \<and>
    only_checks a ps h bytes m m'"
proof -
  define r c where rc: "r = bytes div DMA_BLOCKSIZE" "c = bytes - r * DMA_BLOCKSIZE"
  note off = carry_inside [OF b(1) rc]
  obtain s1 dp pq where s1: "rs_get_card_mem e s = Inr s1" "rs_mem_tag s1 \<noteq> 0" "DEVICE_DP s1 = Some dp" "DEVICE_CS s1 = Some pq"
    and dp: "Suc h * DMA_BLOCKSIZE \<le> length dp" "cs * DMA_BLOCKSIZE \<le> length pq" "\<forall>x < DMA_BLOCKSIZE. dp ! (h * DMA_BLOCKSIZE + x) = T x"
    using rs_ready_card [OF card] by metis
  have on: "only_checks a ps h bytes m m" using st by (simp add: only_checks_def)
  have any: "bytewise cs (\<lambda>j R. True)" by (simp add: bytewise_def)
  obtain dp1 pq1 m1 where 1: "rs_rounds e (rs_launches s1) cs (int (h + cs)) a [0..<r] (dp, pq, m) = Some (dp1, pq1, m1)"
    "length dp1 = length dp" "cs * DMA_BLOCKSIZE \<le> length pq1" "\<forall>x < DMA_BLOCKSIZE. dp1 ! (h * DMA_BLOCKSIZE + x) = T x"
    "only_checks a ps h bytes m m1"
    using rs_rounds_ok [OF st len off(3) b(2) any_gives [OF e] any _ on dp, where j = 0 and l = "rs_launches s1"] by auto
  note call = multi_rs_cuda_gen_syndrome_def len Let_def rc(1) [symmetric] rc(2) [symmetric]
  show ?thesis
  proof (cases "0 < c")
    case False
    then show ?thesis using s1 dp(1) 1 unfolding call by (simp add: rs_ready_def)
  next
    case True
    have st1: "stripe m1 a ps bytes" using 1(5) by (simp add: only_checks_def)
    have n: "c div (THREAD_BLOCKSIZE * 8) \<le> 256" using off(2) by (simp add: THREAD_BLOCKSIZE_def DMA_BLOCKSIZE_def)
    have small: "r * c < 2 ^ 31" using off(1) b(2) by linarith
    have dp1: "Suc h * DMA_BLOCKSIZE \<le> length dp1" using dp(1) 1(2) by simp
    have launch: "\<exists>pq'. rs_launch e (rs_launches s1 + r) cs (int (h + cs)) (c div (THREAD_BLOCKSIZE * 8)) dp' pq1 = Some pq' \<and>
        cs * DMA_BLOCKSIZE \<le> length pq' \<and> True" if "uploaded m1 ps h (r * c) dp1 dp'" for dp'
      using any_launch [OF e _ 1(3) n, of h dp'] that dp1 by (simp add: uploaded_def)
    obtain dp2 pq2 m2 where "rs_round e (rs_launches s1 + r) cs (int (h + cs)) a (Some (r * c)) (c div (THREAD_BLOCKSIZE * 8)) (dp1, pq1, m1) = Some (dp2, pq2, m2)"
      "uploaded m1 ps h (r * c) dp1 dp2" "cs * DMA_BLOCKSIZE \<le> length pq2" "only_checks a ps h bytes m1 m2"
      using rs_round_ok [OF st1 len off(1) small dp1 launch] by blast
    then show ?thesis
      using s1 dp1 1 True only_checks_trans [OF 1(5)] unfolding call by (simp add: rs_ready_def uploaded_def)
  qed
qed

section \<open>Properties\<close>


definition sample_rs_gpu :: "policy \<Rightarrow> rs_gpu" where
  "sample_rs_gpu allow = \<lparr>rs_device_ok = True, rs_fill = \<lambda>k i. 0, rs_shared_mem = \<lambda>l bx. sample_shared, rs_pick = \<lambda>l. first_thread allow\<rparr>"

definition rs_power_on :: rs_state where
  "rs_power_on = \<lparr>rs_mem_tag = 0, DEVICE_DP = None, DEVICE_CS = None, rs_launches = 0\<rparr>"

definition sample_block :: mem where
  "sample_block = [1 \<mapsto> Ptrs [2, 3, 4, 5, 6, 7], 2 \<mapsto> Bytes (replicate DMA_BLOCKSIZE 1), 3 \<mapsto> Bytes (replicate DMA_BLOCKSIZE 7),
     4 \<mapsto> Bytes (replicate DMA_BLOCKSIZE 9), 5 \<mapsto> Bytes (replicate DMA_BLOCKSIZE 9), 6 \<mapsto> Bytes (replicate DMA_BLOCKSIZE 9),
     7 \<mapsto> Bytes (replicate DMA_BLOCKSIZE 9)]"

lemma sample_rs_gpu_order: "gpu_order allow (sample_rs_gpu allow)"
  using sample_shared_ok schedules_first by (simp add: gpu_order_def sample_rs_gpu_def)

lemma rs_power_on_ready: "h < 256 \<Longrightarrow> cs \<le> 256 \<Longrightarrow> rs_ready (sample_rs_gpu allow) cs h (\<lambda>x. 0) rs_power_on"
  by (simp add: rs_ready_def sample_rs_gpu_def rs_power_on_def)

lemma sample_block_facts:
  "stripe sample_block 1 [2, 3, 4, 5, 6, 7] DMA_BLOCKSIZE" "DMA_BLOCKSIZE = 1 * DMA_BLOCKSIZE" "DMA_BLOCKSIZE < 2 ^ 31"
  "i < DMA_BLOCKSIZE \<Longrightarrow> rs_defined sample_block [2, 3, 4, 5, 6, 7] 2 i"
proof -
  show "stripe sample_block 1 [2, 3, 4, 5, 6, 7] DMA_BLOCKSIZE"
    by (simp add: stripe_def sample_block_def ptrs_at_def bytes_at_def obj_at_def)
  show "DMA_BLOCKSIZE = 1 * DMA_BLOCKSIZE" "DMA_BLOCKSIZE < 2 ^ 31" by (simp_all add: DMA_BLOCKSIZE_def)
  assume "i < DMA_BLOCKSIZE"
  then have col: "column sample_block [2, 3, 4, 5, 6, 7] 2 i = [1, 7]"
    by (simp add: column_def upt_rec sample_block_def buf_def bytes_at_def obj_at_def)
  have "list_all (\<lambda>y. exact_row y y [1, 7]) [1, 2, 3, 4]" by code_simp
  then show "rs_defined sample_block [2, 3, 4, 5, 6, 7] 2 i" using exact_rows_defined [of sample_block "[2, 3, 4, 5, 6, 7]" 2 i] col by simp
qed






text \<open>A request of less than one block, such as the pages of the Linux RAID driver, is not served: the GPU version copies a whole
  block and reads past the end of the first data disk.\<close>

theorem multi_rs_gpu_small_request:
  assumes "rs_ready e 4 h T s" "stripe m a ps bytes" "length ps = h + 4" "1 \<le> h" "0 < bytes" "length (buf m (ps ! 0)) < DMA_BLOCKSIZE"
  shows "multi_rs_gen_syndrome_cuda e (int (length ps)) bytes a (s, m) = None"
proof -
  obtain s1 dp pq where s1: "rs_get_card_mem e s = Inr s1" "DEVICE_DP s1 = Some dp" "DEVICE_CS s1 = Some pq"
    using rs_ready_card [OF assms(1)] by metis
  have p0: "0 < length ps" using assms(3) by simp
  have "bytes < DMA_BLOCKSIZE" using stripe_bytes_at(2) [OF assms(2) p0] assms(6) by simp
  then have runs: "bytes div DMA_BLOCKSIZE = 0" by simp
  have "rs_upload m a (Some 0) [0..<h] dp = None"
    using stripe_ptr_index [OF assms(2), of 0] stripe_bytes_at(1) [OF assms(2) p0] assms(4,6) p0
    by (simp add: upt_conv_Cons h2d_def read_bytes_def)
  then have "rs_round e l 4 (int (length ps)) a (Some 0) n (dp, pq, m) = None" for l n using assms(3) by (simp add: rs_round_def)
  then show ?thesis
    using s1 assms(5) unfolding multi_rs_gen_syndrome_cuda_def CHECK_SYMBOLS_def multi_rs_cuda_gen_syndrome_def Let_def runs by simp
qed

theorem multi_rs_gpu_small_request_witness:
  "multi_rs_gen_syndrome_cuda (sample_rs_gpu any_order) 6 2 1 (rs_power_on, sample_rs) = None"
proof -
  let ?ps = "[2, 3, 4, 5, 6, 7] :: ptr list"
  have pre: "rs_ready (sample_rs_gpu any_order) 4 2 (\<lambda>x. 0) rs_power_on" using rs_power_on_ready by simp
  have "length (buf sample_rs (?ps ! 0)) < DMA_BLOCKSIZE" by (simp add: sample_rs_def buf_def bytes_at_def obj_at_def DMA_BLOCKSIZE_def)
  then show ?thesis using multi_rs_gpu_small_request [OF pre sample_rs_stripe] by simp
qed

end
