(* ===== verification/Proto_Rs.thy ===== *)
theory Proto_Rs
  imports Cuda_MultRS
begin

unbundle bit_operations_syntax

text \<open>
  The prototype \<open>multi_rs_cuda/rs_encoder.cu\<close> of the multi-failure encoder: the generator \<open>setup_tables\<close> of the
  logarithm tables, the encoder for the CPU and for the card with three check disks, and the
  program, which runs each of the two for two seconds on an example stripe.

  The encoders are the code of \<open>multrs/raid6multrs.cu\<close> with another \<open>CHECK_SYMBOLS\<close>, so their loops, kernel and copies
  are those of \<open>MultRS\<close>, \<open>Rs_Kernel\<close> and \<open>Cuda_MultRS\<close>. The clock is read in microseconds and the sum of the intervals is
  exact; the program adds them up in floating point. A printed figure is the pair of its
  operands.
\<close>

definition DISKS :: nat where
  "DISKS = 9"

definition PROTO_CHECK_SYMBOLS :: nat where
  "PROTO_CHECK_SYMBOLS = 3"

definition BYTES :: nat where
  "BYTES = 524288"

section \<open>The generator of the tables\<close>

text \<open>\<open>malloc\<close> hands out the two arrays of 256 entries with some content.\<close>

definition x_to_w :: u32 where
  "x_to_w = push_bit 8 1"

definition prim_poly :: u32 where
  "prim_poly = 0x11d"

definition store16 :: "u16 list \<Rightarrow> u32 \<Rightarrow> u16 \<Rightarrow> u16 list option" where
  "store16 t i v = (if unat i < length t then Some (t[unat i := v]) else None)"

fun setup_loop :: "u32 list \<Rightarrow> u32 \<Rightarrow> u16 list \<times> u16 list \<Rightarrow> (u16 list \<times> u16 list) option" where
  "setup_loop [] b (gflog2, gfilog2) = Some (gflog2, gfilog2)"
| "setup_loop (l # ls) b (gflog2, gfilog2) = do {
     gflog2 \<leftarrow> store16 gflog2 b (ucast l);
     gfilog2 \<leftarrow> store16 gfilog2 l (ucast b);
     let b = push_bit 1 b;
     let b = (if b AND x_to_w \<noteq> 0 then b XOR prim_poly else b);
     setup_loop ls b (gflog2, gfilog2) }"

text \<open>What is printed: headings, and the formats \<open>"%u, "\<close>, \<open>"k_gflog[%d] = %u;"\<close> and \<open>"k_gfilog[%d] = %u;"\<close>.\<close>

datatype printed = Heading string | Plain nat | K_gflog nat nat | K_gfilog nat nat

definition setup_tables :: "u16 list \<Rightarrow> u16 list \<Rightarrow> (int \<times> printed list) option" where
  "setup_tables gflog2 gfilog2 = do {
     (gflog2, gfilog2) \<leftarrow> setup_loop (map of_nat [0..<unat (x_to_w - 1)]) 1 (gflog2, gfilog2);
     let ls = [0..<unat (x_to_w - 1)];
     Some (0, [Heading ''gflog[] :''] @ map (\<lambda>l. Plain (unat (gflog2 ! l))) ls @
       [Heading ''gflog[] :''] @ map (\<lambda>l. K_gflog l (unat (gflog2 ! l))) ls @
       [Heading ''gfilog[] :''] @ map (\<lambda>l. Plain (unat (gfilog2 ! l))) ls @
       [Heading ''gflog[] :''] @ map (\<lambda>l. K_gfilog l (unat (gfilog2 ! l))) ls) }"

section \<open>The encoders\<close>

definition proto_soft_gen_syndrome :: "int \<Rightarrow> nat \<Rightarrow> ptr \<Rightarrow> mem \<Rightarrow> mem option" where
  "proto_soft_gen_syndrome disks bytes ptrs m = do {
     high_disk \<leftarrow> c_int (disks - int PROTO_CHECK_SYMBOLS);
     mrs_bytes ptrs high_disk disks bytes 0 m }"

definition proto_rs_kernel :: "int \<Rightarrow> u8 list \<Rightarrow> nat \<Rightarrow> nat \<Rightarrow> rs_grid \<Rightarrow> rs_grid option" where
  "proto_rs_kernel disks DP bx tx g = rs_kernel PROTO_CHECK_SYMBOLS disks DP bx tx g"

definition proto_cuda_gen_syndrome :: "rs_gpu \<Rightarrow> int \<Rightarrow> nat \<Rightarrow> ptr \<Rightarrow> rs_state \<times> mem \<Rightarrow> (int + rs_state \<times> mem) option" where
  "proto_cuda_gen_syndrome e disks bytes ptrs = multi_rs_cuda_gen_syndrome e PROTO_CHECK_SYMBOLS disks bytes ptrs"

section \<open>The program\<close>

text \<open>A timed loop: readings \<open>k\<close> and \<open>k + 1\<close> of the clock around each call, until two seconds have been spent in
  it; \<^term>\<open>Inl\<close> is the call of \<open>exit\<close>. The result has the number of calls and the time.\<close>

fun timed_loop :: "nat \<Rightarrow> ('s \<Rightarrow> (int + 's) option) \<Rightarrow> (nat \<Rightarrow> int) \<Rightarrow> nat \<Rightarrow> int \<Rightarrow> int \<Rightarrow> 's \<Rightarrow> (int + int \<times> int \<times> nat \<times> 's) option" where
  "timed_loop n f clock k timer j s =
     (if timer < 2000000 then
        case n of 0 \<Rightarrow> None
        | Suc n' \<Rightarrow> (case f s of None \<Rightarrow> None | Some (Inl r) \<Rightarrow> Some (Inl r)
          | Some (Inr s') \<Rightarrow> timed_loop n' f clock (k + 2) (timer + (clock (Suc k) - clock k)) (j + 1) s')
      else Some (Inr (j, timer, k, s)))"

declare timed_loop.simps [simp del]

fun fill_example :: "ptr \<Rightarrow> nat list \<Rightarrow> mem \<Rightarrow> mem option" where
  "fill_example dptrs [] m = Some m"
| "fill_example dptrs (i # is) m = do {
     p \<leftarrow> ptr_index m dptrs (int i);
     m \<leftarrow> c_memset m p (of_nat i) BYTES;
     fill_example dptrs is m }"

text \<open>The operands of the figure printed for loop \<open>n\<close>; \<open>BYTES*j\<close> is an \<open>int\<close>.\<close>

definition figure :: "int \<Rightarrow> int \<Rightarrow> int \<Rightarrow> (int \<times> int \<times> int) option" where
  "figure n j timer = do { x \<leftarrow> c_int (int BYTES * j); Some (n, x, timer) }"

text \<open>Without \<open>GEN\<close>. The loops that allocate and free the disks are those of the example stripes of the
  daemon. \<open>fuel\<close> bounds the calls of each timed loop.\<close>

definition rs_encoder_main :: "nat \<Rightarrow> alloc \<Rightarrow> rs_gpu \<Rightarrow> (nat \<Rightarrow> int) \<Rightarrow> rs_state \<Rightarrow> heap \<Rightarrow>
    (int \<times> (int \<times> int \<times> int) list \<times> rs_state \<times> heap) option" where
  "rs_encoder_main fuel al e clock s h = do {
     (dptrs, h) \<leftarrow> allocate_host_example_dpointer al (int BYTES) (int DISKS) h;
     m \<leftarrow> fill_example dptrs [0..<DISKS] (h_mem h);
     r \<leftarrow> timed_loop fuel (\<lambda>m. map_option Inr (proto_soft_gen_syndrome (int DISKS) BYTES dptrs m)) clock 0 0 0 m;
     case r of Inl code \<Rightarrow> Some (code, [], s, h)
     | Inr (j, timer, k, m) \<Rightarrow> do {
         out \<leftarrow> figure 1 j timer;
         r \<leftarrow> timed_loop fuel (proto_cuda_gen_syndrome e (int DISKS) BYTES dptrs) clock k 0 0 (s, m);
         case r of Inl code \<Rightarrow> Some (code, [out], s, h)
         | Inr (j, timer, k, s, m) \<Rightarrow> do {
             out' \<leftarrow> figure 2 j timer;
             m \<leftarrow> deallocate_host_example_dpointer (int DISKS) dptrs m;
             Some (0, [out, out'], s, h\<lparr>h_mem := m\<rparr>) } } }"

section \<open>The tables\<close>

lemma double_u32:
  fixes a :: u8
  defines "b \<equiv> push_bit 1 (ucast a :: u32)"
  shows "(if b AND x_to_w \<noteq> 0 then b XOR prim_poly else b) = ucast (gf_double a)"
proof -
  have "list_all (\<lambda>n. let a = of_nat n :: u8; b = push_bit 1 (ucast a :: u32) in
      (if b AND x_to_w \<noteq> 0 then b XOR prim_poly else b) = ucast (gf_double a)) [0..<256]" by code_simp
  moreover have "unat a \<in> set [0..<256]" using unat_u8_less [of a] by simp
  ultimately have "let a = of_nat (unat a) :: u8; b = push_bit 1 (ucast a :: u32) in
      (if b AND x_to_w \<noteq> 0 then b XOR prim_poly else b) = ucast (gf_double a)" unfolding list_all_iff by blast
  then show ?thesis by (auto simp: Let_def b_def split: if_splits)
qed

lemma unat_gf_exp: "unat (gf_exp i) < 256" "unat (gf_exp i) \<noteq> 0"
  using unat_u8_less by (simp_all add: unat_eq_0)

lemma unat_ucast_u8: "unat (ucast (a :: u8) :: u16) = unat a" "unat (ucast (a :: u8) :: u32) = unat a"
  using unat_u8_less [of a] by (simp_all add: unsigned_ucast_eq take_bit_nat_eq_self)

lemma ucast_narrow: "(ucast (ucast (a :: u8) :: u32) :: u16) = ucast a" "(ucast (of_nat i :: u32) :: u16) = of_nat i"
  by (rule bit_word_eqI; auto simp: bit_simps dest: bit_imp_le_length)+

lemma setup_loop_from:
  assumes "i \<le> 255" "length g = 256" "length f = 256"
  shows "\<exists>g' f'. setup_loop (map of_nat [i..<255]) (ucast (gf_exp i)) (g, f) = Some (g', f') \<and>
    (\<forall>j. i \<le> j \<and> j < 255 \<longrightarrow> g' ! unat (gf_exp j) = of_nat j \<and> f' ! j = ucast (gf_exp j)) \<and>
    (\<forall>a. (\<forall>j. i \<le> j \<and> j < 255 \<longrightarrow> a \<noteq> unat (gf_exp j)) \<longrightarrow> g' ! a = g ! a) \<and> (\<forall>j < i. f' ! j = f ! j)"
  using assms
proof (induction "255 - i" arbitrary: i g f)
  case 0
  then have "i = 255" by simp
  then show ?case by auto
next
  case (Suc d)
  then have i: "i < 255" and d: "d = 255 - Suc i" by simp_all
  let ?a = "unat (gf_exp i)"
  let ?g = "g[?a := of_nat i]" and ?f = "f[i := ucast (gf_exp i)]"
  have u: "unat (ucast (gf_exp i) :: u32) = ?a" "unat (of_nat i :: u32) = i" "(ucast (of_nat i :: u32) :: u16) = of_nat i"
    "(ucast (ucast (gf_exp i) :: u32) :: u16) = ucast (gf_exp i)"
    using i by (simp_all add: unat_ucast_u8 ucast_narrow unsigned_of_nat take_bit_nat_eq_self)
  have step: "setup_loop (map of_nat [i..<255]) (ucast (gf_exp i)) (g, f) = setup_loop (map of_nat [Suc i..<255]) (ucast (gf_exp (Suc i))) (?g, ?f)"
    using i Suc.prems(2,3) unat_gf_exp(1) [of i] double_u32 [of "gf_exp i"]
    by (auto simp: upt_conv_Cons store16_def u Let_def split: if_splits)
  obtain g' f' where IH: "setup_loop (map of_nat [Suc i..<255]) (ucast (gf_exp (Suc i))) (?g, ?f) = Some (g', f')"
    "\<forall>j. Suc i \<le> j \<and> j < 255 \<longrightarrow> g' ! unat (gf_exp j) = of_nat j \<and> f' ! j = ucast (gf_exp j)"
    "\<forall>a. (\<forall>j. Suc i \<le> j \<and> j < 255 \<longrightarrow> a \<noteq> unat (gf_exp j)) \<longrightarrow> g' ! a = ?g ! a" "\<forall>j < Suc i. f' ! j = ?f ! j"
    using Suc.hyps(1) [OF d, of ?g ?f] Suc.prems i by auto
  have ne: "?a \<noteq> unat (gf_exp j)" if "Suc i \<le> j" "j < 255" for j
    using gf_exp_inj [of i j] that i by (auto simp: word_unat_eq_iff)
  then have now: "g' ! ?a = of_nat i" "f' ! i = ucast (gf_exp i)"
    using IH(3) IH(4) [rule_format, of i] Suc.prems(2,3) unat_gf_exp(1) [of i] i by simp_all
  have new: "g' ! unat (gf_exp j) = of_nat j \<and> f' ! j = ucast (gf_exp j)" if "i \<le> j" "j < 255" for j
    using now IH(2) [rule_format, of j] that by (cases "j = i") simp_all
  have keep: "g' ! a = g ! a" if "\<forall>j. i \<le> j \<and> j < 255 \<longrightarrow> a \<noteq> unat (gf_exp j)" for a
  proof -
    have "a \<noteq> ?a" using that i by blast
    then show ?thesis using IH(3) [rule_format, of a] that by simp
  qed
  have fold: "f' ! j = f ! j" if "j < i" for j using IH(4) [rule_format, of j] that by simp
  show ?case
  proof (rule exI [of _ g'], rule exI [of _ f'], intro conjI)
    show "setup_loop (map of_nat [i..<255]) (ucast (gf_exp i)) (g, f) = Some (g', f')" unfolding step by (rule IH(1))
    show "\<forall>j. i \<le> j \<and> j < 255 \<longrightarrow> g' ! unat (gf_exp j) = of_nat j \<and> f' ! j = ucast (gf_exp j)"
      by (intro allI impI, elim conjE, rule new)
    show "\<forall>a. (\<forall>j. i \<le> j \<and> j < 255 \<longrightarrow> a \<noteq> unat (gf_exp j)) \<longrightarrow> g' ! a = g ! a"
      by (intro allI impI, rule keep)
    show "\<forall>j < i. f' ! j = f ! j" by (intro allI impI, rule fold)
  qed
qed

lemma setup_loop_tables:
  assumes "length g = 256" "length f = 256"
  shows "\<exists>g' f'. setup_loop (map of_nat [0..<255]) 1 (g, f) = Some (g', f') \<and> f' ! 0 = 1 \<and> g' ! 255 = 175 \<and>
    map (\<lambda>l. unat (f' ! l)) [0..<255] = map unat gfilog \<and> map (\<lambda>l. unat (g' ! l)) [0..<255] = unat (g ! 0) # map unat (tl gflog)"
proof -
  obtain g' f' where r: "setup_loop (map of_nat [0..<255]) (ucast (gf_exp 0)) (g, f) = Some (g', f')"
    and v: "\<And>j. j < 255 \<Longrightarrow> g' ! unat (gf_exp j) = of_nat j \<and> f' ! j = ucast (gf_exp j)"
    and old: "\<forall>a. (\<forall>j. 0 \<le> j \<and> j < 255 \<longrightarrow> a \<noteq> unat (gf_exp j)) \<longrightarrow> g' ! a = g ! a"
    using setup_loop_from [of 0 g f] assms by auto
  have f: "unat (f' ! l) = unat (gfilog ! l)" if "l < 255" for l
    using v [OF that] gfilog_exp [OF that] by (simp add: unat_ucast_u8)
  have "gf_exp 175 = gfilog ! 175" by (rule gfilog_exp [symmetric]) simp
  also have "\<dots> = 255" by (simp add: gfilog_def)
  finally have "g' ! 255 = 175" using v [of 175] by simp
  moreover have "g' ! 0 = g ! 0" using old unat_gf_exp(2) by (metis gr0I less_irrefl)
  moreover have "unat (g' ! l) = unat (gflog ! l)" if l: "0 < l" "l < 255" for l
  proof -
    define a :: u8 where "a = of_nat l"
    have a: "unat a = l" "a \<noteq> 0" "a \<noteq> 255" using l by (auto simp: a_def unsigned_of_nat take_bit_nat_eq_self word_unat_eq_iff)
    note e = gflog_exp [OF a(2,3)]
    have "g' ! l = of_nat (unat (gflog ! l))" using v [OF e(2)] e(1) a(1) by simp
    then show ?thesis by (simp add: unat_ucast_u8)
  qed
  then have "map (\<lambda>l. unat (g' ! l)) [1..<255] = map unat (tl gflog)"
    by (intro nth_equalityI) (simp_all add: nth_tl)
  moreover have "[0..<255] = 0 # [1..<255 :: nat]" by (simp add: upt_conv_Cons del: upt_Suc)
  moreover have "map (\<lambda>l. unat (f' ! l)) [0..<255] = map unat gfilog" using f by (intro nth_equalityI) simp_all
  moreover have "f' ! 0 = 1" using v [of 0] by simp
  ultimately show ?thesis using r by auto
qed

section \<open>The program\<close>

text \<open>A timed loop ends if each call takes at least half a millisecond.\<close>

lemma timed_loop_ends:
  assumes f: "\<And>s. I s \<Longrightarrow> \<exists>s'. f s = Some (Inr s') \<and> I s'" and clock: "\<And>k. 500 \<le> clock (Suc (2 * k)) - clock (2 * k)"
    and s: "I s" "2000000 - timer \<le> 500 * int n"
  shows "\<exists>j' t k' s'. timed_loop n f clock (2 * k) timer j s = Some (Inr (j', t, 2 * k', s')) \<and> I s' \<and> j \<le> j' \<and> j' \<le> j + int n \<and> 2000000 \<le> t"
  using s
proof (induction n arbitrary: k timer j s)
  case 0
  then show ?case by (subst timed_loop.simps) auto
next
  case (Suc n)
  show ?case
  proof (cases "timer < 2000000")
    case True
    obtain s' where s': "f s = Some (Inr s')" "I s'" using f Suc.prems(1) by blast
    have "timed_loop (Suc n) f clock (2 * k) timer j s =
        timed_loop n f clock (2 * Suc k) (timer + (clock (Suc (2 * k)) - clock (2 * k))) (j + 1) s'"
      using True s'(1) by (subst timed_loop.simps) simp
    moreover have "2000000 - (timer + (clock (Suc (2 * k)) - clock (2 * k))) \<le> 500 * int n" using clock [of k] Suc.prems(2) by simp
    note Suc.IH [OF s'(2) this, of "Suc k" "j + 1"]
    ultimately show ?thesis by force
  next
    case False
    then show ?thesis using Suc.prems(1) by (subst timed_loop.simps) auto
  qed
qed

definition filled :: "ptr \<Rightarrow> nat \<Rightarrow> nat \<Rightarrow> mem \<Rightarrow> bool" where
  "filled a j n m \<longleftrightarrow> (\<forall>i x. j \<le> i \<and> i < n \<and> x < BYTES \<longrightarrow> buf m (Suc a + i) ! x = of_nat i)"

lemma fill_example_from:
  assumes "example_state a n BYTES m0 m" "j \<le> n" "filled a 0 j m"
  shows "\<exists>m'. fill_example a [j..<n] m = Some m' \<and> example_state a n BYTES m0 m' \<and> filled a 0 n m'"
  using assms
proof (induction "n - j" arbitrary: j m)
  case (Suc d)
  then have j: "j < n" and d: "d = n - Suc j" by simp_all
  let ?p = "Suc a + j"
  have arr: "ptrs_at m a = Some [Suc a..<Suc a + n]" using Suc.prems(1) by (simp add: example_state_def)
  obtain bs where bs: "bytes_at m ?p = Some bs" "BYTES \<le> length bs" using Suc.prems(1) j unfolding example_state_def by force
  let ?b = "overwrite bs 0 (replicate BYTES (of_nat j))" and ?m = "m(Suc a + j \<mapsto> Bytes (overwrite bs 0 (replicate BYTES (of_nat j))))"
  have "ptr_index m a (int j) = Some ?p" using arr j by (simp add: ptr_index_def nth_upt del: upt_Suc)
  then have step: "fill_example a [j..<n] m = fill_example a [Suc j..<n] ?m"
    using j bs by (simp add: upt_conv_Cons c_memset_def mem_simps)
  have st: "example_state a n BYTES m0 ?m" by (rule example_state_upd [OF Suc.prems(1)]) (use j bs(2) in simp_all)
  have "buf ?m (Suc a + i) ! x = of_nat i" if "i < Suc j" "x < BYTES" for i x
    using that Suc.prems(3) bs(2) by (cases "i = j") (auto simp: filled_def nth_overwrite)
  then have "filled a 0 (Suc j) ?m" by (simp add: filled_def)
  then show ?case using Suc.hyps(1) [OF d st] j unfolding step by simp
qed auto

text \<open>The state between two calls of an encoder: the example stripe with its six data disks filled.\<close>

definition example_data :: "ptr \<Rightarrow> mem \<Rightarrow> mem \<Rightarrow> bool" where
  "example_data a m0 m \<longleftrightarrow> example_state a DISKS BYTES m0 m \<and> filled a 0 6 m"

lemma example_data_checks:
  assumes I: "example_data a m0 m" and on: "only_checks a [Suc a..<Suc a + DISKS] 6 BYTES m m'"
  shows "example_data a m0 m'"
proof -
  let ?ps = "[Suc a..<Suc a + DISKS]"
  have st: "example_state a DISKS BYTES m0 m" using I by (simp add: example_data_def)
  have nth: "?ps ! i = Suc a + i" "i < length ?ps" if "i < 9" for i using that by (simp_all add: DISKS_def nth_upt del: upt_Suc)
  have s: "stripe m' a ?ps BYTES" "\<And>z. z \<notin> set (drop 6 ?ps) \<Longrightarrow> m' z = m z" using on by (simp_all add: only_checks_def)
  have out: "p \<notin> set (drop 6 ?ps)" if "p \<notin> {Suc a + 6..<Suc a + DISKS}" for p
    using that by (simp add: drop_upt del: upt_Suc)
  have "\<exists>bs. bytes_at m' p = Some bs \<and> BYTES \<le> length bs" if "p \<in> {Suc a..<Suc a + DISKS}" for p
  proof -
    have "p - Suc a < 9" "Suc a + (p - Suc a) = p" using that by (auto simp: DISKS_def)
    then show ?thesis using stripe_bytes_at(1,2) [OF s(1) nth(2), of "p - Suc a"] nth(1) [of "p - Suc a"] by auto
  qed
  moreover have "ptrs_at m' a = ptrs_at m a" using s(2) [OF out, of a] by (simp add: ptrs_at_def obj_at_def)
  ultimately have "example_state a DISKS BYTES m0 m'"
    using st s(2) [OF out] unfolding example_state_def by auto
  moreover have "buf m' (Suc a + i) = buf m (Suc a + i)" if "i < 6" for i
    using only_checks_data [OF example_state_stripe [OF st order_refl] on that] nth [of i] that by (simp add: DISKS_def)
  then have "filled a 0 6 m'" using I by (simp add: example_data_def filled_def)
  ultimately show ?thesis by (simp add: example_data_def)
qed

lemma proto_soft_ok:
  assumes I: "example_data a m0 m"
  shows "\<exists>m'. proto_soft_gen_syndrome (int DISKS) BYTES a m = Some m' \<and> example_data a m0 m'"
proof -
  let ?ps = "[Suc a..<Suc a + DISKS]"
  have st: "stripe m a ?ps BYTES" using I example_state_stripe unfolding example_data_def by blast
  have len: "length ?ps = 6 + 3" by (simp add: DISKS_def)
  have col: "column m ?ps 6 i = [0, 1, 2, 3, 4, 5]" if "i < BYTES" for i
  proof -
    have "?ps ! z = Suc a + z" if "z < 6" for z using that by (simp add: DISKS_def nth_upt del: upt_Suc)
    then have "column m ?ps 6 i = map of_nat [0..<6]" using I \<open>i < BYTES\<close> by (simp add: column_def example_data_def filled_def)
    then show ?thesis by (simp add: upt_rec)
  qed
  have "list_all (\<lambda>k. rs_check_byte k [0, 1, 2, 3, 4, 5] \<noteq> None) [0..<3]" by code_simp
  then have def: "rs_defined m ?ps 6 i" if "i < BYTES" for i
    unfolding rs_defined_def col [OF that] using len by (simp add: list_all_iff del: upt_Suc)
  have B: "BYTES < 2 ^ 31" by (simp add: BYTES_def)
  obtain m' where m': "mrs_bytes a (int 6) (int (length ?ps)) BYTES 0 m = Some m'" "rs_progress ?ps 6 ({0..<3} \<times> {..<BYTES}) m m'"
    using mrs_bytes_rows [OF st len B, of 0 m] rs_progress_refl [OF st len] def by auto
  have "only_checks a ?ps 6 BYTES m m'"
    unfolding only_checks_def using rs_progress_stripe(1) [OF st len m'(2)] rs_progress_same [OF m'(2)] by blast
  moreover have "proto_soft_gen_syndrome (int DISKS) BYTES a m = Some m'"
    using m'(1) len by (simp add: proto_soft_gen_syndrome_def PROTO_CHECK_SYMBOLS_def DISKS_def)
  ultimately show ?thesis using example_data_checks [OF I] by blast
qed

lemma proto_cuda_ok:
  assumes e: "gpu_order any_order e" and I: "rs_ready e 3 6 T (fst sm) \<and> example_data a m0 (snd sm)"
  shows "\<exists>sm'. proto_cuda_gen_syndrome e (int DISKS) BYTES a sm = Some (Inr sm') \<and> rs_ready e 3 6 T (fst sm') \<and> example_data a m0 (snd sm')"
proof -
  let ?ps = "[Suc a..<Suc a + DISKS]"
  have st: "stripe (snd sm) a ?ps BYTES" using I example_state_stripe unfolding example_data_def by blast
  have len: "length ?ps = 6 + 3" "int (length ?ps) = int DISKS" by (simp_all add: DISKS_def)
  have B: "DMA_BLOCKSIZE \<le> BYTES" "BYTES < 2 ^ 31" by (simp_all add: BYTES_def DMA_BLOCKSIZE_def)
  obtain s' m' where "multi_rs_cuda_gen_syndrome e 3 (int (length ?ps)) BYTES a (fst sm, snd sm) = Some (Inr (s', m'))"
    "rs_ready e 3 6 T s'" "only_checks a ?ps 6 BYTES (snd sm) m'"
    using rs_request_safe [OF e conjunct1 [OF I] st len(1) B] by blast
  then show ?thesis
    using example_data_checks [OF conjunct2 [OF I]] unfolding len(2) proto_cuda_gen_syndrome_def PROTO_CHECK_SYMBOLS_def by force
qed

section \<open>Properties\<close>

text \<open>C26. The generator of the tables, whatever \<open>malloc\<close> hands out: it ends without an access outside the arrays, and what it
  prints, as a list and as assignments for the kernel, is exactly the two tables of the encoders,
  except for entry 0 of the logarithms, which is never assigned. The loops print 255 of the 256
  entries, so the logarithm 175 of 255, which has been computed, is not among them.\<close>

theorem setup_tables_prints_tables:
  assumes "length g = 256" "length f = 256"
  shows "setup_tables g f = Some (0,
    [Heading ''gflog[] :''] @ map Plain (unat (g ! 0) # map unat (tl gflog)) @
    [Heading ''gflog[] :''] @ map2 K_gflog [0..<255] (unat (g ! 0) # map unat (tl gflog)) @
    [Heading ''gfilog[] :''] @ map Plain (map unat gfilog) @
    [Heading ''gflog[] :''] @ map2 K_gfilog [0..<255] (map unat gfilog)) \<and>
    (\<exists>g' f'. setup_loop (map of_nat [0..<255]) 1 (g, f) = Some (g', f') \<and> g' ! 255 = 175)"
proof -
  obtain g' f' where r: "setup_loop (map of_nat [0..<255]) 1 (g, f) = Some (g', f')" "g' ! 255 = 175"
    and t: "map (\<lambda>l. unat (f' ! l)) [0..<255] = map unat gfilog" "map (\<lambda>l. unat (g' ! l)) [0..<255] = unat (g ! 0) # map unat (tl gflog)"
    using setup_loop_tables [OF assms] by metis
  have w: "unat (x_to_w - 1) = 255" by (simp add: x_to_w_def)
  have plain: "map (\<lambda>l. Plain (unat (h l))) ls = map Plain (map (\<lambda>l. unat (h l)) ls)"
    "map (\<lambda>l. K l (unat (h l))) ls = map2 K ls (map (\<lambda>l. unat (h l)) ls)" for h :: "nat \<Rightarrow> u16" and K :: "nat \<Rightarrow> nat \<Rightarrow> printed" and ls
    by (simp_all add: zip_map2 map_zip_map2 [symmetric] zip_same_conv_map)
  show ?thesis
    unfolding setup_tables_def w Let_def using r by (simp only: Option.bind.simps case_prod_conv plain t) blast
qed

theorem setup_tables_prints_tables_witness:
  "\<exists>out. setup_tables (replicate 256 77) (replicate 256 0) = Some (0, out) \<and> out ! 0 = Heading ''gflog[] :'' \<and> out ! 1 = Plain 77"
  using setup_tables_prints_tables [of "replicate 256 77" "replicate 256 0"] by simp



end
