(* ===== verification/Proto_Smp.thy ===== *)
theory Proto_Smp
  imports Daemon_Main
begin

unbundle bit_operations_syntax

text \<open>
  The prototype \<open>smp_gs/raid6smp.c\<close>, a benchmark of the cache: it runs the encoder of \<open>smp/raid6smp.c\<close>, of which it holds a copy
  on 64-bit words, 10000 times on requests of 4 KiB, 8 KiB and so on up to 2 MiB. The encoder is
  that of \<open>Smp\<close>, the example stripe that of \<open>Host_Service\<close>.

  The clock is read in microseconds. \<open>timer\<close> is not initialised before the first interval is added to it, so
  its first value is a parameter, and the program adds up in floating point where the model
  is exact. A printed figure is the size and the operands of the division.
\<close>

section \<open>The program\<close>

text \<open>\<open>NUMBER_OF_CPUS_INSTALLED\<close> starts at 1, and \<open>main\<close> does not call \<open>set_internal_vars\<close>.\<close>

definition NUMBER_OF_CPUS_INSTALLED :: nat where
  "NUMBER_OF_CPUS_INSTALLED = 1"

definition smp_gs_phys_cpus :: nat where
  "smp_gs_phys_cpus = NUMBER_OF_CPUS_INSTALLED"

definition smp_gs_gen_syndrome :: syndrome_func where
  "smp_gs_gen_syndrome disks bytes ptrs m = (let number_of_threads = smp_gs_phys_cpus in
     raid6_smp_gen_syndrome number_of_threads disks bytes ptrs m)"

definition last_size :: u32 where
  "last_size = 2097152"

partial_function (option) size_loop :: "(nat \<Rightarrow> int) \<Rightarrow> nat \<Rightarrow> u32 \<Rightarrow> int \<Rightarrow> ptr \<Rightarrow> mem \<Rightarrow> ((u32 \<times> u64 \<times> int) list \<times> mem) option" where
  "size_loop clock k bgn timer dptrs m =
     (if bgn \<le> last_size then do {
        m \<leftarrow> repeat_gen 10000 smp_gs_gen_syndrome 5 (unat bgn) dptrs m;
        let tmp_timer = clock (Suc k) - clock k;
        let timer = timer + tmp_timer;
        let out = (bgn, ucast bgn * 10000, timer);
        (outs, m) \<leftarrow> size_loop clock (k + 2) (bgn * 2) timer dptrs m;
        Some (out # outs, m) }
      else Some ([], m))"

definition smp_gs_main :: "alloc \<Rightarrow> (nat \<Rightarrow> int) \<Rightarrow> int \<Rightarrow> heap \<Rightarrow> ((u32 \<times> u64 \<times> int) list \<times> heap) option" where
  "smp_gs_main al clock timer h = do {
     (dptrs, h) \<leftarrow> allocate_host_example_dpointer al (uint last_size) 5 h;
     (outs, m) \<leftarrow> size_loop clock 0 4096 timer dptrs (h_mem h);
     m \<leftarrow> deallocate_host_example_dpointer 5 dptrs m;
     Some (outs, h\<lparr>h_mem := m\<rparr>) }"

section \<open>It ends\<close>

lemma smp_gs_keeps:
  assumes st: "example_state a 5 2097152 m0 m" and b: "b \<le> 2097152" "8 dvd b"
  shows "\<exists>m'. smp_gs_gen_syndrome 5 b a m = Some m' \<and> example_state a 5 2097152 m0 m'"
proof -
  have need: "smp_need 1 b = b"
    using b(2) by (auto simp: smp_need_def chunk_end_def chunk_start_def chunk_stop_def)
  have gen: "raid6_generator (raid6_smp_gen_syndrome 1) (smp_need 1) (smp_ok 1)" by (rule smp.raid6_generator_axioms)
  have ok: "smp_ok 1 b" using b(1) need by (simp add: smp_ok_def)
  show ?thesis
    unfolding smp_gs_gen_syndrome_def smp_gs_phys_cpus_def NUMBER_OF_CPUS_INSTALLED_def Let_def
    using example_state_gen [OF gen _ ok st, of 5] need b(1) by simp
qed

lemma unat_power: "n < LENGTH('a) \<Longrightarrow> unat (2 ^ n :: 'a :: len word) = 2 ^ n"
  using unsigned_of_nat [where 'a = nat and 'b = 'a, of "2 ^ n"] by (simp add: take_bit_nat_eq_self)

lemma size_of:
  assumes "i \<le> 10"
  shows "unat (2 ^ (12 + i) :: u32) = 2 ^ (12 + i)" "(2 ^ (12 + i) :: u32) \<le> last_size \<longleftrightarrow> i < 10" "(ucast (2 ^ (12 + i) :: u32) :: u64) = 2 ^ (12 + i)"
proof -
  show u: "unat (2 ^ (12 + i) :: u32) = 2 ^ (12 + i)" using assms by (intro unat_power) simp
  have "(2 :: nat) ^ (12 + i) \<le> 2 ^ 21 \<longleftrightarrow> 12 + i \<le> 21" by (rule power_increasing_iff) simp
  moreover have "unat last_size = 2 ^ 21" by (simp add: last_size_def)
  ultimately show "(2 ^ (12 + i) :: u32) \<le> last_size \<longleftrightarrow> i < 10" unfolding word_le_nat_alt u by auto
  have "unat (ucast (2 ^ (12 + i) :: u32) :: u64) = 2 ^ (12 + i)"
    using u assms by (simp add: unsigned_ucast_eq take_bit_nat_eq_self)
  moreover have "unat (2 ^ (12 + i) :: u64) = 2 ^ (12 + i)" using assms by (intro unat_power) simp
  ultimately show "(ucast (2 ^ (12 + i) :: u32) :: u64) = 2 ^ (12 + i)" by (simp only: word_unat_eq_iff)
qed

text \<open>The time after \<open>i\<close> sizes.\<close>

definition total :: "(nat \<Rightarrow> int) \<Rightarrow> int \<Rightarrow> nat \<Rightarrow> int" where
  "total clock timer i = timer + (\<Sum>l < i. clock (Suc (2 * l)) - clock (2 * l))"

lemma size_loop_from:
  assumes "example_state a 5 2097152 m0 m" "i \<le> 10"
  shows "\<exists>m'. size_loop clock (2 * i) (2 ^ (12 + i)) (total clock timer i) a m =
      Some (map (\<lambda>j. (2 ^ (12 + j), 2 ^ (12 + j) * 10000, total clock timer (Suc j))) [i..<10], m') \<and> example_state a 5 2097152 m0 m'"
  using assms
proof (induction "10 - i" arbitrary: i m)
  case 0
  then have "i = 10" by simp
  then show ?case using 0 size_of(2) [of 10] by (subst size_loop.simps) simp
next
  case (Suc d)
  then have i: "i < 10" and d: "d = 10 - Suc i" by simp_all
  have b: "(2 :: nat) ^ (12 + i) \<le> 2097152" "(8 :: nat) dvd 2 ^ (12 + i)"
    using power_increasing [of "12 + i" 21 "2 :: nat"] i le_imp_power_dvd [of 3 "12 + i" "2 :: nat"] by simp_all
  obtain m1 where m1: "repeat_gen 10000 smp_gs_gen_syndrome 5 (2 ^ (12 + i)) a m = Some m1" "example_state a 5 2097152 m0 m1"
    using repeat_gen_keeps [of "example_state a 5 2097152 m0" smp_gs_gen_syndrome 5 "2 ^ (12 + i)" a m, OF smp_gs_keeps [OF _ b] Suc.prems(1)]
    by blast
  obtain m' where m': "size_loop clock (2 * Suc i) (2 ^ (12 + Suc i)) (total clock timer (Suc i)) a m1 =
      Some (map (\<lambda>j. (2 ^ (12 + j), 2 ^ (12 + j) * 10000, total clock timer (Suc j))) [Suc i..<10], m')" "example_state a 5 2097152 m0 m'"
    using Suc.hyps(1) [OF d m1(2)] i by auto
  have t: "total clock timer i + (clock (Suc (2 * i)) - clock (2 * i)) = total clock timer (Suc i)" by (simp add: total_def)
  have n: "(2 ^ (12 + i) :: u32) * 2 = 2 ^ (12 + Suc i)" "2 * i + 2 = 2 * Suc i" by (simp_all only: add_Suc_right power_Suc2 mult_Suc_right)
  note sz = size_of [OF less_imp_le [OF i]]
  have "size_loop clock (2 * i) (2 ^ (12 + i)) (total clock timer i) a m =
      Some (map (\<lambda>j. (2 ^ (12 + j), 2 ^ (12 + j) * 10000, total clock timer (Suc j))) [i..<10], m')"
    using m1(1) m'(1) i by (subst size_loop.simps) (simp only: sz n t Let_def if_True Option.bind.simps case_prod_conv upt_conv_Cons list.map)
  then show ?case using m'(2) by blast
qed

section \<open>Properties\<close>



end
