(* ===== verification/Cuda_Memcheck.thy ===== *)
theory Cuda_Memcheck
  imports Host_Service
begin

text \<open>
  The tool \<open>tools/cuda_memcheck/cuda_memcheck.cu\<close>: for each card it allocates as much memory as it gets, writes patterns to it
  and compares what it reads back.

  The record \<open>mc_cards\<close> stands for the CUDA runtime and the cards: the number of cards, their size,
  the result of each allocation, and \<open>cell\<close>, the byte that is read back in transfer \<open>k\<close> from an address of a
  card after a byte has been written to it, which is that byte if the memory is good. Copies of a live
  buffer succeed. An allocation that fails for another reason than lack of memory leaves the
  pointer of the program indeterminate. Output is left out, except for the bad address.
\<close>

datatype cudaError_t = cudaSuccess | cudaErrorMemoryAllocation | cudaErrorOther

record mc_cards =
  deviceCount :: nat
  total_mem :: "nat \<Rightarrow> u32"
  card_malloc :: "nat \<Rightarrow> nat \<Rightarrow> u32 \<Rightarrow> cudaError_t"
  cell :: "nat \<Rightarrow> nat \<Rightarrow> nat \<Rightarrow> u8 \<Rightarrow> u8"

section \<open>The program\<close>

fun check_bytes :: "mem \<Rightarrow> ptr \<Rightarrow> u8 \<Rightarrow> nat list \<Rightarrow> nat option option" where
  "check_bytes m pattern_pointer pattern [] = Some None"
| "check_bytes m pattern_pointer pattern (i # is) = do {
     b \<leftarrow> load8 m pattern_pointer i;
     if b \<noteq> pattern then Some (Some i) else check_bytes m pattern_pointer pattern is }"

text \<open>The loop of \<open>gen_pattern\<close>, from transfer \<open>k\<close> on; the third argument of \<open>memset\<close> and \<open>cudaMemcpy\<close> is
  the \<open>int\<close> converted to \<open>size_t\<close>.\<close>

definition size_t :: "int \<Rightarrow> nat" where
  "size_t i = nat (i mod 2 ^ 64)"

fun pattern_loop :: "(nat \<Rightarrow> nat \<Rightarrow> u8 \<Rightarrow> u8) \<Rightarrow> nat \<Rightarrow> nat \<Rightarrow> ptr \<Rightarrow> u8 \<Rightarrow> int \<Rightarrow> mem \<Rightarrow> (nat \<times> mem + mem) option" where
  "pattern_loop keeps k 0 pattern_pointer pattern freemem m = Some (Inr m)"
| "pattern_loop keeps k (Suc n) pattern_pointer pattern freemem m = do {
     m \<leftarrow> c_memset m pattern_pointer pattern (size_t freemem);
     DEVICE_PQ \<leftarrow> read_bytes m pattern_pointer 0 (size_t freemem);
     m \<leftarrow> c_memset m pattern_pointer 0 (size_t freemem);
     m \<leftarrow> write_bytes m pattern_pointer 0 (map2 (keeps k) [0..<size_t freemem] DEVICE_PQ);
     bad \<leftarrow> check_bytes m pattern_pointer pattern [0..<nat freemem];
     case bad of Some i \<Rightarrow> Some (Inl (i, m))
     | None \<Rightarrow> pattern_loop keeps (Suc k) n pattern_pointer pattern freemem m }"

text \<open>\<^term>\<open>Inl\<close> is the bad address; the buffer of the host is not freed then.\<close>

definition gen_pattern :: "alloc \<Rightarrow> (nat \<Rightarrow> nat \<Rightarrow> u8 \<Rightarrow> u8) \<Rightarrow> nat \<Rightarrow> u8 \<Rightarrow> int \<Rightarrow> heap \<Rightarrow> (nat \<times> heap + heap) option" where
  "gen_pattern al keeps k pattern freemem h = (case malloc_bytes al freemem h of (pattern_pointer, h) \<Rightarrow>
     let pattern = (if pattern = 0 then 255 else pattern) in do {
       r \<leftarrow> pattern_loop keeps k 30 pattern_pointer pattern freemem (h_mem h);
       case r of Inl (i, m) \<Rightarrow> Some (Inl (i, h\<lparr>h_mem := m\<rparr>))
       | Inr m \<Rightarrow> do { m \<leftarrow> c_free m pattern_pointer; Some (Inr (h\<lparr>h_mem := m\<rparr>)) } })"

text \<open>The loop that looks for a size that can be allocated; \<^term>\<open>None\<close> is the return with \<open>out of memmory\<close>. \<open>n\<close> numbers the
  allocations.\<close>

function mem_loop :: "(nat \<Rightarrow> u32 \<Rightarrow> cudaError_t) \<Rightarrow> cudaError_t \<Rightarrow> nat \<Rightarrow> u32 \<Rightarrow> (u32 \<times> cudaError_t) option" where
  "mem_loop cudaMalloc result n freemem =
     (if result = cudaErrorMemoryAllocation then
        let freemem = freemem - 1024 * 1024; result = cudaMalloc n freemem in
        if freemem < 1024 * 1024 then None else mem_loop cudaMalloc result (Suc n) freemem
      else Some (freemem, result))"
  by pat_completeness auto

termination mem_loop
proof (relation "measure (\<lambda>(c, r, n, freemem). unat (freemem - 1024 * 1024))")
  fix c :: "nat \<Rightarrow> u32 \<Rightarrow> cudaError_t" and r n f x xa
  assume x: "x = f - 1024 * 1024" and ge: "\<not> x < (1024 * 1024 :: u32)"
  then have "unat (x - 1024 * 1024) = unat x - unat (1024 * 1024 :: u32)" by (intro unat_sub) simp
  moreover have "unat (1024 * 1024 :: u32) \<le> unat x" using ge unfolding not_less word_le_nat_alt .
  moreover have "0 < unat (1024 * 1024 :: u32)" by simp
  ultimately show "((c, xa, Suc n, x), c, r, n, f) \<in> measure (\<lambda>(c, r, n, freemem). unat (freemem - 1024 * 1024))"
    unfolding x by (simp add: in_measure)
qed simp_all

declare mem_loop.simps [simp del]

definition patterns :: "u8 list" where
  "patterns = [85, 170, 255, 0]"

fun test_patterns :: "alloc \<Rightarrow> (nat \<Rightarrow> nat \<Rightarrow> u8 \<Rightarrow> u8) \<Rightarrow> nat \<Rightarrow> u8 list \<Rightarrow> int \<Rightarrow> heap \<Rightarrow> (nat \<times> heap + heap) option" where
  "test_patterns al keeps k [] freemem h = Some (Inr h)"
| "test_patterns al keeps k (p # ps) freemem h = do {
     r \<leftarrow> gen_pattern al keeps k p freemem h;
     case r of Inl (i, h) \<Rightarrow> Some (Inl (i, h)) | Inr h \<Rightarrow> test_patterns al keeps (k + 30) ps freemem h }"

text \<open>The loop over the cards, \<open>freemem\<close> is passed as an \<open>int\<close>; the return with 1 carries the bad address.\<close>

fun test_devices :: "alloc \<Rightarrow> mc_cards \<Rightarrow> nat \<Rightarrow> nat list \<Rightarrow> heap \<Rightarrow> (nat option \<times> heap + heap) option" where
  "test_devices al e durations [] h = Some (Inr h)"
| "test_devices al e durations (d # ds) h =
     (let total = total_mem e d in
      case mem_loop (card_malloc e d) (card_malloc e d 0 total) 1 total of
        None \<Rightarrow> Some (Inl (None, h))
      | Some (freemem, result) \<Rightarrow>
          if result \<noteq> cudaSuccess then None
          else do {
            r \<leftarrow> test_patterns al (cell e d) 0 (concat (replicate durations patterns)) (sint freemem) h;
            case r of Inl (i, h) \<Rightarrow> Some (Inl (Some i, h)) | Inr h \<Rightarrow> test_devices al e durations ds h })"

definition memcheck_main :: "alloc \<Rightarrow> mc_cards \<Rightarrow> string list \<Rightarrow> heap \<Rightarrow> (int \<times> nat option \<times> heap) option" where
  "memcheck_main al e argv h = (let durations = (if 1 < length argv then atoi (argv ! 1) else 1) in
     if durations < 1 \<or> durations > 20 then Some (1, None, h)
     else do {
       r \<leftarrow> test_devices al e (nat durations) [0..<deviceCount e] h;
       case r of Inl (bad, h) \<Rightarrow> Some (1, bad, h) | Inr h \<Rightarrow> Some (0, None, h) })"

section \<open>The allocation\<close>

text \<open>On a card with \<open>av\<close> bytes of free memory, at least two megabytes, the loop ends with the whole card or with a size that is
  less than a megabyte short of the free memory.\<close>

lemma mem_loop_finds:
  assumes malloc: "\<And>n sz. cudaMalloc n sz = (if unat sz \<le> av then cudaSuccess else cudaErrorMemoryAllocation)" and av: "2 ^ 21 \<le> av"
  shows "\<exists>freemem. mem_loop cudaMalloc (cudaMalloc n sz0) n' sz0 = Some (freemem, cudaSuccess) \<and> unat freemem \<le> av \<and>
    unat freemem \<le> unat sz0 \<and> (freemem = sz0 \<or> av < unat freemem + 2 ^ 20)"
proof (induction "unat sz0" arbitrary: sz0 n n' rule: less_induct)
  case less
  show ?case
  proof (cases "unat sz0 \<le> av")
    case True
    then show ?thesis using malloc by (subst mem_loop.simps) simp
  next
    case False
    let ?f = "sz0 - 1024 * 1024"
    have mb: "unat (1024 * 1024 :: u32) = 2 ^ 20" by simp
    have le: "(1024 * 1024 :: u32) \<le> sz0" using False av unfolding word_le_nat_alt mb by simp
    have f: "unat ?f = unat sz0 - 2 ^ 20" using unat_sub [OF le] unfolding mb .
    have "\<not> ?f < 1024 * 1024" using False av unfolding word_less_nat_alt f mb by simp
    then have step: "mem_loop cudaMalloc (cudaMalloc n sz0) n' sz0 = mem_loop cudaMalloc (cudaMalloc n' ?f) (Suc n') ?f"
      using False malloc [of n sz0] by (subst mem_loop.simps) (simp add: Let_def)
    have "unat ?f < unat sz0" using False av f by simp
    then obtain freemem where IH: "mem_loop cudaMalloc (cudaMalloc n' ?f) (Suc n') ?f = Some (freemem, cudaSuccess)" "unat freemem \<le> av"
      "unat freemem \<le> unat ?f" "freemem = ?f \<or> av < unat freemem + 2 ^ 20"
      using less [of ?f n' "Suc n'"] by blast
    have "av < unat freemem + 2 ^ 20" using IH(4) False f by auto
    then show ?thesis using IH(1-3) f unfolding step by auto
  qed
qed

section \<open>The patterns\<close>

lemma check_bytes_find:
  assumes "bytes_at m p = Some bs" "\<forall>i \<in> set is. i < length bs"
  shows "check_bytes m p v is = Some (List.find (\<lambda>i. bs ! i \<noteq> v) is)"
  using assms(2) by (induction "is") (simp_all add: load8_def assms(1))

lemma size_t_int: "s < 2 ^ 31 \<Longrightarrow> size_t (int s) = s"
  by (simp add: size_t_def)

text \<open>The card keeps pattern \<open>v\<close> in transfers \<open>k\<close> to \<open>k + n - 1\<close>; the result of a test names a byte it does not keep.\<close>

definition keeps_all :: "(nat \<Rightarrow> nat \<Rightarrow> u8 \<Rightarrow> u8) \<Rightarrow> nat \<Rightarrow> nat \<Rightarrow> nat \<Rightarrow> u8 \<Rightarrow> bool" where
  "keeps_all keeps s k n v \<longleftrightarrow> (\<forall>j < n. \<forall>a < s. keeps (k + j) a v = v)"

lemma keeps_all_Suc: "keeps_all keeps s k (Suc n) v \<longleftrightarrow> (\<forall>a < s. keeps k a v = v) \<and> keeps_all keeps s (Suc k) n v"
  unfolding keeps_all_def by (auto simp: less_Suc_eq_0_disj)

lemma pattern_loop_result:
  assumes "bytes_at m p = Some bs" "length bs = s" "s < 2 ^ 31"
  shows "\<exists>r. pattern_loop keeps k n p v (int s) m = Some r \<and>
    (case r of Inl (i, m') \<Rightarrow> i < s \<and> \<not> keeps_all keeps s k n v | Inr m' \<Rightarrow> keeps_all keeps s k n v \<and> (\<exists>bs'. m' = m(p \<mapsto> Bytes bs')))"
  using assms(1,2)
proof (induction n arbitrary: k m bs)
  case 0
  have "m(p \<mapsto> Bytes bs) = m" using bytes_at_SomeD [OF 0(1)] by (simp add: fun_upd_idem)
  then show ?case by (auto simp: keeps_all_def intro: exI [of _ bs])
next
  case (Suc n)
  let ?got = "map (\<lambda>a. keeps k a v) [0..<s]"
  let ?m = "m(p \<mapsto> Bytes ?got)"
  have p: "p \<noteq> null" using Suc.prems(1) by (auto dest: bytes_at_SomeD)
  have over: "overwrite xs 0 ys = ys" if "length xs = length ys" for xs ys :: "u8 list"
    using that by (intro nth_equalityI) (simp_all add: nth_overwrite)
  have got: "map2 (keeps k) [0..<s] (replicate s v) = ?got" by (intro nth_equalityI) simp_all
  have at: "bytes_at ?m p = Some ?got" using p by simp
  have run: "pattern_loop keeps k (Suc n) p v (int s) m =
      (case List.find (\<lambda>i. ?got ! i \<noteq> v) [0..<s] of Some i \<Rightarrow> Some (Inl (i, ?m)) | None \<Rightarrow> pattern_loop keeps (Suc k) n p v (int s) ?m)"
    using Suc.prems p size_t_int [OF assms(3)] check_bytes_find [OF at, of "[0..<s]" v]
    by (simp add: c_memset_def mem_simps over got del: map_map)
  show ?case
  proof (cases "List.find (\<lambda>i. ?got ! i \<noteq> v) [0..<s]")
    case None
    then have "\<forall>a < s. keeps k a v = v" by (auto simp: find_None_iff)
    then show ?thesis using Suc.IH [OF at, of "Suc k"] unfolding run None keeps_all_Suc by (fastforce split: sum.splits)
  next
    case (Some i)
    then have "i < s \<and> keeps k i v \<noteq> v" by (auto simp: find_Some_iff)
    then show ?thesis unfolding run Some keeps_all_Suc by auto
  qed
qed

definition pattern_byte :: "u8 \<Rightarrow> u8" where
  "pattern_byte pattern = (if pattern = 0 then 255 else pattern)"

lemma gen_pattern_result:
  assumes "\<forall>p. avail al p" "heap_fresh h" "s < 2 ^ 31"
  shows "\<exists>r. gen_pattern al keeps k v (int s) h = Some r \<and>
    (case r of Inl (i, h') \<Rightarrow> i < s \<and> \<not> keeps_all keeps s k 30 (pattern_byte v)
     | Inr h' \<Rightarrow> keeps_all keeps s k 30 (pattern_byte v) \<and> h_mem h' = h_mem h \<and> heap_fresh h')"
proof -
  let ?p = "h_next h" and ?bs = "map (fill al (h_next h)) [0..<s]"
  let ?h = "h\<lparr>h_mem := (h_mem h)(?p \<mapsto> Bytes ?bs), h_next := Suc ?p\<rparr>"
  have p: "?p \<noteq> null" "h_mem h ?p = None" using assms(2) by (simp_all add: heap_fresh_def)
  have al: "malloc_bytes al (int s) h = (?p, ?h)" using assms(1) by (simp add: malloc_bytes_def malloc_obj_def)
  have at: "bytes_at (h_mem ?h) ?p = Some ?bs" "length ?bs = s" using p(1) by simp_all
  obtain r where r: "pattern_loop keeps k 30 ?p (pattern_byte v) (int s) (h_mem ?h) = Some r"
    "case r of Inl (i, m') \<Rightarrow> i < s \<and> \<not> keeps_all keeps s k 30 (pattern_byte v) | Inr m' \<Rightarrow> keeps_all keeps s k 30 (pattern_byte v) \<and> (\<exists>bs'. m' = (h_mem ?h)(?p \<mapsto> Bytes bs'))"
    using pattern_loop_result [OF at assms(3), of keeps k 30 "pattern_byte v"] by blast
  have run: "gen_pattern al keeps k v (int s) h = (case r of Inl (i, m) \<Rightarrow> Some (Inl (i, h\<lparr>h_next := Suc ?p, h_mem := m\<rparr>))
      | Inr m \<Rightarrow> do { m \<leftarrow> c_free m ?p; Some (Inr (h\<lparr>h_next := Suc ?p, h_mem := m\<rparr>)) })"
    using r(1) unfolding gen_pattern_def al Let_def pattern_byte_def [symmetric] by simp
  show ?thesis
  proof (cases r)
    case (Inl x)
    then show ?thesis using r(2) unfolding run by (cases x) simp
  next
    case (Inr m')
    then obtain bs' where m': "m' = (h_mem ?h)(?p \<mapsto> Bytes bs')" and k: "keeps_all keeps s k 30 (pattern_byte v)" using r(2) by auto
    have "c_free m' ?p = Some (h_mem h)" using p unfolding m' by (auto simp: c_free_def fun_eq_iff)
    then show ?thesis using k assms(2) unfolding run Inr by (simp add: heap_fresh_def)
  qed
qed

text \<open>What a card keeps over a list of patterns, thirty transfers each.\<close>

fun passes :: "(nat \<Rightarrow> nat \<Rightarrow> u8 \<Rightarrow> u8) \<Rightarrow> nat \<Rightarrow> nat \<Rightarrow> u8 list \<Rightarrow> bool" where
  "passes keeps s k [] \<longleftrightarrow> True"
| "passes keeps s k (p # ps) \<longleftrightarrow> keeps_all keeps s k 30 (pattern_byte p) \<and> passes keeps s (k + 30) ps"

lemma all_less_add: "(\<forall>q < a + b. P q) \<longleftrightarrow> (\<forall>q < a. P q) \<and> (\<forall>q < (b :: nat). P (a + q))"
  by (auto, metis add_diff_inverse_nat nat_add_left_cancel_less)

lemma passes_iff: "passes keeps s k ps \<longleftrightarrow> (\<forall>q < 30 * length ps. \<forall>a < s. keeps (k + q) a (pattern_byte (ps ! (q div 30))) = pattern_byte (ps ! (q div 30)))"
proof (induction ps arbitrary: k)
  case (Cons p ps)
  let ?P = "\<lambda>k ps q. \<forall>a < s. keeps (k + q) a (pattern_byte (ps ! (q div 30))) = pattern_byte (ps ! (q div 30))"
  have "(\<forall>q < 30 * length (p # ps). ?P k (p # ps) q) \<longleftrightarrow> (\<forall>q < 30. ?P k (p # ps) q) \<and> (\<forall>q < 30 * length ps. ?P k (p # ps) (30 + q))"
    using all_less_add [of 30 "30 * length ps" "?P k (p # ps)"] by (simp only: list.size(4) mult_Suc_right add_Suc_right add_0_right)
  moreover have "(\<forall>q < 30. ?P k (p # ps) q) \<longleftrightarrow> keeps_all keeps s k 30 (pattern_byte p)" by (simp add: keeps_all_def)
  moreover have "?P k (p # ps) (30 + q) = ?P (k + 30) ps q" for q
  proof -
    have "(30 + q) div 30 = Suc (q div 30)" by simp
    then show ?thesis by (simp only: nth_Cons_Suc add.assoc)
  qed
  ultimately show ?case unfolding passes.simps Cons.IH by simp
qed simp

lemma test_patterns_result:
  assumes "\<forall>p. avail al p" "heap_fresh h" "s < 2 ^ 31"
  shows "\<exists>r. test_patterns al keeps k ps (int s) h = Some r \<and>
    (case r of Inl (i, h') \<Rightarrow> i < s \<and> \<not> passes keeps s k ps | Inr h' \<Rightarrow> passes keeps s k ps \<and> h_mem h' = h_mem h \<and> heap_fresh h')"
  using assms(2)
proof (induction ps arbitrary: k h)
  case (Cons p ps)
  obtain r where r: "gen_pattern al keeps k p (int s) h = Some r" "case r of Inl (i, h') \<Rightarrow> i < s \<and> \<not> keeps_all keeps s k 30 (pattern_byte p)
     | Inr h' \<Rightarrow> keeps_all keeps s k 30 (pattern_byte p) \<and> h_mem h' = h_mem h \<and> heap_fresh h'"
    using gen_pattern_result [OF assms(1) Cons.prems assms(3), of keeps k p] by blast
  show ?case
  proof (cases r)
    case (Inl x)
    then show ?thesis using r by (cases x) simp
  next
    case (Inr h1)
    then have "keeps_all keeps s k 30 (pattern_byte p)" "h_mem h1 = h_mem h" "heap_fresh h1" using r(2) by simp_all
    moreover obtain r' where "test_patterns al keeps (k + 30) ps (int s) h1 = Some r'" "case r' of Inl (i, h') \<Rightarrow> i < s \<and> \<not> passes keeps s (k + 30) ps
       | Inr h' \<Rightarrow> passes keeps s (k + 30) ps \<and> h_mem h' = h_mem h1 \<and> heap_fresh h'"
      using Cons.IH [OF calculation(3)] by blast
    ultimately show ?thesis using r(1) Inr by (intro exI [of _ r']) (auto split: sum.splits)
  qed
qed simp

lemma concat_patterns:
  "length (concat (replicate n patterns)) = 4 * n" "l < 4 * n \<Longrightarrow> concat (replicate n patterns) ! l = patterns ! (l mod 4)"
proof -
  show len: "length (concat (replicate n patterns)) = 4 * n" for n by (induction n) (simp_all add: patterns_def)
  show "l < 4 * n \<Longrightarrow> concat (replicate n patterns) ! l = patterns ! (l mod 4)"
  proof (induction n arbitrary: l)
    case (Suc n)
    have "length patterns = 4" by (simp add: patterns_def)
    then show ?case using Suc.IH [of "l - 4"] Suc.prems by (cases "l < 4") (auto simp: nth_append le_mod_geq)
  qed simp
qed

section \<open>The cards\<close>

definition card_gets :: "mc_cards \<Rightarrow> nat \<Rightarrow> u32 \<Rightarrow> bool" where
  "card_gets e d freemem \<longleftrightarrow> mem_loop (card_malloc e d) (card_malloc e d 0 (total_mem e d)) 1 (total_mem e d) = Some (freemem, cudaSuccess) \<and>
     unat freemem < 2 ^ 31"

lemma sint_u32: "unat (f :: u32) < 2 ^ 31 \<Longrightarrow> sint f = int (unat f)"
proof -
  assume "unat f < 2 ^ 31"
  then have "int (unat f) < int (2 ^ 31)" by (simp only: of_nat_less_iff)
  then have "uint f < 2 ^ 31" by simp
  moreover have "- (2 ^ 31) \<le> uint f" by (rule order_trans [OF _ unsigned_greater_eq]) simp
  ultimately have "signed_take_bit 31 (uint f) = uint f" by (intro signed_take_bit_int_eq_self)
  moreover have "sint f = signed_take_bit 31 (uint f)" by (simp add: sint_uint)
  ultimately show ?thesis by simp
qed

lemma test_devices_result:
  assumes al: "\<forall>p. avail al p" and ds: "\<forall>d \<in> set ds. card_gets e d (f d)" and h: "heap_fresh h"
  shows "\<exists>r. test_devices al e n ds h = Some r \<and>
    (case r of Inl (bad, h') \<Rightarrow> \<exists>d \<in> set ds. \<exists>i < unat (f d). bad = Some i \<and> \<not> passes (cell e d) (unat (f d)) 0 (concat (replicate n patterns))
     | Inr h' \<Rightarrow> (\<forall>d \<in> set ds. passes (cell e d) (unat (f d)) 0 (concat (replicate n patterns))) \<and> h_mem h' = h_mem h)"
  using ds h
proof (induction ds arbitrary: h)
  case (Cons d ds)
  let ?ps = "concat (replicate n patterns)"
  have gets: "mem_loop (card_malloc e d) (card_malloc e d 0 (total_mem e d)) 1 (total_mem e d) = Some (f d, cudaSuccess)" "unat (f d) < 2 ^ 31"
    using Cons.prems(1) by (simp_all add: card_gets_def)
  obtain r where r: "test_patterns al (cell e d) 0 ?ps (int (unat (f d))) h = Some r"
    "case r of Inl (i, h') \<Rightarrow> i < unat (f d) \<and> \<not> passes (cell e d) (unat (f d)) 0 ?ps
     | Inr h' \<Rightarrow> passes (cell e d) (unat (f d)) 0 ?ps \<and> h_mem h' = h_mem h \<and> heap_fresh h'"
    using test_patterns_result [OF al Cons.prems(2) gets(2), of "cell e d" 0 ?ps] by blast
  have run: "test_devices al e n (d # ds) h = (case r of Inl (i, h) \<Rightarrow> Some (Inl (Some i, h)) | Inr h \<Rightarrow> test_devices al e n ds h)"
    using r(1) gets sint_u32 [OF gets(2)] by (simp add: Let_def)
  show ?case
  proof (cases r)
    case (Inl x)
    then show ?thesis using r(2) unfolding run by (cases x) simp
  next
    case (Inr h1)
    then have h1: "passes (cell e d) (unat (f d)) 0 ?ps" "h_mem h1 = h_mem h" "heap_fresh h1" using r(2) by simp_all
    obtain r' where r': "test_devices al e n ds h1 = Some r'" "case r' of Inl (bad, h') \<Rightarrow> \<exists>d \<in> set ds. \<exists>i < unat (f d). bad = Some i \<and> \<not> passes (cell e d) (unat (f d)) 0 ?ps
     | Inr h' \<Rightarrow> (\<forall>d \<in> set ds. passes (cell e d) (unat (f d)) 0 ?ps) \<and> h_mem h' = h_mem h1"
      using Cons.IH [OF _ h1(3)] Cons.prems(1) by auto
    show ?thesis
    proof (cases r')
      case (Inl x)
      then show ?thesis using r' unfolding run Inr by (cases x) simp
    next
      case (Inr h2)
      then show ?thesis using r' h1(1,2) unfolding run \<open>r = Inr h1\<close> by simp
    qed
  qed
qed simp

section \<open>Properties\<close>

text \<open>The byte that is written in transfer \<open>k\<close>.\<close>

definition test_byte :: "nat \<Rightarrow> u8" where
  "test_byte k = [85, 170, 255, 255] ! (k div 30 mod 4)"

lemma test_byte_pattern: "q < 30 * (4 * n) \<Longrightarrow> pattern_byte (concat (replicate n patterns) ! (q div 30)) = test_byte q"
proof -
  assume "q < 30 * (4 * n)"
  then have "q div 30 < 4 * n" by (simp add: div_less_iff_less_mult mult.commute)
  then have "concat (replicate n patterns) ! (q div 30) = patterns ! (q div 30 mod 4)" by (rule concat_patterns(2))
  moreover have "list_all (\<lambda>i. pattern_byte (patterns ! i) = [85, 170, 255, 255] ! i) [0..<4]" by code_simp
  then have "pattern_byte (patterns ! i) = [85, 170, 255, 255] ! i" if "i < 4" for i using that by (simp add: list_all_iff)
  ultimately show ?thesis by (simp add: test_byte_def)
qed

text \<open>C38. The memory test, for every behaviour of the memory of the cards: if each card hands out less than 2 GiB, the program ends and
  reports success exactly if every byte of every card is read back as it was written in all transfers of
  the run, 120 per duration and card; otherwise it fails with an address inside the
  memory. After success all memory of the host has been given back. The bytes written are 85, 170,
  255 and again 255: the last pattern is meant to be 0.\<close>

theorem memcheck_main_result:
  assumes "\<forall>p. avail al p" "heap_fresh h" "(if 1 < length argv then atoi (argv ! 1) else 1) = int n" "1 \<le> n" "n \<le> 20"
    and "\<forall>d < deviceCount e. card_gets e d (f d)"
  shows "\<exists>r bad h'. memcheck_main al e argv h = Some (r, bad, h') \<and> (r = 0 \<or> r = 1) \<and>
    (r = 0 \<longleftrightarrow> (\<forall>d < deviceCount e. \<forall>k < 120 * n. \<forall>a < unat (f d). cell e d k a (test_byte k) = test_byte k)) \<and>
    (r = 0 \<longrightarrow> h_mem h' = h_mem h) \<and> (r = 1 \<longrightarrow> (\<exists>d < deviceCount e. \<exists>i < unat (f d). bad = Some i))"
proof -
  let ?ps = "concat (replicate n patterns)"
  have ok: "passes (cell e d) s 0 ?ps \<longleftrightarrow> (\<forall>k < 120 * n. \<forall>a < s. cell e d k a (test_byte k) = test_byte k)" for d s
    unfolding passes_iff concat_patterns(1) using test_byte_pattern [of _ n] by (simp add: mult.assoc [symmetric])
  obtain r where r: "test_devices al e n [0..<deviceCount e] h = Some r"
    "case r of Inl (bad, h') \<Rightarrow> \<exists>d \<in> set [0..<deviceCount e]. \<exists>i < unat (f d). bad = Some i \<and> \<not> passes (cell e d) (unat (f d)) 0 ?ps
     | Inr h' \<Rightarrow> (\<forall>d \<in> set [0..<deviceCount e]. passes (cell e d) (unat (f d)) 0 ?ps) \<and> h_mem h' = h_mem h"
    using test_devices_result [OF assms(1) _ assms(2), of "[0..<deviceCount e]" e f n] assms(6) by auto
  have run: "memcheck_main al e argv h = (case r of Inl (bad, h) \<Rightarrow> Some (1, bad, h) | Inr h \<Rightarrow> Some (0, None, h))"
    using r(1) assms(3-5) unfolding memcheck_main_def Let_def by simp
  show ?thesis
  proof (cases r)
    case (Inl x)
    obtain bad h1 where x: "x = (bad, h1)" by (cases x)
    obtain d i where d: "d < deviceCount e" "i < unat (f d)" "bad = Some i"
      "\<not> (\<forall>k < 120 * n. \<forall>a < unat (f d). cell e d k a (test_byte k) = test_byte k)"
      using r(2) unfolding ok Inl x sum.case prod.case set_upt atLeastLessThan_iff Bex_def by (elim exE conjE) (rule that)
    then show ?thesis unfolding run Inl x by (intro exI [of _ 1] exI [of _ bad] exI [of _ h1]) auto
  next
    case (Inr h')
    then show ?thesis using r(2) unfolding run ok by auto
  qed
qed

definition sample_cards :: mc_cards where
  "sample_cards = \<lparr>deviceCount = 1, total_mem = \<lambda>d. 4194304, card_malloc = \<lambda>d n sz. if sz \<le> 3145728 then cudaSuccess else cudaErrorMemoryAllocation,
     cell = \<lambda>d k a b. if b = 0 then 1 else b\<rparr>"

theorem memcheck_main_result_witness:
  "\<exists>bad h'. memcheck_main \<lparr>avail = \<lambda>_. True, fill = \<lambda>p i. 255\<rparr> sample_cards [''cuda_memcheck'', ''2''] \<lparr>h_mem = Map.empty, h_next = 1\<rparr> = Some (0, bad, h')"
proof -
  have gets: "\<forall>d < deviceCount sample_cards. card_gets sample_cards d 3145728"
    by (simp add: card_gets_def sample_cards_def) (subst mem_loop.simps, simp, subst mem_loop.simps, simp)
  have n: "(if 1 < length [''cuda_memcheck'', ''2''] then atoi ([''cuda_memcheck'', ''2''] ! 1) else 1) = int 2" by code_simp
  have "test_byte k \<noteq> 0" for k
  proof -
    have "list_all (\<lambda>i. [85, 170, 255, 255 :: u8] ! i \<noteq> 0) [0..<4]" by code_simp
    then show ?thesis by (simp add: test_byte_def list_all_iff)
  qed
  then show ?thesis
    using memcheck_main_result [of "\<lparr>avail = \<lambda>_. True, fill = \<lambda>p i. 255\<rparr>" "\<lparr>h_mem = Map.empty, h_next = 1\<rparr>", OF _ _ n _ _ gets]
    by (simp add: heap_fresh_def sample_cards_def) blast
qed

end
