(* ===== verification/Cuda_Bench.thy ===== *)
theory Cuda_Bench
  imports Cuda_Raid6
begin

unbundle bit_operations_syntax

text \<open>
  The two micro-benchmarks \<open>bench/cuda_xor_test.cu\<close> and \<open>bench/cuda_shift_test.cu\<close>: exclusive or and shift of long words, on the card and on the
  host, each repeated for a second.

  The device buffers are the parameter \<open>dev\<close>; the order of the threads of a launch comes from the
  record \<open>gpu\<close> of \<open>Cuda_Raid6\<close>. A thread of a kernel uses its own entry of the shared arrays only, so a thread is one
  step. Time is in microseconds and exact, a printed figure is the pair of its operands.
\<close>

definition BL_SIZE :: nat where
  "BL_SIZE = 10000000"

section \<open>The versions for the host\<close>

text \<open>\<open>TMP_C[i] = ...\<close> for the indices of a list.\<close>

fun words_loop :: "(mem \<Rightarrow> nat \<Rightarrow> u64 option) \<Rightarrow> ptr \<Rightarrow> nat list \<Rightarrow> mem \<Rightarrow> mem option" where
  "words_loop g C [] m = Some m"
| "words_loop g C (i # is) m = do {
     w \<leftarrow> g m i;
     m \<leftarrow> store64 m C (8 * i) w;
     words_loop g C is m }"

definition xor_it_cpu :: "ptr \<Rightarrow> ptr \<Rightarrow> ptr \<Rightarrow> nat \<Rightarrow> mem \<Rightarrow> mem option" where
  "xor_it_cpu A B C bl_size = words_loop (\<lambda>m i. do {
     a \<leftarrow> load64 m A (8 * i);
     b \<leftarrow> load64 m B (8 * i);
     Some (a XOR b) }) C [0..<bl_size div 8]"

definition shift_it_cpu :: "ptr \<Rightarrow> ptr \<Rightarrow> nat \<Rightarrow> mem \<Rightarrow> mem option" where
  "shift_it_cpu A C bl_size = words_loop (\<lambda>m i. do {
     a \<leftarrow> load64 m A (8 * i);
     Some (push_bit 1 a) }) C [0..<bl_size div 8]"

section \<open>The kernels\<close>

text \<open>An entry of a shared array of eight words.\<close>

definition stream_store :: "u64 list \<Rightarrow> nat \<Rightarrow> u64 \<Rightarrow> u64 list option" where
  "stream_store s tx w = (if tx < length s then Some (s[tx := w]) else None)"

text \<open>Thread \<open>t\<close> of a launch is thread \<open>tx\<close> of block \<open>bx\<close>; \<open>d\<close> is its number. The arrays start with the content \<open>x\<close>, which each thread
  overwrites before it reads it.\<close>

definition xor_it_cuda :: "u64 list \<Rightarrow> u8 list \<Rightarrow> u8 list \<Rightarrow> nat \<Rightarrow> u8 list \<Rightarrow> u8 list option" where
  "xor_it_cuda x B C t A = (let bx = t div THREAD_BLOCKSIZE; tx = t mod THREAD_BLOCKSIZE; d = bx * THREAD_BLOCKSIZE + tx in do {
     c \<leftarrow> dload64 C (int (8 * d));
     c_stream \<leftarrow> stream_store x tx c;
     b \<leftarrow> dload64 B (int (8 * d));
     b_stream \<leftarrow> stream_store x tx b;
     a_stream \<leftarrow> stream_store x tx (c_stream ! tx XOR b_stream ! tx);
     dstore64 A (8 * d) (a_stream ! tx) })"

definition shift_it_cuda :: "u64 list \<Rightarrow> u8 list \<Rightarrow> nat \<Rightarrow> u8 list \<Rightarrow> u8 list option" where
  "shift_it_cuda x C t A = (let bx = t div THREAD_BLOCKSIZE; tx = t mod THREAD_BLOCKSIZE; d = bx * THREAD_BLOCKSIZE + tx in do {
     c \<leftarrow> dload64 C (int (8 * d));
     c_stream \<leftarrow> stream_store x tx c;
     a_stream \<leftarrow> stream_store x tx (push_bit 1 (c_stream ! tx));
     dstore64 A (8 * d) (a_stream ! tx) })"

fun run_launch :: "(nat \<Rightarrow> u8 list \<Rightarrow> u8 list option) \<Rightarrow> nat list \<Rightarrow> u8 list \<Rightarrow> u8 list option" where
  "run_launch kern [] A = Some A"
| "run_launch kern (t # ts) A = do {
     A \<leftarrow> kern t A;
     run_launch kern ts A }"

definition grid :: "gpu \<Rightarrow> nat \<Rightarrow> nat list" where
  "grid e bl_size = order e (bl_size div (THREAD_BLOCKSIZE * 8) * THREAD_BLOCKSIZE)"

section \<open>The programs\<close>

text \<open>The loop of one second; \<open>fuel\<close> bounds its rounds. The result has the number of runs, the time and the
  readings of the clock so far.\<close>

fun second_loop :: "nat \<Rightarrow> ('s \<Rightarrow> 's option) \<Rightarrow> (nat \<Rightarrow> int) \<Rightarrow> nat \<Rightarrow> u64 \<Rightarrow> int \<Rightarrow> 's \<Rightarrow> (u64 \<times> int \<times> nat \<times> 's) option" where
  "second_loop n f clock k runs time_all s =
     (if time_all < 1000000 then
        case n of 0 \<Rightarrow> None
        | Suc n' \<Rightarrow> (case f s of None \<Rightarrow> None
          | Some s' \<Rightarrow> second_loop n' f clock (k + 2) (runs + 1) (time_all + (clock (Suc k) - clock k)) s')
      else Some (runs, time_all, k, s))"

declare second_loop.simps [simp del]

definition tester_xor :: "nat \<Rightarrow> alloc \<Rightarrow> gpu \<Rightarrow> (nat \<Rightarrow> u8 list) \<Rightarrow> u64 list \<Rightarrow> (nat \<Rightarrow> int) \<Rightarrow> nat \<Rightarrow> nat \<Rightarrow> heap \<Rightarrow>
    ((u64 \<times> int) list \<times> nat \<times> heap) option" where
  "tester_xor fuel al e dev x clock k bl_size h =
     (case malloc_bytes al (int bl_size) h of (A, h) \<Rightarrow> case malloc_bytes al (int bl_size) h of (B, h) \<Rightarrow>
      case malloc_bytes al (int bl_size) h of (C, h) \<Rightarrow> do {
        (runs, time_all, k, D) \<leftarrow> second_loop fuel (run_launch (xor_it_cuda x (dev 1) (dev 2)) (grid e bl_size)) clock k 0 0 (dev 0);
        let out = (runs * of_nat bl_size, time_all);
        (runs, time_all, k, m) \<leftarrow> second_loop fuel (xor_it_cpu A B C bl_size) clock k 0 0 (h_mem h);
        m \<leftarrow> c_free m A;
        m \<leftarrow> c_free m B;
        m \<leftarrow> c_free m C;
        Some ([out, (runs * of_nat bl_size, time_all)], k, h\<lparr>h_mem := m\<rparr>) })"

definition tester_shift :: "nat \<Rightarrow> alloc \<Rightarrow> gpu \<Rightarrow> (nat \<Rightarrow> u8 list) \<Rightarrow> u64 list \<Rightarrow> (nat \<Rightarrow> int) \<Rightarrow> nat \<Rightarrow> nat \<Rightarrow> heap \<Rightarrow>
    ((u64 \<times> int) list \<times> nat \<times> heap) option" where
  "tester_shift fuel al e dev x clock k bl_size h =
     (case malloc_bytes al (int bl_size) h of (A, h) \<Rightarrow> case malloc_bytes al (int bl_size) h of (C, h) \<Rightarrow> do {
        (runs, time_all, k, D) \<leftarrow> second_loop fuel (run_launch (shift_it_cuda x (dev 1)) (grid e bl_size)) clock k 0 0 (dev 0);
        let out = (runs * of_nat bl_size, time_all);
        (runs, time_all, k, m) \<leftarrow> second_loop fuel (shift_it_cpu A C bl_size) clock k 0 0 (h_mem h);
        m \<leftarrow> c_free m A;
        m \<leftarrow> c_free m C;
        Some ([out, (runs * of_nat bl_size, time_all)], k, h\<lparr>h_mem := m\<rparr>) })"

fun repeat_test :: "nat \<Rightarrow> (nat \<Rightarrow> heap \<Rightarrow> ((u64 \<times> int) list \<times> nat \<times> heap) option) \<Rightarrow> nat \<Rightarrow> heap \<Rightarrow> ((u64 \<times> int) list \<times> heap) option" where
  "repeat_test 0 test k h = Some ([], h)"
| "repeat_test (Suc n) test k h = do {
     (out, k, h) \<leftarrow> test k h;
     (outs, h) \<leftarrow> repeat_test n test k h;
     Some (out @ outs, h) }"

definition test_cuda_xor_perf :: "nat \<Rightarrow> alloc \<Rightarrow> gpu \<Rightarrow> (nat \<Rightarrow> u8 list) \<Rightarrow> u64 list \<Rightarrow> (nat \<Rightarrow> int) \<Rightarrow> heap \<Rightarrow> ((u64 \<times> int) list \<times> heap) option" where
  "test_cuda_xor_perf fuel al e dev x clock = repeat_test 31 (\<lambda>k. tester_xor fuel al e dev x clock k BL_SIZE) 0"

definition test_cuda_shift_perf :: "nat \<Rightarrow> alloc \<Rightarrow> gpu \<Rightarrow> (nat \<Rightarrow> u8 list) \<Rightarrow> u64 list \<Rightarrow> (nat \<Rightarrow> int) \<Rightarrow> heap \<Rightarrow> ((u64 \<times> int) list \<times> heap) option" where
  "test_cuda_shift_perf fuel al e dev x clock = repeat_test 30 (\<lambda>k. tester_shift fuel al e dev x clock k BL_SIZE) 0"

section \<open>The loop over the words\<close>

lemma words_loop_result:
  assumes C: "C \<noteq> null" and g: "\<And>cs i. length cs = l \<Longrightarrow> i < n \<Longrightarrow> g (m(C \<mapsto> Bytes cs)) i = Some (v i)" and l: "8 * n \<le> l"
    and j: "j \<le> n" "length cs = l"
  shows "\<exists>cs'. words_loop g C [j..<n] (m(C \<mapsto> Bytes cs)) = Some (m(C \<mapsto> Bytes cs')) \<and> length cs' = l \<and>
    (\<forall>x < l. cs' ! x = (if 8 * j \<le> x \<and> x < 8 * n then byte_of (v (x div 8)) (x mod 8) else cs ! x))"
  using j
proof (induction "n - j" arbitrary: j cs)
  case (Suc d)
  then have j: "j < n" and d: "d = n - Suc j" by simp_all
  let ?cs = "overwrite cs (8 * j) (bytes_of_word (v j))"
  have fits: "8 * j + 8 \<le> length cs" using j l Suc.prems(2) by simp
  have step: "words_loop g C [j..<n] (m(C \<mapsto> Bytes cs)) = words_loop g C [Suc j..<n] (m(C \<mapsto> Bytes ?cs))"
    using g [OF Suc.prems(2) j] j C fits by (simp add: upt_conv_Cons store64_def write_bytes_def)
  have len: "length ?cs = l" using fits Suc.prems(2) by simp
  obtain cs' where IH: "words_loop g C [Suc j..<n] (m(C \<mapsto> Bytes ?cs)) = Some (m(C \<mapsto> Bytes cs'))" "length cs' = l"
    "\<forall>x < l. cs' ! x = (if 8 * Suc j \<le> x \<and> x < 8 * n then byte_of (v (x div 8)) (x mod 8) else ?cs ! x)"
    using Suc.hyps(1) [OF d _ len] j by auto
  have "cs' ! x = (if 8 * j \<le> x \<and> x < 8 * n then byte_of (v (x div 8)) (x mod 8) else cs ! x)" if x: "x < l" for x
  proof (cases "8 * j \<le> x \<and> x < 8 * Suc j")
    case True
    then have div: "x div 8 = j" by auto
    then have "x mod 8 = x - 8 * j" using minus_mult_div_eq_mod [of x 8] by simp
    note this div
    then show ?thesis using True IH(3) x j fits Suc.prems(2) by (simp add: nth_overwrite lane_simps)
  next
    case False
    then have "8 * Suc j \<le> x \<longleftrightarrow> 8 * j \<le> x" by auto
    moreover have "?cs ! x = cs ! x" using False fits x Suc.prems(2) by (auto simp: nth_overwrite)
    ultimately show ?thesis using IH(3) x by simp
  qed
  then show ?case using IH(1,2) unfolding step by blast
qed auto

text \<open>A launch with a thread that is undefined in every state is undefined.\<close>

lemma launch_undefined: "t \<in> set ts \<Longrightarrow> (\<And>A. kern t A = None) \<Longrightarrow> run_launch kern ts A = None"
  by (induction ts arbitrary: A) (auto split: bind_splits)

lemma second_loop_undefined: "(\<And>s. f s = None) \<Longrightarrow> second_loop n f clock k runs 0 s = None"
  by (subst second_loop.simps) (simp split: nat.splits)

lemma thread_outside:
  assumes "length x = 8" "8 \<le> t mod THREAD_BLOCKSIZE"
  shows "xor_it_cuda x B C t A = None" "shift_it_cuda x C t A = None"
  using assms by (simp_all add: xor_it_cuda_def shift_it_cuda_def stream_store_def Let_def split: bind_splits)

lemma grid_thread: "schedule e \<Longrightarrow> 2048 \<le> bl_size \<Longrightarrow> 8 \<in> set (grid e bl_size)"
proof -
  assume e: "schedule e" and b: "2048 \<le> bl_size"
  have "1 \<le> bl_size div 2048" using div_le_mono [OF b, of 2048] by simp
  then show ?thesis using e by (simp add: grid_def schedule_def THREAD_BLOCKSIZE_def)
qed

text \<open>The shift on the host, of whole words: the top bit of a byte moves into the next byte.\<close>

lemma shift_it_cpu_computes:
  assumes "bytes_at m A = Some as" "bytes_at m C = Some cs" "C \<noteq> A" "bl_size \<le> length as" "bl_size \<le> length cs"
  shows "\<exists>cs'. shift_it_cpu A C bl_size m = Some (m(C \<mapsto> Bytes cs')) \<and> length cs' = length cs \<and> (\<forall>x < length cs. cs' ! x =
    (if x < bl_size div 8 * 8 then byte_of (push_bit 1 (word_of_bytes (take 8 (drop (8 * (x div 8)) as)))) (x mod 8) else cs ! x))"
proof -
  let ?n = "bl_size div 8" and ?v = "\<lambda>i. push_bit 1 (word_of_bytes (take 8 (drop (8 * i) as)))"
  have C: "C \<noteq> null" "m(C \<mapsto> Bytes cs) = m" using bytes_at_SomeD [OF assms(2)] by (simp_all add: fun_upd_idem)
  have fit: "8 * ?n \<le> length cs" using assms(5) by linarith
  let ?g = "\<lambda>m i. do { a \<leftarrow> load64 m A (8 * i); Some (push_bit 1 a) }"
  have g: "?g (m(C \<mapsto> Bytes cs)) i = Some (?v i)" if "i < ?n" for cs i
  proof -
    have "8 * i + 8 \<le> length as" using that assms(4) by linarith
    then show ?thesis using assms(1,3) by (simp add: load64_def mem_simps)
  qed
  show ?thesis
    using words_loop_result [where g = ?g and j = 0 and n = ?n and m = m and v = ?v and cs = cs and l = "length cs", OF C(1) g fit le0 refl] C(2)
    unfolding shift_it_cpu_def by (simp add: mult.commute)
qed

section \<open>Properties\<close>

text \<open>C40. The exclusive or on the host, for three buffers of at least the given size: it returns, the whole words of the third are the
  exclusive or of those of the other two, and neither its other bytes nor any other object change.\<close>

theorem xor_it_cpu_computes:
  assumes "bytes_at m A = Some as" "bytes_at m B = Some bs" "bytes_at m C = Some cs" "C \<noteq> A" "C \<noteq> B"
    and "bl_size \<le> length as" "bl_size \<le> length bs" "bl_size \<le> length cs"
  shows "\<exists>cs'. xor_it_cpu A B C bl_size m = Some (m(C \<mapsto> Bytes cs')) \<and> length cs' = length cs \<and>
    (\<forall>x < length cs. cs' ! x = (if x < bl_size div 8 * 8 then as ! x XOR bs ! x else cs ! x))"
proof -
  let ?n = "bl_size div 8"
  define v where "v i = word_of_bytes (take 8 (drop (8 * i) as)) XOR word_of_bytes (take 8 (drop (8 * i) bs))" for i
  have C: "C \<noteq> null" "m(C \<mapsto> Bytes cs) = m" using bytes_at_SomeD [OF assms(3)] by (simp_all add: fun_upd_idem)
  have fit: "8 * ?n \<le> length cs" using assms(8) by linarith
  have fits: "8 * i + 8 \<le> bl_size" if "i < ?n" for i using that by linarith
  let ?g = "\<lambda>m i. do { a \<leftarrow> load64 m A (8 * i); b \<leftarrow> load64 m B (8 * i); Some (a XOR b) }"
  have g: "?g (m(C \<mapsto> Bytes cs)) i = Some (v i)" if "i < ?n" for cs i
    using assms fits [OF that] by (simp add: load64_def mem_simps v_def)
  obtain cs' where c: "words_loop ?g C [0..<?n] (m(C \<mapsto> Bytes cs)) = Some (m(C \<mapsto> Bytes cs'))" "length cs' = length cs"
    "\<forall>x < length cs. cs' ! x = (if 8 * 0 \<le> x \<and> x < 8 * ?n then byte_of (v (x div 8)) (x mod 8) else cs ! x)"
    using words_loop_result [where g = ?g and j = 0 and n = ?n and m = m and v = v and cs = cs and l = "length cs", OF C(1) g fit le0 refl] by auto
  have "byte_of (v (x div 8)) (x mod 8) = as ! x XOR bs ! x" if "x < 8 * ?n" for x
  proof -
    have "x div 8 < ?n" using that by linarith
    then have "8 * (x div 8) + 8 \<le> length as" "8 * (x div 8) + 8 \<le> length bs" using fits [of "x div 8"] assms(6,7) by simp_all
    then show ?thesis by (simp add: v_def lane_simps)
  qed
  then show ?thesis using c C(2) unfolding xor_it_cpu_def by (auto simp: mult.commute)
qed

definition sample_words :: mem where
  "sample_words = [1 \<mapsto> Bytes (replicate 17 5), 2 \<mapsto> Bytes (replicate 17 3), 3 \<mapsto> Bytes (replicate 17 0)]"

theorem xor_it_cpu_computes_witness:
  "\<exists>cs'. xor_it_cpu 1 2 3 17 sample_words = Some (sample_words(3 \<mapsto> Bytes cs')) \<and> cs' ! 15 = 6 \<and> cs' ! 16 = 0"
proof -
  have b: "bytes_at sample_words 1 = Some (replicate 17 5)" "bytes_at sample_words 2 = Some (replicate 17 3)" "bytes_at sample_words 3 = Some (replicate 17 0)"
    by (simp_all add: sample_words_def bytes_at_def obj_at_def)
  obtain cs' where "xor_it_cpu 1 2 3 17 sample_words = Some (sample_words(3 \<mapsto> Bytes cs'))"
    "\<forall>x < 17. cs' ! x = (if x < 17 div 8 * 8 then replicate 17 5 ! x XOR replicate 17 3 ! x else replicate 17 0 ! x)"
    using xor_it_cpu_computes [OF b, of 17] by auto
  then show ?thesis by (intro exI [of _ cs']) simp
qed



text \<open>A thread inside the arrays computes the other way round than the host: the first buffer from the second and third.\<close>

lemma xor_it_cuda_thread:
  assumes "length x = 8" "tx < 8" "d = bx * THREAD_BLOCKSIZE + tx" "8 * d + 8 \<le> length A" "8 * d + 8 \<le> length B" "8 * d + 8 \<le> length C"
  shows "\<exists>b c. dload64 B (int (8 * d)) = Some b \<and> dload64 C (int (8 * d)) = Some c \<and>
    xor_it_cuda x B C d A = Some (overwrite A (8 * d) (bytes_of_word (c XOR b)))"
proof -
  have d: "d mod THREAD_BLOCKSIZE = tx" "d div THREAD_BLOCKSIZE * THREAD_BLOCKSIZE + tx = d"
    using assms(2,3) by (simp_all add: THREAD_BLOCKSIZE_def)
  have "nat (8 * int d) = 8 * d" by linarith
  then show ?thesis using assms(1,2,4-6) unfolding xor_it_cuda_def Let_def d by (simp add: dload64_def dstore64_def stream_store_def)
qed

end
