(* ===== verification/Spec2Isabelle.thy ===== *)
theory Spec2Isabelle
  imports Kernel_Test Daemon_Main Cuda_Raid6 Proto_Mmap Proto_Netlink User_Transports Proto_Rs Proto_Smp Cuda_Memcheck Cuda_Bench
begin

text \<open>
  \<^bold>\<open>Barracuda: RAID-6 syndromes computed in user space.\<close>

  \<^bold>\<open>The program.\<close> A Linux software RAID hands a stripe, an array of pointers to equally long
  buffers of which the last two are the check disks, to a function \<open>gen_syndrome\<close>. Barracuda
  replaces that function by a stub in a kernel module, which passes the request to a daemon in user
  space; the daemon maps or copies the buffers, runs one of several encoders and reports back.
  \<^item> The kernel module (\<open>barracuda_kernel_module/raid6cuda.c\<close>) keeps the request being served in
    one shared container, a configuration set over \<open>/proc/barracuda/conf\<close>, a number of semaphores, and
    three transports to wake the daemon: procfs, ioctl and netlink.
  \<^item> The daemon (\<open>barracuda_deamon/userspace_driver.cu\<close>) configures the module, waits in one of
    three server loops, marshals the request and calls an encoder.
  \<^item> The encoders (\<open>vanilla\<close>, \<open>smp\<close>, \<open>dummy\<close>, \<open>multrs\<close>, \<open>cuda\<close> below
    \<open>barracuda_deamon\<close>) are interchangeable functions of one type, \<open>syndrome_func\<close>.
  \<^item> The main program (\<open>baracuda_deamon.cu\<close>) chooses among driver, validation and benchmark.
  \<^item> A test module (\<open>raid6cuda_tst.c\<close>) calls the stub from the kernel; prototypes precede it all, and
    there are benchmarks and a memory test for the card.

  \<^bold>\<open>Conventions of the model.\<close> Integers keep the width of the source (\<^theory_text>\<open>word\<close>), except where an
  \<open>int\<close> of the source is bounded by a hypothesis and is an \<^typ>\<open>int\<close>. Memory (\<open>C_Memory\<close>) is a partial
  map from pointers to byte buffers and pointer arrays; aliasing is by equal pointers, and each access
  outside an object is the value \<^term>\<open>None\<close>. The module and the daemon return \<open>outcome\<close>s: \<open>Go\<close> a result,
  \<open>Block\<close> on a semaphore or a wait, or \<open>Fault\<close> for undefined behaviour. A call that may block is a step
  function over its program counter, and a system is an \<open>inductive\<close> step relation that interleaves
  any number of such calls. What is not code of the repository is a parameter: the kernel's page
  tables (\<open>mm_api\<close>), the registrations that may fail (\<open>init_env\<close>), the C library and device calls of
  the daemon (\<open>uenv\<close>, \<open>drv_env\<close>), memory allocation, the CUDA runtime and the order in which the card runs its threads
  (\<open>gpu\<close>, \<open>rs_gpu\<close>, \<open>mc_cards\<close>), the clock, the machine the main program runs on (\<open>machine\<close>). Hypotheses on these say only that a call
  succeeds or what it is documented to return.

  \<^bold>\<open>Specification.\<close>
  \<^item> \<open>Barracuda_Prelude\<close>: words and their byte lanes, splicing of buffers, transition systems with
    invariants (locales \<open>invariant_system\<close>, \<open>bounded_system\<close> and, where every state that is not final can move,
    \<open>live_system\<close>).
  \<^item> \<open>GF256\<close>: the field with 256 elements, powers of the generator, and that the code words of RAID-6
    have distance three (\<open>codeword_distance\<close>).
  \<^item> \<open>Raid6_Spec\<close>: the contract of \<open>syndrome_func\<close> as the locale \<open>raid6_generator\<close>: on a stripe of
    at least three disks the call returns, parity and syndrome of every column are written, and
    nothing else changes. Proved once in the locale: any two lost disks are determined by the rest,
    encoding twice changes nothing, and the daemon and the validator, as clients, are correct for every encoder of the contract. 

  \<^bold>\<open>Encoders.\<close>
  \<^item> \<open>Vanilla\<close> (\<open>vanilla/raid6vanilla.cu\<close>): \<open>SHLBYTE\<close>, \<open>MASK\<close> and the two loops; interpreted as
    \<open>raid6_generator\<close>.
  \<^item> \<open>Smp\<close> (\<open>smp/raid6smp.cu\<close>): \<open>set_internal_vars\<close>-many threads, each a record of the C locals, with every load and store
    a step of its own. Invariant over all interleavings, a bound on the number of steps, equality
    with the sequential encoder, and the overrun when chunks are not whole words.
  \<^item> \<open>Dummy\<close> (\<open>dummy/raid6dummy.cu\<close>) and \<open>MultRS\<close> (\<open>multrs/raid6multrs.cu\<close>, the build without CUDA): the two
    \<open>memcpy\<close> calls; the logarithm tables, \<open>mult_gf\<close> and where it differs from the field product, and the
    four check disks.
  \<^item> \<open>Cuda_Raid6\<close> (\<open>cuda/raid6cuda.cu\<close>): device memory, the copy loops, the kernel for any order of its
    threads. It terminates, stays inside its buffers and writes the parity; its second check disk is
    wrong, whatever the shared memory of the card contains.
  \<^item> \<open>Rs_Kernel\<close> (\<open>multrs/raid6multrs.cu\<close>, \<open>rs_kernel\<close>): the threads of a block share two pointers without
    synchronisation, so each access to shared memory is a step, and \<open>rs_step\<close> interleaves the threads up to
    and after the barrier. Every interleaving is free of invalid accesses and bounded. The locale
    \<open>rs_policy\<close> restricts which threads may move and is interpreted for all orders (\<open>free\<close>) and, in \<open>Rs_Orders\<close>, for
    threads one after the other (\<open>solo\<close>: the check disks of the CPU version) and threads in step (\<open>step\<close>: zeros).
  \<^item> \<open>Cuda_MultRS\<close>: the host side of the GPU version of \<open>multrs\<close>, with the consequences of the three orders for
    requests of whole blocks, and what smaller requests and rests run into.

  \<^bold>\<open>Kernel module.\<close>
  \<^item> \<open>Kernel_State\<close>: the globals as the record \<open>kstate\<close>, containers (\<open>pack_syndrome_container\<close>,
    \<open>kill_syndrome_container\<close>) and the print helper.
  \<^item> \<open>Kernel_Conf\<close>: \<open>conf_write\<close>, \<open>conf_read\<close>: what the commands store, which early return keeps which lock.
  \<^item> \<open>Kernel_Calls\<close>: the stub, \<open>call_usp_proc\<close>, \<open>call_usp_ioctl\<close>, \<open>call_usp_nl\<close>, \<open>proc_read\<close>, \<open>proc_write\<close>, \<open>ioctl_callback\<close>
    and \<open>nl_receive\<close> as step functions, \<open>kstep\<close> as their interleaving with pending signals;
    the locale \<open>usp_transport\<close> is what the stub relies on in each of the three transports. One job at a time, the published container is the waiting caller's, a report completes it; signals and wrong
    reports break this and how.
  \<^item> \<open>Kernel_Mmap\<close>: the \<open>mmap\<close>, \<open>read\<close> and \<open>write\<close> handlers of \<open>/dev/barracuda\<close>; \<open>Kernel_Init\<close>: start and stop for every
    combination of failing registrations; \<open>Kernel_Test\<close>: the test module with its encoders and its benchmark thread.

  \<^bold>\<open>Daemon.\<close>
  \<^item> \<open>User_Marshal\<close>: \<open>get_act_syndrome_block\<close> and \<open>unget_act_syndrome_block\<close>, or the copying pair. Both
    refine the contract of the encoder to the caller's buffers, and agree.
  \<^item> \<open>User_Server\<close>: the server loops, netlink packets byte by byte, signals, start-up and cleanup, the work on
    one request as the locale \<open>request_server\<close>, interpreted for every server, and the composition with the module: a request over procfs from the caller to the encoder and back.
  \<^item> \<open>Host_Service\<close> (\<open>service.cu\<close>, \<open>validator.cu\<close>) and \<open>Daemon_Main\<close> (\<open>baracuda_deamon.cu\<close>,
    \<open>benchmarker.cu\<close>, \<open>bench/gen_syndrome_test.cu\<close>): arguments, modes, validation, benchmark, driver.
  \<^item> \<open>User_Transports\<close>: the same composition over ioctl and over netlink.
  \<^item> This theory: the main program with the two encoders of the card.

  \<^bold>\<open>Prototypes and tools.\<close>
  \<^item> \<open>Proto_Mmap\<close> (\<open>prototypes/mmap_example\<close>): the first form of module and daemon, whose children overwrite the disks concurrently.
  \<^item> \<open>Proto_Ping\<close> and \<open>Proto_Netlink\<close> (\<open>prototypes/ping_pong_*\<close>): the first forms of the transports, kernel thread and program
    interleaved; every run ends, and in which state.
  \<^item> \<open>Proto_Rs\<close> (\<open>prototypes/multi_rs_cuda\<close>): the generator of the logarithm tables, which prints the tables of
    the encoders, and the program around both versions of the multi-failure encoder; \<open>Proto_Smp\<close>
    (\<open>prototypes/smp_gs\<close>): the benchmark of the multi-threaded encoder.
  \<^item> \<open>Cuda_Memcheck\<close> (\<open>tools/cuda_memcheck\<close>): what the memory test reports for every behaviour of the memory;
    \<open>Cuda_Bench\<close> (\<open>bench/cuda_xor_test.cu\<close>, \<open>bench/cuda_shift_test.cu\<close>): the micro-benchmarks.

  \<^bold>\<open>Bounds.\<close> A stripe has at least three disks and fewer than \<open>2^31\<close>, the range of the \<open>int\<close> the
  encoders take; the daemon's pointer array limits requests to 255 disks, distinct powers of the
  generator limit recovery to 255 data disks. The recursion over a loop of the source is structural or has a
  \<open>termination\<close> proof, or is a \<open>partial_function\<close> whose property shows that it returns. Loops that end by the clock
  take fuel: the benchmark loop of the test module, for which two seconds of ticks are enough, the two
  loops of \<open>rs_encoder.cu\<close>, for which 4000 calls are enough if each takes half a millisecond (and then \<open>BYTES*j\<close>
  does not overflow), and the loops of the micro-benchmarks, which do not get past their first launch.
  The interleaved threads have no fuel: \<open>smp_terminates\<close> and \<open>rs_kernel_every_order\<close> bound every run by a measure; a launch of
  \<open>rs_kernel\<close> on the host side runs for \<open>rs_fuel\<close> steps, which is this measure of the initial state.

  \<^bold>\<open>Not modelled.\<close> The asynchronous variant of the CUDA encoder and further debug code are compiled
  out. The clock functions of \<open>service.cu\<close> compute with floating-point seconds; where the programs add up
  times, the model has exact microseconds, and a printed quotient is given by its operands. Help texts and other
  messages are left out where nothing depends on them.
\<close>

section \<open>The CUDA encoder under the main program\<close>

lemma choose_CUDA:
  "choose_implementation (gen_syndrome_implementations (Some (multi, raid6)) cpus) ''CUDA'' (implementation_names (Some (multi, raid6))) = raid6"
  by (simp add: choose_implementation_def gen_syndrome_implementations_def implementation_names_def)

text \<open>C22. On a build with CUDA and a working card, every command line that asks to validate the CUDA encoder ends with
  EXIT_FAILURE: the program's own self-test rejects it, whatever the card contains and in whatever
  order the threads run.\<close>

theorem main_rejects_cuda:
  assumes "set_internal_vars (cpu_file e) = Some cpus" "command_line argv ''CUDA''" "''-V'' \<in> set argv" "''-k'' \<notin> set argv"
    and "\<forall>p. avail (memory e) p" "0 < h_next (sys_heap s)"
    and "cuda e = Some (multi, cuda_gen g st)" "schedule g" "device_ok g" "static_dptrs st = None" "mem_tag st = 0"
  shows "\<exists>h. main e server argv s = Go (EXIT_FAILURE, s\<lparr>sys_heap := h\<rparr>)"
proof -
  have "\<exists>gs. gen_syndrome_implementations (cuda e) cpus = raid6_vanilla_gen_syndrome # gs"
    by (simp add: gen_syndrome_implementations_def)
  then obtain h where "validate_implemenataion (memory e) (cuda_gen g st) (gen_syndrome_implementations (cuda e) cpus) (sys_heap s) =
      Some (EXIT_FAILURE, h)"
    using cuda_rejected [OF assms(8-11,5,6)] by metis
  then show ?thesis using run_validation [OF assms(1-4)] unfolding assms(7) choose_CUDA by blast
qed

theorem main_rejects_cuda_witness:
  "\<exists>h. main (sample_machine\<lparr>cuda := Some (multi_rs_gen_syndrome, cuda_gen sample_gpu cuda_start)\<rparr>) (\<lambda>gen c w. Block)
     [''barracuda'', ''-V'', ''-m'', ''CUDA''] sample_system = Go (EXIT_FAILURE, sample_system\<lparr>sys_heap := h\<rparr>)"
proof -
  let ?e = "sample_machine\<lparr>cuda := Some (multi_rs_gen_syndrome, cuda_gen sample_gpu cuda_start)\<rparr>"
  have cl: "command_line [''barracuda'', ''-V'', ''-m'', ''CUDA''] ''CUDA''" by (rule command_lineI [where i = 2]; code_simp)
  have cpus: "set_internal_vars (cpu_file ?e) = Some 4" using sample_cpus by simp
  have m: "\<forall>p. avail (memory ?e) p" "0 < h_next (sys_heap sample_system)" "cuda ?e = Some (multi_rs_gen_syndrome, cuda_gen sample_gpu cuda_start)"
    by (simp_all add: sample_machine_def sample_system_def)
  have g: "device_ok sample_gpu" "static_dptrs cuda_start = None" "mem_tag cuda_start = 0"
    by (simp_all add: sample_gpu_def cuda_start_def)
  show ?thesis using main_rejects_cuda [OF cpus cl _ _ m sample_cuda(1) g, of "\<lambda>gen c w. Block"] by simp
qed

section \<open>The multi-failure encoder of the card under the main program\<close>

text \<open>The encoder as a \<open>syndrome_func\<close>, from the state of the card before the call.\<close>

definition multi_gen :: "rs_gpu \<Rightarrow> rs_state \<Rightarrow> syndrome_func" where
  "multi_gen e s disks bytes ptrs m = (case multi_rs_gen_syndrome_cuda e disks bytes ptrs (s, m) of
     Some (Inr (s', m')) \<Rightarrow> Some m' | _ \<Rightarrow> None)"

lemma choose_MULTI:
  "choose_implementation (gen_syndrome_implementations (Some (multi, raid6)) cpus) ''MULTI'' (implementation_names (Some (multi, raid6))) = multi"
  by (simp add: choose_implementation_def gen_syndrome_implementations_def implementation_names_def)

lemma multi_not_validated:
  assumes "\<forall>p. avail al p" "0 < h_next h" "rs_ready e 4 3 T s"
  shows "validate_implemenataion al (multi_gen e s) (raid6_vanilla_gen_syndrome # gs) h = None"
proof -
  define a M where aM: "a = h_next h" "M = validator_mem al h"
  define M1 where M1: "M1 = M(a + 6 \<mapsto> Bytes validator_P, a + 7 \<mapsto> Bytes validator_Q)"
  note first = validator_first [OF assms(1,2) aM M1]
  obtain h1 h2 where h: "allocate_host_example_dpointer al 512 7 h = Some (a, h1)" "allocate_host_example_dpointer al 512 7 h1 = Some (a + 8, h2)"
    "fill_disks a (a + 8) 512 [0..<7] (h_mem h2) = Some M"
    using validator_setup [OF assms(1,2)] unfolding aM by blast
  have "buf M1 (stripe7 (a + 8) ! 0) = replicate 512 0" using first(3) [of 0] stripe7_nth [of 0 "a + 8"] by (simp add: buf_def)
  then have "multi_rs_gen_syndrome_cuda e (int (length (stripe7 (a + 8)))) 512 (a + 8) (s, M1) = None"
    by (intro multi_rs_gpu_small_request [OF assms(3) first(2)]) (simp_all add: stripe7_def DMA_BLOCKSIZE_def del: upt_Suc)
  then have "multi_gen e s 7 512 (a + 8) M1 = None" by (simp add: multi_gen_def stripe7_def)
  then show ?thesis using h first(1) unfolding validate_implemenataion_def by simp
qed

text \<open>C23. On a build with CUDA and a working card, every command line that asks to validate the multi-failure encoder runs into
  undefined behaviour: the validator hands out buffers of 512 bytes, and the encoder copies whole
  blocks of the size of a transfer from them.\<close>

theorem main_multi_rs_faults:
  assumes "set_internal_vars (cpu_file e) = Some cpus" "command_line argv ''MULTI''" "''-V'' \<in> set argv" "''-k'' \<notin> set argv"
    and "\<forall>p. avail (memory e) p" "0 < h_next (sys_heap s)"
    and "cuda e = Some (multi_gen g st, raid6)" "rs_ready g 4 3 T st"
  shows "main e server argv s = Fault"
proof -
  obtain opts where o: "parse_args argv [0..<length argv] no_options = Some (Inr opts)" "mode opts = 1"
    "mode_type opts = ''MULTI''" "validation opts = 1" "kill opts = 0"
    using command_line_options [OF assms(2)] assms(3,4) by auto
  obtain gs where "gen_syndrome_implementations (cuda e) cpus = raid6_vanilla_gen_syndrome # gs"
    by (simp add: gen_syndrome_implementations_def)
  then have "validate_implemenataion (memory e) (multi_gen g st) (gen_syndrome_implementations (cuda e) cpus) (sys_heap s) = None"
    using multi_not_validated [OF assms(5,6,8)] by simp
  moreover have "choose_implementation (gen_syndrome_implementations (cuda e) cpus) ''MULTI'' (implementation_names (cuda e)) = multi_gen g st"
    unfolding assms(7) by (rule choose_MULTI)
  ultimately show ?thesis using o assms(1) by (simp add: main_def run_mode_def Let_def)
qed

theorem main_multi_rs_faults_witness:
  "main (sample_machine\<lparr>cuda := Some (multi_gen (sample_rs_gpu any_order) rs_power_on, cuda_gen sample_gpu cuda_start)\<rparr>) (\<lambda>gen c w. Block)
     [''barracuda'', ''-V'', ''-m'', ''MULTI''] sample_system = Fault"
proof -
  let ?e = "sample_machine\<lparr>cuda := Some (multi_gen (sample_rs_gpu any_order) rs_power_on, cuda_gen sample_gpu cuda_start)\<rparr>"
  have cl: "command_line [''barracuda'', ''-V'', ''-m'', ''MULTI''] ''MULTI''" by (rule command_lineI [where i = 2]; code_simp)
  have cpus: "set_internal_vars (cpu_file ?e) = Some 4" using sample_cpus by simp
  have m: "\<forall>p. avail (memory ?e) p" "0 < h_next (sys_heap sample_system)"
    "cuda ?e = Some (multi_gen (sample_rs_gpu any_order) rs_power_on, cuda_gen sample_gpu cuda_start)"
    by (simp_all add: sample_machine_def sample_system_def)
  have r: "rs_ready (sample_rs_gpu any_order) 4 3 (\<lambda>x. 0) rs_power_on" by (rule rs_power_on_ready) simp_all
  show ?thesis using main_multi_rs_faults [OF cpus cl _ _ m r, of "\<lambda>gen c w. Block"] by simp
qed

end
